theory Spec2Isabelle
  imports Complex_Main "HOL-Library.Word"
begin

unbundle bit_operations_syntax

chapter \<open>The PCjs device backplane: number arrays, memory blocks, the bus and the clock\<close>

text \<open>
  The development follows the order of the source: the run-length codec of \<open>NumIO\<close>,
  the \<open>Memory\<close> block with its rebindable accessors and traps, the \<open>Bus\<close> with its
  block slots, and the \<open>Time\<close> device with its timers and its run, step and stop
  transitions. All definitions come first; the lemmas and theorems about them follow.

  JavaScript numbers are modelled by \<open>int\<close> where the source holds whole numbers (data
  values, counts, cycle counts) and by \<open>rat\<close> where it holds fractions (milliseconds,
  multipliers, the cycle deposit), with the result of every operation on fractions
  rounded to a double; infinities, \<open>NaN\<close> and signed zero are not modelled.
\<close>

section \<open>NumIO: compress and decompress\<close>

text \<open>
  \<open>compress(aSrc)\<close> walks the source array with two indices. The inner loop advances
  \<open>iCompare\<close> while the element there equals \<open>n\<close>.
\<close>

function scan_run :: "int list \<Rightarrow> int \<Rightarrow> nat \<Rightarrow> nat" where
  "scan_run aSrc n iCompare =
     (if iCompare < length aSrc \<and> aSrc ! iCompare = n
      then scan_run aSrc n (iCompare + 1) else iCompare)"
  by pat_completeness auto
termination
  by (relation "measure (\<lambda>(aSrc, n, iCompare). length aSrc - iCompare)") auto

declare scan_run.simps [simp del]

text \<open>The outer loop appends one \<open>(count, value)\<close> pair per run and continues after the run.\<close>

function compress_loop :: "int list \<Rightarrow> nat \<Rightarrow> int list \<Rightarrow> int list" where
  "compress_loop aSrc iSrc aComp =
     (if iSrc < length aSrc
      then (let n = aSrc ! iSrc;
                iCompare = scan_run aSrc n (iSrc + 1)
            in compress_loop aSrc iCompare (aComp @ [int iCompare - int iSrc, n]))
      else aComp)"
  by pat_completeness auto
termination
proof (relation "measure (\<lambda>(aSrc, iSrc, aComp). length aSrc - iSrc)")
  show "wf (measure (\<lambda>(aSrc, iSrc, aComp). length aSrc - iSrc))" by simp
next
  fix aSrc :: "int list" and iSrc :: nat and aComp :: "int list" and x xa
  assume a: "iSrc < length aSrc" "x = aSrc ! iSrc" "xa = scan_run aSrc x (iSrc + 1)"
  have ge: "i \<le> scan_run xs n i" for xs n i
  proof (induction xs n i rule: scan_run.induct)
    case (1 aSrc n iCompare)
    then show ?case by (subst scan_run.simps) auto
  qed
  have "iSrc + 1 \<le> xa" using a ge by simp
  then show "((aSrc, xa, aComp @ [int xa - int iSrc, x]), aSrc, iSrc, aComp)
      \<in> measure (\<lambda>(aSrc, iSrc, aComp). length aSrc - iSrc)"
    using a by simp
qed

declare compress_loop.simps [simp del]

text \<open>The result is the source array itself unless the pairs are strictly shorter.\<close>

definition compress :: "int list \<Rightarrow> int list" where
  "compress aSrc =
     (let aComp = compress_loop aSrc 0 []
      in if length aComp \<ge> length aSrc then aSrc else aComp)"

text \<open>
  A JavaScript array element is a number or a hole (\<open>None\<close>). An assignment
  \<open>a[i] = v\<close> beyond the end extends the array, leaving holes in between.
\<close>

definition js_store :: "'a option list \<Rightarrow> nat \<Rightarrow> 'a \<Rightarrow> 'a option list" where
  "js_store a i v =
     (if i < length a then a[i := Some v]
      else a @ replicate (i - length a) None @ [Some v])"

text \<open>
  The inner loop of \<open>decompress\<close> is \<open>while (c--) aDst[iDst++] = n\<close>. It stops when
  \<open>c\<close> is zero, so a negative count never stops: the loop is a partial function, and
  \<open>None\<close> stands for not returning.
\<close>

partial_function (option) fill_run ::
  "int \<Rightarrow> int \<Rightarrow> int option list \<Rightarrow> nat \<Rightarrow> (int option list \<times> nat) option" where
  "fill_run c n aDst iDst =
     (if c \<noteq> 0 then fill_run (c - 1) n (js_store aDst iDst n) (iDst + 1)
      else Some (aDst, iDst))"

declare fill_run.simps [code]

text \<open>The outer loop reads pairs while \<open>iComp < aComp.length - 1\<close>.\<close>

function decompress_loop ::
  "int list \<Rightarrow> nat \<Rightarrow> int option list \<Rightarrow> nat \<Rightarrow> int option list option" where
  "decompress_loop aComp iComp aDst iDst =
     (if int iComp < int (length aComp) - 1
      then (case fill_run (aComp ! iComp) (aComp ! (iComp + 1)) aDst iDst of
              None \<Rightarrow> None
            | Some (aDst', iDst') \<Rightarrow> decompress_loop aComp (iComp + 2) aDst' iDst')
      else Some aDst)"
  by pat_completeness auto
termination
  by (relation "measure (\<lambda>(aComp, iComp, aDst, iDst). length aComp - iComp)") auto

declare decompress_loop.simps [simp del]

text \<open>
  \<open>decompress(aComp, length)\<close> returns \<open>aComp\<close> itself when it already has the expected
  length; otherwise it fills \<open>new Array(length)\<close> (all holes) from the pairs.
\<close>

definition decompress :: "int list \<Rightarrow> nat \<Rightarrow> int option list option" where
  "decompress aComp len =
     (if length aComp = len then Some (map Some aComp)
      else decompress_loop aComp 0 (replicate len None) 0)"

text \<open>
  The run-length encoding as the specification words it: the array is cut into maximal
  runs of equal values, and each run contributes its count followed by its value.
\<close>

function rle_pairs :: "int list \<Rightarrow> int list" where
  "rle_pairs [] = []"
| "rle_pairs (x # xs) =
     (1 + int (length (takeWhile (\<lambda>y. y = x) xs))) # x # rle_pairs (dropWhile (\<lambda>y. y = x) xs)"
  by pat_completeness auto
termination
  by (relation "measure length") (auto simp: length_dropWhile_le less_Suc_eq_le)

definition rle_encoding :: "int list \<Rightarrow> int list" where
  "rle_encoding xs = rle_pairs xs"

section \<open>JavaScript's 32-bit operators\<close>

text \<open>
  The operators \<open>|\<close>, \<open>&\<close>, \<open><<\<close> and \<open>>>\<close> convert their operands to signed 32-bit
  integers, use only the low five bits of a shift count, and give a signed 32-bit result.
\<close>

definition js_or :: "int \<Rightarrow> int \<Rightarrow> int" where
  "js_or a b = sint ((word_of_int a :: 32 word) OR word_of_int b)"

definition js_and :: "int \<Rightarrow> int \<Rightarrow> int" where
  "js_and a b = sint ((word_of_int a :: 32 word) AND word_of_int b)"

definition js_shl :: "int \<Rightarrow> nat \<Rightarrow> int" where
  "js_shl a n = sint (push_bit (n mod 32) (word_of_int a :: 32 word))"

definition js_sar :: "int \<Rightarrow> nat \<Rightarrow> int" where
  "js_sar a n = sint (signed_drop_bit (n mod 32) (word_of_int a :: 32 word))"

section \<open>Memory: a block of the address space\<close>

text \<open>\<open>Memory.TYPE\<close> has three discrete block types.\<close>

datatype mem_type = NONE | READONLY | READWRITE

text \<open>\<open>Bus.TYPE\<close>: a static bus tracks dirty blocks, a dynamic bus does not.\<close>

datatype bus_type = STATIC | DYNAMIC

text \<open>
  A block's accessors \<open>readData\<close>, \<open>writeData\<close>, \<open>readPair\<close> and \<open>writePair\<close> are
  properties that the source rebinds to one of its methods or, while a trap is installed,
  to a closure. Each property holds the name of the function bound to it, or nothing
  (\<open>null\<close> or \<open>undefined\<close>).
\<close>

datatype read_fn = ReadNone | ReadValue | ReadDataTrap

datatype write_fn = WriteNone | WriteValue | WriteValueDirty | WriteDataTrap

datatype readpair_fn =
  ReadNonePair | ReadValuePair | ReadValuePairBE | ReadValuePairLE
  | ReadValuePair16 | ReadValuePair16SE | ReadPairTrap

datatype writepair_fn =
  WritePairNone | WriteValuePair | WriteValuePairBE | WriteValuePairLE
  | WriteValuePair16 | WriteValuePair16SE | WriteValuePairDirty | WritePairTrap

text \<open>
  A trap callback is a function of the embedding page; the model knows it by an
  identifier (the source compares callbacks with \<open>==\<close>) and records each call: the
  callback, the three arguments, and the block's values and dirty flag at the time of
  the call, which is what the callback can observe of the block.
\<close>

datatype trap_call =
  TrapCall (tc_func: nat) (tc_base: "int option") (tc_offset: nat) (tc_value: int)
    (tc_seen: "int list") (tc_dirty: bool)

text \<open>
  The block. \<open>addr\<close> is undefined (\<open>None\<close>) for the placeholder block; \<open>buffer\<close>
  says whether \<open>values\<close> is a \<open>Uint8Array\<close> over an \<open>ArrayBuffer\<close> (whose elements
  are bytes) or a plain array; \<open>bus\<close> is the type of the bus the block was built for;
  \<open>LITTLE_ENDIAN\<close> is the host's byte order, the global constant of the source;
  \<open>calls\<close> is the record of trap callbacks called so far.
\<close>

record memory =
  addr :: "int option"
  size_blk :: nat
  type :: mem_type
  bus :: bus_type
  dataWidth :: nat
  dataLimit :: int
  pairLimit :: int
  littleEndian :: bool
  LITTLE_ENDIAN :: bool
  buffer :: bool
  values_blk :: "int list"
  fDirty :: bool
  nReadTraps :: nat
  nWriteTraps :: nat
  readTrap :: "nat option"
  writeTrap :: "nat option"
  readData :: "read_fn option"
  writeData :: "write_fn option"
  readPair :: "readpair_fn option"
  writePair :: "writepair_fn option"
  readDataOrig :: "read_fn option"
  writeDataOrig :: "write_fn option"
  readPairOrig :: "readpair_fn option"
  writePairOrig :: "writepair_fn option"
  calls :: "trap_call list"

text \<open>
  What can go wrong in a call. \<open>TypeError\<close>: calling a property that is \<open>null\<close>.
  \<open>RangeError\<close>: a \<open>DataView\<close> access outside the buffer, or a trap closure bound as
  its own original (unbounded recursion). \<open>OffsetOutsideBlock\<close>: the offset is not an
  index of \<open>values\<close>; the source then reads \<open>undefined\<close> or grows a plain array, which
  are not numbers of the model, so the model stops there.
\<close>

datatype js_error = TypeError | RangeError | OffsetOutsideBlock

subsection \<open>Configuration and construction\<close>

record memory_config =
  cfg_addr :: "int option"
  cfg_size :: nat
  cfg_type :: "mem_type option"
  cfg_values :: "int list option"

text \<open>
  \<open>initValues(values_blk)\<close>. Without a buffer the given array is adopted as it is, or a new
  array is filled with \<open>dataLimit\<close>. With a buffer (zero-filled bytes) the given values
  are copied element by element; a byte array stores a number modulo 256 and stores 0 for
  a missing element.
\<close>

definition initValues :: "memory \<Rightarrow> int list option \<Rightarrow> memory" where
  "initValues b vs =
     (if \<not> buffer b then
        (case vs of
           Some vals \<Rightarrow> b\<lparr>values_blk := vals\<rparr>
         | None \<Rightarrow> b\<lparr>values_blk := replicate (size_blk b) (dataLimit b)\<rparr>)
      else
        (case vs of
           Some vals \<Rightarrow>
             b\<lparr>values_blk := map (\<lambda>i. if i < length vals then vals ! i mod 256 else 0)
                              [0..<size_blk b]\<rparr>
         | None \<Rightarrow> b))"

text \<open>
  The constructor. It takes from the bus its type, data width and byte order, and from
  the machine whether array buffers are allowed (\<open>getMachineConfig('ArrayBuffer') !==
  false\<close>). A bus that cannot be found makes the source throw; here the bus is given.
\<close>

definition Memory_new ::
  "bool \<Rightarrow> bool \<Rightarrow> bus_type \<Rightarrow> nat \<Rightarrow> bool \<Rightarrow> memory_config \<Rightarrow> memory" where
  "Memory_new hostLE arrayBuffer busType busDataWidth busLittleEndian config =
     (let ty = (case cfg_type config of Some t \<Rightarrow> t | None \<Rightarrow> NONE);
          useBuffer = (busType = STATIC \<and> busDataWidth = 8 \<and> arrayBuffer);
          readValue0 = ReadValue;
          writeValue0 = (if busType = STATIC then WriteValueDirty else WriteValue);
          readPair0 =
            (if busType = STATIC then
               (if useBuffer then
                  (if busLittleEndian = hostLE then ReadValuePair16 else ReadValuePair16SE)
                else (if busLittleEndian then ReadValuePairLE else ReadValuePairBE))
             else ReadValuePair);
          writePair0 = (if busType = STATIC then WriteValuePairDirty else WriteValuePair);
          b0 = \<lparr> addr = cfg_addr config, size_blk = cfg_size config, type = ty,
                 bus = busType, dataWidth = busDataWidth,
                 dataLimit = 2 ^ busDataWidth - 1, pairLimit = 2 ^ (busDataWidth * 2) - 1,
                 littleEndian = busLittleEndian, LITTLE_ENDIAN = hostLE,
                 buffer = useBuffer,
                 values_blk = (if useBuffer then replicate (cfg_size config) 0 else []),
                 fDirty = False, nReadTraps = 0, nWriteTraps = 0,
                 readTrap = None, writeTrap = None,
                 readData = None, writeData = None, readPair = None, writePair = None,
                 readDataOrig = None, writeDataOrig = None,
                 readPairOrig = None, writePairOrig = None, calls = [] \<rparr>;
          b1 = initValues b0 (cfg_values config)
      in (case ty of
            NONE \<Rightarrow> b1\<lparr>readData := Some ReadNone, writeData := Some WriteNone,
                       readPair := Some ReadNonePair, writePair := Some WritePairNone\<rparr>
          | READONLY \<Rightarrow> b1\<lparr>readData := Some readValue0, writeData := Some WriteNone,
                           readPair := Some readPair0, writePair := Some WritePairNone\<rparr>
          | READWRITE \<Rightarrow> b1\<lparr>readData := Some readValue0, writeData := Some writeValue0,
                            readPair := Some readPair0, writePair := Some writePair0\<rparr>))"

text \<open>\<open>onReset()\<close> zeroes a read-write block.\<close>

definition onReset :: "memory \<Rightarrow> memory" where
  "onReset b =
     (if type b = READWRITE then b\<lparr>values_blk := replicate (length (values_blk b)) 0\<rparr> else b)"

subsection \<open>The methods bound to the accessors\<close>

text \<open>
  An element store \<open>this.values[offset] = value\<close>: a byte array keeps the value modulo
  256, a plain array keeps it as it is.
\<close>

definition store_value :: "memory \<Rightarrow> nat \<Rightarrow> int \<Rightarrow> js_error + memory" where
  "store_value b offset v =
     (if offset < length (values_blk b)
      then Inr (b\<lparr>values_blk := (values_blk b)[offset := (if buffer b then v mod 256 else v)]\<rparr>)
      else Inl OffsetOutsideBlock)"

definition load_value :: "memory \<Rightarrow> nat \<Rightarrow> js_error + int" where
  "load_value b offset =
     (if offset < length (values_blk b) then Inr (values_blk b ! offset) else Inl OffsetOutsideBlock)"

definition readNone :: "memory \<Rightarrow> nat \<Rightarrow> js_error + int" where
  "readNone b offset = Inr (dataLimit b)"

definition readNonePair :: "memory \<Rightarrow> nat \<Rightarrow> js_error + int" where
  "readNonePair b offset =
     (case readNone b offset of Inl e \<Rightarrow> Inl e | Inr lo \<Rightarrow>
      (case readNone b (offset + 1) of Inl e \<Rightarrow> Inl e | Inr hi \<Rightarrow>
         (if littleEndian b then Inr (js_or lo (js_shl hi (dataWidth b)))
          else Inr (js_or hi (js_shl lo (dataWidth b))))))"

definition readValue :: "memory \<Rightarrow> nat \<Rightarrow> js_error + int" where
  "readValue b offset = load_value b offset"

definition pair_of :: "memory \<Rightarrow> bool \<Rightarrow> nat \<Rightarrow> js_error + int" where
  "pair_of b le offset =
     (case load_value b offset of Inl e \<Rightarrow> Inl e | Inr v0 \<Rightarrow>
      (case load_value b (offset + 1) of Inl e \<Rightarrow> Inl e | Inr v1 \<Rightarrow>
         (if le then Inr (js_or v0 (js_shl v1 (dataWidth b)))
          else Inr (js_or v1 (js_shl v0 (dataWidth b))))))"

definition readValuePair :: "memory \<Rightarrow> nat \<Rightarrow> js_error + int" where
  "readValuePair b offset = pair_of b (littleEndian b) offset"

definition readValuePairBE :: "memory \<Rightarrow> nat \<Rightarrow> js_error + int" where
  "readValuePairBE b offset = pair_of b False offset"

definition readValuePairLE :: "memory \<Rightarrow> nat \<Rightarrow> js_error + int" where
  "readValuePairLE b offset = pair_of b True offset"

text \<open>
  \<open>valuePairs[offset >>> 1]\<close> reads the 16-bit element over bytes \<open>2k\<close> and \<open>2k+1\<close>
  in the host's byte order; \<open>valuePairs\<close> has \<open>size >> 1\<close> elements.
\<close>

definition readValuePair16 :: "memory \<Rightarrow> nat \<Rightarrow> js_error + int" where
  "readValuePair16 b offset =
     (let k = offset div 2 in
      if k < size_blk b div 2 \<and> 2 * k + 1 < length (values_blk b)
      then Inr (if LITTLE_ENDIAN b
                then values_blk b ! (2 * k) + 256 * (values_blk b ! (2 * k + 1))
                else 256 * (values_blk b ! (2 * k)) + values_blk b ! (2 * k + 1))
      else Inl OffsetOutsideBlock)"

text \<open>\<open>dataView.getUint16(offset, littleEndian)\<close> throws outside the buffer.\<close>

definition readValuePair16SE :: "memory \<Rightarrow> nat \<Rightarrow> js_error + int" where
  "readValuePair16SE b offset =
     (if offset + 2 \<le> length (values_blk b)
      then Inr (if littleEndian b
                then values_blk b ! offset + 256 * (values_blk b ! (offset + 1))
                else 256 * (values_blk b ! offset) + values_blk b ! (offset + 1))
      else Inl RangeError)"

definition writeNone :: "memory \<Rightarrow> nat \<Rightarrow> int \<Rightarrow> js_error + memory" where
  "writeNone b offset v = Inr b"

definition writeValue :: "memory \<Rightarrow> nat \<Rightarrow> int \<Rightarrow> js_error + memory" where
  "writeValue b offset v = store_value b offset v"

text \<open>
  \<open>writeValueDirty\<close> stores, sets the dirty flag, and rebinds the write accessor (or,
  under a write trap, the saved original) to the plain \<open>writeValue\<close>.
\<close>

definition writeValueDirty :: "memory \<Rightarrow> nat \<Rightarrow> int \<Rightarrow> js_error + memory" where
  "writeValueDirty b offset v =
     (case store_value b offset v of Inl e \<Rightarrow> Inl e | Inr b1 \<Rightarrow>
        (let b2 = b1\<lparr>fDirty := True\<rparr>
         in if nWriteTraps b2 = 0 then Inr (b2\<lparr>writeData := Some WriteValue\<rparr>)
            else Inr (b2\<lparr>writeDataOrig := Some WriteValue\<rparr>)))"

definition store_pair :: "memory \<Rightarrow> nat \<Rightarrow> int \<Rightarrow> int \<Rightarrow> js_error + memory" where
  "store_pair b offset v0 v1 =
     (case store_value b offset v0 of Inl e \<Rightarrow> Inl e | Inr b1 \<Rightarrow>
        store_value b1 (offset + 1) v1)"

definition writeValuePair :: "memory \<Rightarrow> nat \<Rightarrow> int \<Rightarrow> js_error + memory" where
  "writeValuePair b offset v =
     (if littleEndian b
      then (case writeValue b offset (js_and v (dataLimit b)) of Inl e \<Rightarrow> Inl e | Inr b1 \<Rightarrow>
              writeValue b1 (offset + 1) (js_sar v (dataWidth b)))
      else (case writeValue b offset (js_sar v (dataWidth b)) of Inl e \<Rightarrow> Inl e | Inr b1 \<Rightarrow>
              writeValue b1 (offset + 1) (js_and v (dataLimit b))))"

definition writeValuePairBE :: "memory \<Rightarrow> nat \<Rightarrow> int \<Rightarrow> js_error + memory" where
  "writeValuePairBE b offset v =
     store_pair b offset (js_sar v (dataWidth b)) (js_and v (dataLimit b))"

definition writeValuePairLE :: "memory \<Rightarrow> nat \<Rightarrow> int \<Rightarrow> js_error + memory" where
  "writeValuePairLE b offset v =
     store_pair b offset (js_and v (dataLimit b)) (js_sar v (dataWidth b))"

text \<open>
  \<open>valuePairs[offset >>> 1] = value\<close> stores the value modulo 65536 over bytes \<open>2k\<close>
  and \<open>2k+1\<close> in the host's byte order; an index outside \<open>valuePairs\<close> stores nothing,
  which the model reports as \<open>OffsetOutsideBlock\<close>.
\<close>

definition writeValuePair16 :: "memory \<Rightarrow> nat \<Rightarrow> int \<Rightarrow> js_error + memory" where
  "writeValuePair16 b offset v =
     (let k = offset div 2; w = v mod 65536 in
      if k < size_blk b div 2 \<and> 2 * k + 1 < length (values_blk b)
      then Inr (b\<lparr>values_blk :=
                   (if LITTLE_ENDIAN b
                    then (values_blk b)[2 * k := w mod 256, 2 * k + 1 := w div 256]
                    else (values_blk b)[2 * k := w div 256, 2 * k + 1 := w mod 256])\<rparr>)
      else Inl OffsetOutsideBlock)"

definition writeValuePair16SE :: "memory \<Rightarrow> nat \<Rightarrow> int \<Rightarrow> js_error + memory" where
  "writeValuePair16SE b offset v =
     (let w = v mod 65536 in
      if offset + 2 \<le> length (values_blk b)
      then Inr (b\<lparr>values_blk :=
                   (if littleEndian b
                    then (values_blk b)[offset := w mod 256, offset + 1 := w div 256]
                    else (values_blk b)[offset := w div 256, offset + 1 := w mod 256])\<rparr>)
      else Inl RangeError)"

text \<open>
  \<open>writeValuePairDirty\<close> writes the pair with the method that fits the storage and
  rebinds the pair accessor (or its saved original) to that method.
\<close>

definition writeValuePairDirty :: "memory \<Rightarrow> nat \<Rightarrow> int \<Rightarrow> js_error + memory" where
  "writeValuePairDirty b offset v =
     (let (wr, fn) =
            (if \<not> buffer b then
               (if littleEndian b then (writeValuePairLE, WriteValuePairLE)
                else (writeValuePairBE, WriteValuePairBE))
             else
               (if littleEndian b = LITTLE_ENDIAN b then (writeValuePair16, WriteValuePair16)
                else (writeValuePair16SE, WriteValuePair16SE)))
      in case wr b offset v of Inl e \<Rightarrow> Inl e | Inr b1 \<Rightarrow>
           (if nWriteTraps b1 = 0 then Inr (b1\<lparr>writePair := Some fn\<rparr>)
            else Inr (b1\<lparr>writePairOrig := Some fn\<rparr>)))"


subsection \<open>Calling an accessor\<close>

text \<open>
  Calling the function that a name stands for. The closures are called through
  \<open>readDataTrap\<close> and its siblings below; a closure found where an original method is
  expected would call itself without end.
\<close>

definition call_read :: "read_fn \<Rightarrow> memory \<Rightarrow> nat \<Rightarrow> js_error + int" where
  "call_read fn b offset =
     (case fn of
        ReadNone \<Rightarrow> readNone b offset
      | ReadValue \<Rightarrow> readValue b offset
      | ReadDataTrap \<Rightarrow> Inl RangeError)"

definition call_write :: "write_fn \<Rightarrow> memory \<Rightarrow> nat \<Rightarrow> int \<Rightarrow> js_error + memory" where
  "call_write fn b offset v =
     (case fn of
        WriteNone \<Rightarrow> writeNone b offset v
      | WriteValue \<Rightarrow> writeValue b offset v
      | WriteValueDirty \<Rightarrow> writeValueDirty b offset v
      | WriteDataTrap \<Rightarrow> Inl RangeError)"

definition call_readPair :: "readpair_fn \<Rightarrow> memory \<Rightarrow> nat \<Rightarrow> js_error + int" where
  "call_readPair fn b offset =
     (case fn of
        ReadNonePair \<Rightarrow> readNonePair b offset
      | ReadValuePair \<Rightarrow> readValuePair b offset
      | ReadValuePairBE \<Rightarrow> readValuePairBE b offset
      | ReadValuePairLE \<Rightarrow> readValuePairLE b offset
      | ReadValuePair16 \<Rightarrow> readValuePair16 b offset
      | ReadValuePair16SE \<Rightarrow> readValuePair16SE b offset
      | ReadPairTrap \<Rightarrow> Inl RangeError)"

definition call_writePair ::
  "writepair_fn \<Rightarrow> memory \<Rightarrow> nat \<Rightarrow> int \<Rightarrow> js_error + memory" where
  "call_writePair fn b offset v =
     (case fn of
        WritePairNone \<Rightarrow> writeNone b offset v
      | WriteValuePair \<Rightarrow> writeValuePair b offset v
      | WriteValuePairBE \<Rightarrow> writeValuePairBE b offset v
      | WriteValuePairLE \<Rightarrow> writeValuePairLE b offset v
      | WriteValuePair16 \<Rightarrow> writeValuePair16 b offset v
      | WriteValuePair16SE \<Rightarrow> writeValuePair16SE b offset v
      | WriteValuePairDirty \<Rightarrow> writeValuePairDirty b offset v
      | WritePairTrap \<Rightarrow> Inl RangeError)"

text \<open>The call of a trap callback: it is recorded with what it is given and can see.\<close>

definition call_trap :: "nat \<Rightarrow> memory \<Rightarrow> nat \<Rightarrow> int \<Rightarrow> memory" where
  "call_trap func b offset v =
     b\<lparr>calls := calls b @ [TrapCall func (addr b) offset v (values_blk b) (fDirty b)]\<rparr>"

text \<open>
  The closures installed by \<open>trapRead\<close>: read through the saved original, then call
  the trap with the value read (for a pair: twice, with the offset and the next one).
\<close>

definition readDataTrap :: "memory \<Rightarrow> nat \<Rightarrow> js_error + (int \<times> memory)" where
  "readDataTrap b offset =
     (case readDataOrig b of None \<Rightarrow> Inl TypeError | Some fn \<Rightarrow>
      (case call_read fn b offset of Inl e \<Rightarrow> Inl e | Inr v \<Rightarrow>
       (case readTrap b of None \<Rightarrow> Inl TypeError | Some func \<Rightarrow>
          Inr (v, call_trap func b offset v))))"

definition readPairTrap :: "memory \<Rightarrow> nat \<Rightarrow> js_error + (int \<times> memory)" where
  "readPairTrap b offset =
     (case readPairOrig b of None \<Rightarrow> Inl TypeError | Some fn \<Rightarrow>
      (case call_readPair fn b offset of Inl e \<Rightarrow> Inl e | Inr v \<Rightarrow>
       (case readTrap b of None \<Rightarrow> Inl TypeError | Some func \<Rightarrow>
          Inr (v, call_trap func (call_trap func b offset v) (offset + 1) v))))"

text \<open>
  The closures installed by \<open>trapWrite\<close>: call the trap with the value to be written
  (for a pair: twice), then write through the saved original.
\<close>

definition writeDataTrap :: "memory \<Rightarrow> nat \<Rightarrow> int \<Rightarrow> js_error + memory" where
  "writeDataTrap b offset v =
     (case writeTrap b of None \<Rightarrow> Inl TypeError | Some func \<Rightarrow>
      (let b1 = call_trap func b offset v in
       case writeDataOrig b1 of None \<Rightarrow> Inl TypeError | Some fn \<Rightarrow>
         call_write fn b1 offset v))"

definition writePairTrap :: "memory \<Rightarrow> nat \<Rightarrow> int \<Rightarrow> js_error + memory" where
  "writePairTrap b offset v =
     (case writeTrap b of None \<Rightarrow> Inl TypeError | Some func \<Rightarrow>
      (let b1 = call_trap func (call_trap func b offset v) (offset + 1) v in
       case writePairOrig b1 of None \<Rightarrow> Inl TypeError | Some fn \<Rightarrow>
         call_writePair fn b1 offset v))"

text \<open>
  \<open>block.readData(offset)\<close> and its siblings: call whatever the property is bound to.
  A read gives the value and the block (a trapped read records its callback).
\<close>

definition callReadData :: "memory \<Rightarrow> nat \<Rightarrow> js_error + (int \<times> memory)" where
  "callReadData b offset =
     (case readData b of
        None \<Rightarrow> Inl TypeError
      | Some ReadDataTrap \<Rightarrow> readDataTrap b offset
      | Some fn \<Rightarrow> (case call_read fn b offset of Inl e \<Rightarrow> Inl e | Inr v \<Rightarrow> Inr (v, b)))"

definition callWriteData :: "memory \<Rightarrow> nat \<Rightarrow> int \<Rightarrow> js_error + memory" where
  "callWriteData b offset v =
     (case writeData b of
        None \<Rightarrow> Inl TypeError
      | Some WriteDataTrap \<Rightarrow> writeDataTrap b offset v
      | Some fn \<Rightarrow> call_write fn b offset v)"

definition callReadPair :: "memory \<Rightarrow> nat \<Rightarrow> js_error + (int \<times> memory)" where
  "callReadPair b offset =
     (case readPair b of
        None \<Rightarrow> Inl TypeError
      | Some ReadPairTrap \<Rightarrow> readPairTrap b offset
      | Some fn \<Rightarrow> (case call_readPair fn b offset of Inl e \<Rightarrow> Inl e | Inr v \<Rightarrow> Inr (v, b)))"

definition callWritePair :: "memory \<Rightarrow> nat \<Rightarrow> int \<Rightarrow> js_error + memory" where
  "callWritePair b offset v =
     (case writePair b of
        None \<Rightarrow> Inl TypeError
      | Some WritePairTrap \<Rightarrow> writePairTrap b offset v
      | Some fn \<Rightarrow> call_writePair fn b offset v)"

subsection \<open>Dirty query and traps\<close>

text \<open>
  \<open>isDirty()\<close> returns the flag, clears it, and rebinds the write accessors (or their
  saved originals) to the methods that mark the block dirty.
\<close>

definition isDirty :: "memory \<Rightarrow> bool \<times> memory" where
  "isDirty b =
     (if fDirty b then
        (let b1 = b\<lparr>fDirty := False\<rparr>
         in if nWriteTraps b1 = 0
            then (True, b1\<lparr>writeData := Some WriteValueDirty,
                            writePair := Some WriteValuePairDirty\<rparr>)
            else (True, b1\<lparr>writeDataOrig := Some WriteValueDirty,
                            writePairOrig := Some WriteValuePairDirty\<rparr>))
      else (False, b))"

definition trapRead :: "memory \<Rightarrow> nat \<Rightarrow> bool \<times> memory" where
  "trapRead b func =
     (if nReadTraps b = 0 then
        (True, b\<lparr>nReadTraps := nReadTraps b + 1, readTrap := Some func,
                  readDataOrig := readData b, readPairOrig := readPair b,
                  readData := Some ReadDataTrap, readPair := Some ReadPairTrap\<rparr>)
      else if readTrap b = Some func then (True, b\<lparr>nReadTraps := nReadTraps b + 1\<rparr>)
      else (False, b))"

definition trapWrite :: "memory \<Rightarrow> nat \<Rightarrow> bool \<times> memory" where
  "trapWrite b func =
     (if nWriteTraps b = 0 then
        (True, b\<lparr>nWriteTraps := nWriteTraps b + 1, writeTrap := Some func,
                  writeDataOrig := writeData b, writePairOrig := writePair b,
                  writeData := Some WriteDataTrap, writePair := Some WritePairTrap\<rparr>)
      else if writeTrap b = Some func then (True, b\<lparr>nWriteTraps := nWriteTraps b + 1\<rparr>)
      else (False, b))"

definition untrapRead :: "memory \<Rightarrow> nat \<Rightarrow> bool \<times> memory" where
  "untrapRead b func =
     (if nReadTraps b \<noteq> 0 \<and> readTrap b = Some func then
        (let b1 = b\<lparr>nReadTraps := nReadTraps b - 1\<rparr>
         in if nReadTraps b1 = 0
            then (True, b1\<lparr>readData := readDataOrig b1, readPair := readPairOrig b1,
                            readDataOrig := None, readPairOrig := None, readTrap := None\<rparr>)
            else (True, b1))
      else (False, b))"

definition untrapWrite :: "memory \<Rightarrow> nat \<Rightarrow> bool \<times> memory" where
  "untrapWrite b func =
     (if nWriteTraps b \<noteq> 0 \<and> writeTrap b = Some func then
        (let b1 = b\<lparr>nWriteTraps := nWriteTraps b - 1\<rparr>
         in if nWriteTraps b1 = 0
            then (True, b1\<lparr>writeData := writeDataOrig b1, writePair := writePairOrig b1,
                            writeDataOrig := None, writePairOrig := None, writeTrap := None\<rparr>)
            else (True, b1))
      else (False, b))"

subsection \<open>The states a block can be in\<close>

text \<open>
  A configuration is well formed when the values it gives, if any, are as many as the
  block's size, as \<open>Bus.addBlocks\<close> checks for the blocks it cuts from a larger one.
\<close>

definition wf_config :: "memory_config \<Rightarrow> bool" where
  "wf_config config =
     (case cfg_values config of None \<Rightarrow> True | Some vals \<Rightarrow> length vals = cfg_size config)"

text \<open>
  The states of a block: those the constructor gives for a well-formed configuration,
  and those that the block's operations lead to from there.
\<close>

inductive reachable :: "memory \<Rightarrow> bool" where
  r_new: "wf_config config \<Longrightarrow>
          reachable (Memory_new hostLE arrayBuffer busType busDataWidth busLittleEndian config)"
| r_read: "reachable b \<Longrightarrow> callReadData b offset = Inr (v, b') \<Longrightarrow> reachable b'"
| r_write: "reachable b \<Longrightarrow> callWriteData b offset v = Inr b' \<Longrightarrow> reachable b'"
| r_readPair: "reachable b \<Longrightarrow> callReadPair b offset = Inr (v, b') \<Longrightarrow> reachable b'"
| r_writePair: "reachable b \<Longrightarrow> callWritePair b offset v = Inr b' \<Longrightarrow> reachable b'"
| r_isDirty: "reachable b \<Longrightarrow> reachable (snd (isDirty b))"
| r_onReset: "reachable b \<Longrightarrow> reachable (onReset b)"
| r_trapRead: "reachable b \<Longrightarrow> reachable (snd (trapRead b func))"
| r_trapWrite: "reachable b \<Longrightarrow> reachable (snd (trapWrite b func))"
| r_untrapRead: "reachable b \<Longrightarrow> reachable (snd (untrapRead b func))"
| r_untrapWrite: "reachable b \<Longrightarrow> reachable (snd (untrapWrite b func))"

subsection \<open>Invariants of a block\<close>

text \<open>
  The method bound underneath a trap: the accessor itself while no trap is installed,
  the saved original otherwise. The four predicates below say what holds of every block
  state: the storage has the block's size; an accessor is a trap closure exactly while
  the trap count is not zero; the methods underneath fit the block's type; and the dirty
  flag agrees with the write method (a static bus marks the first write and then writes
  plainly, a dynamic bus never marks). \<open>set_base_write\<close> rebinds the method
  underneath; \<open>stored\<close> is the value a store keeps; \<open>only_values\<close> relates two blocks
  that differ in the stored values only; \<open>dirty_target\<close> is the pair method that
  \<open>writeValuePairDirty\<close> selects.
\<close>

definition base_read :: "memory \<Rightarrow> read_fn option" where
  "base_read b = (if nReadTraps b = 0 then readData b else readDataOrig b)"

definition base_write :: "memory \<Rightarrow> write_fn option" where
  "base_write b = (if nWriteTraps b = 0 then writeData b else writeDataOrig b)"

definition base_readPair :: "memory \<Rightarrow> readpair_fn option" where
  "base_readPair b = (if nReadTraps b = 0 then readPair b else readPairOrig b)"

definition base_writePair :: "memory \<Rightarrow> writepair_fn option" where
  "base_writePair b = (if nWriteTraps b = 0 then writePair b else writePairOrig b)"

definition shape_ok :: "memory \<Rightarrow> bool" where
  "shape_ok b \<longleftrightarrow>
     length (values_blk b) = size_blk b \<and> dataLimit b = 2 ^ dataWidth b - 1
     \<and> (buffer b \<longrightarrow> dataWidth b = 8)"

definition traps_ok :: "memory \<Rightarrow> bool" where
  "traps_ok b \<longleftrightarrow>
     (readData b = Some ReadDataTrap \<longleftrightarrow> nReadTraps b \<noteq> 0)
     \<and> (readPair b = Some ReadPairTrap \<longleftrightarrow> nReadTraps b \<noteq> 0)
     \<and> (nReadTraps b \<noteq> 0 \<longrightarrow> readTrap b \<noteq> None)
     \<and> (writeData b = Some WriteDataTrap \<longleftrightarrow> nWriteTraps b \<noteq> 0)
     \<and> (writePair b = Some WritePairTrap \<longleftrightarrow> nWriteTraps b \<noteq> 0)
     \<and> (nWriteTraps b \<noteq> 0 \<longrightarrow> writeTrap b \<noteq> None)"

definition types_ok :: "memory \<Rightarrow> bool" where
  "types_ok b \<longleftrightarrow>
     base_read b = Some (if type b = NONE then ReadNone else ReadValue)
     \<and> (type b \<noteq> READWRITE \<longrightarrow> base_write b = Some WriteNone)
     \<and> (type b = READWRITE \<longrightarrow>
          base_write b = Some WriteValue \<or> base_write b = Some WriteValueDirty)
     \<and> (type b = NONE \<longrightarrow> base_readPair b = Some ReadNonePair)
     \<and> (type b \<noteq> NONE \<longrightarrow>
          base_readPair b \<noteq> None \<and> base_readPair b \<noteq> Some ReadNonePair
          \<and> base_readPair b \<noteq> Some ReadPairTrap)
     \<and> (type b \<noteq> READWRITE \<longrightarrow> base_writePair b = Some WritePairNone)
     \<and> (type b = READWRITE \<longrightarrow>
          base_writePair b \<noteq> None \<and> base_writePair b \<noteq> Some WritePairNone
          \<and> base_writePair b \<noteq> Some WritePairTrap)"

definition dirty_ok :: "memory \<Rightarrow> bool" where
  "dirty_ok b \<longleftrightarrow>
     (fDirty b \<longrightarrow> type b = READWRITE \<and> bus b = STATIC)
     \<and> (bus b = STATIC \<longrightarrow> base_write b = Some WriteValue \<longrightarrow> fDirty b)
     \<and> (bus b = DYNAMIC \<longrightarrow> base_write b \<noteq> Some WriteValueDirty)"

definition block_ok :: "memory \<Rightarrow> bool" where
  "block_ok b \<longleftrightarrow> shape_ok b \<and> traps_ok b \<and> types_ok b \<and> dirty_ok b"

definition set_base_write :: "memory \<Rightarrow> write_fn option \<Rightarrow> memory" where
  "set_base_write b fn =
     (if nWriteTraps b = 0 then b\<lparr>writeData := fn\<rparr> else b\<lparr>writeDataOrig := fn\<rparr>)"

definition set_base_writePair :: "memory \<Rightarrow> writepair_fn option \<Rightarrow> memory" where
  "set_base_writePair b fn =
     (if nWriteTraps b = 0 then b\<lparr>writePair := fn\<rparr> else b\<lparr>writePairOrig := fn\<rparr>)"

definition stored :: "memory \<Rightarrow> int \<Rightarrow> int" where
  "stored b v = (if buffer b then v mod 256 else v)"

definition only_values :: "memory \<Rightarrow> memory \<Rightarrow> bool" where
  "only_values b b' \<longleftrightarrow>
     b' = b\<lparr>values_blk := values_blk b'\<rparr> \<and> length (values_blk b') = length (values_blk b)"

definition dirty_target :: "memory \<Rightarrow> writepair_fn" where
  "dirty_target b =
     (if \<not> buffer b then (if littleEndian b then WriteValuePairLE else WriteValuePairBE)
      else (if littleEndian b = LITTLE_ENDIAN b then WriteValuePair16 else WriteValuePair16SE))"

section \<open>Bus: the address space and its block slots\<close>

definition to_int32 :: "int \<Rightarrow> int" where
  "to_int32 x = sint (word_of_int x :: 32 word)"

text \<open>\<open>Math.log2(n)|0\<close> for a positive whole number: the position of its highest bit.\<close>

function log2_floor :: "nat \<Rightarrow> nat" where
  "log2_floor n = (if n < 2 then 0 else 1 + log2_floor (n div 2))"
  by pat_completeness auto
termination
  by (relation "measure id") auto

declare log2_floor.simps [simp del]

text \<open>
  The bus. Of its properties the model keeps the geometry, the byte order, the block
  slots and the trap counter; \<open>blocks\<close> may hold empty slots (\<open>None\<close>) only while the
  constructor runs. \<open>machine_ArrayBuffer\<close> and \<open>host_LITTLE_ENDIAN\<close> are the machine
  setting and the host constant that the \<open>Memory\<close> constructor consults. The bus's own
  accessor properties (\<open>readData\<close>, \<open>writeData\<close>, \<open>readPair\<close>, \<open>writePair\<close>) are always
  bound to the block-delegating methods and are not kept.
\<close>

record Bus =
  type_bus :: bus_type
  addrWidth :: nat
  addrTotal :: nat
  addrLimit :: int
  blockSize :: nat
  blockTotal :: int
  blockShift :: nat
  blockLimit :: int
  dataWidth_bus :: nat
  dataLimit_bus :: int
  littleEndian_bus :: bool
  blocks :: "memory option list"
  nTraps :: int
  machine_ArrayBuffer :: bool
  host_LITTLE_ENDIAN :: bool

text \<open>
  \<open>new Memory(...)\<close> as the bus calls it: the block takes the bus's type, data width
  and byte order.
\<close>

definition new_block :: "Bus \<Rightarrow> memory_config \<Rightarrow> memory" where
  "new_block this config =
     Memory_new (host_LITTLE_ENDIAN this) (machine_ArrayBuffer this) (type_bus this)
       (dataWidth_bus this) (littleEndian_bus this) config"

text \<open>
  The loop of \<open>addBlocks(addr, size, type, block)\<close>, one slot per iteration. It returns
  false at the first slot that does not start on a block boundary, or would hold less
  than a whole block, or is taken by a block whose type is not NONE, or for which a given
  block of another size has too few values; the slots written before stay written.
  \<open>>>>\<close> converts its left operand to an unsigned 32-bit number and uses the low five
  bits of the shift count.
\<close>

function addBlocks_loop ::
  "Bus \<Rightarrow> mem_type \<Rightarrow> memory option \<Rightarrow> int \<Rightarrow> int \<Rightarrow> nat \<Rightarrow> nat \<Rightarrow> bool \<times> Bus" where
  "addBlocks_loop this ty block addrNext sizeLeft offset iBlock =
     (if sizeLeft > 0 \<and> iBlock < length (blocks this) then
        (let addrBlock = int iBlock * int (blockSize this);
             sizeBlock0 = int (blockSize this) - (addrNext - addrBlock);
             sizeBlock = (if sizeBlock0 > sizeLeft then sizeLeft else sizeBlock0);
             blockExisting = blocks this ! iBlock
         in if addrNext \<noteq> addrBlock \<or> sizeBlock \<noteq> int (blockSize this) then (False, this)
            else if (case blockExisting of None \<Rightarrow> False | Some e \<Rightarrow> type e \<noteq> NONE)
            then (False, this)
            else
              (case (case block of
                       None \<Rightarrow>
                         Some (new_block this
                           \<lparr>cfg_addr = Some addrNext, cfg_size = nat sizeBlock,
                            cfg_type = Some ty, cfg_values = None\<rparr>)
                     | Some blk \<Rightarrow>
                         if size_blk blk = blockSize this then Some blk
                         else
                           (let vals = take (nat sizeBlock) (drop offset (values_blk blk))
                            in if int (length vals) \<noteq> sizeBlock then None
                               else Some (new_block this
                                 \<lparr>cfg_addr = Some addrNext, cfg_size = nat sizeBlock,
                                  cfg_type = Some ty, cfg_values = Some vals\<rparr>))) of
                 None \<Rightarrow> (False, this)
               | Some blockNew \<Rightarrow>
                   addBlocks_loop (this\<lparr>blocks := (blocks this)[iBlock := Some blockNew]\<rparr>)
                     ty block (addrBlock + int (blockSize this)) (sizeLeft - sizeBlock)
                     (offset + nat sizeBlock) (iBlock + 1)))
      else (True, this))"
  by pat_completeness auto
termination
  by (relation "measure (\<lambda>(this, ty, block, addrNext, sizeLeft, offset, iBlock).
        length (blocks this) - iBlock)") auto

declare addBlocks_loop.simps [simp del]

definition addBlocks :: "Bus \<Rightarrow> nat \<Rightarrow> int \<Rightarrow> mem_type \<Rightarrow> memory option \<Rightarrow> bool \<times> Bus" where
  "addBlocks this address sz ty block =
     addBlocks_loop this ty block (int address) sz 0
       ((address mod 2 ^ 32) div 2 ^ (blockShift this mod 32))"

text \<open>
  \<open>selectInterface(nDelta)\<close> adds to the trap counter; the rebinding of the bus's own
  accessors (always to the same methods) is not modelled.
\<close>

definition selectInterface :: "Bus \<Rightarrow> int \<Rightarrow> Bus" where
  "selectInterface this nDelta = this\<lparr>nTraps := nTraps this + nDelta\<rparr>"

text \<open>
  The configuration of a bus: absent or zero numbers fall back to the defaults (the
  source writes \<open>config['addrWidth'] || 16\<close>).
\<close>

record bus_config =
  bcfg_type :: string
  bcfg_addrWidth :: "nat option"
  bcfg_dataWidth :: "nat option"
  bcfg_blockSize :: "nat option"
  bcfg_littleEndian :: "bool option"

definition or_default :: "nat option \<Rightarrow> nat \<Rightarrow> nat" where
  "or_default x d = (case x of None \<Rightarrow> d | Some n \<Rightarrow> if n = 0 then d else n)"

text \<open>
  The constructor's loop fills every slot with the one placeholder block:
  \<open>for (addr = 0; addr < addrTotal; addr += blockSize) addBlocks(addr, blockSize, NONE,
  block)\<close>. \<open>addBlocks\<close> changes neither \<open>addrTotal\<close> nor \<open>blockSize\<close>, so the loop
  takes them as arguments. The block size is never zero there; the test on it only makes
  the recursion well founded.
\<close>

function fill_slots :: "Bus \<Rightarrow> memory \<Rightarrow> nat \<Rightarrow> nat \<Rightarrow> nat \<Rightarrow> Bus" where
  "fill_slots this block address atotal bsize =
     (if address < atotal \<and> 0 < bsize
      then fill_slots (snd (addBlocks this address (int bsize) NONE (Some block)))
             block (address + bsize) atotal bsize
      else this)"
  by pat_completeness auto
termination
  by (relation "measure (\<lambda>(this, block, address, atotal, bsize). atotal - address)") auto

declare fill_slots.simps [simp del]

text \<open>
  The constructor. \<open>new Array(blockTotal)\<close> throws a RangeError for a negative length.
  The placeholder block of type NONE is built once and put into every slot.
\<close>

definition Bus_new :: "bool \<Rightarrow> bool \<Rightarrow> bus_config \<Rightarrow> js_error + Bus" where
  "Bus_new hostLE arrayBuffer config =
     (let ty = (if bcfg_type config = ''static'' then STATIC else DYNAMIC);
          aw = or_default (bcfg_addrWidth config) 16;
          atotal = 2 ^ aw;
          bs0 = or_default (bcfg_blockSize config) (if aw > 16 then 4096 else 1024);
          bs = (if bs0 > atotal then atotal else bs0);
          bt = to_int32 (int (atotal div bs));
          shift = log2_floor bs;
          dw = or_default (bcfg_dataWidth config) 8
      in if bt < 0 then Inl RangeError
         else
           (let this0 = \<lparr> type_bus = ty, addrWidth = aw, addrTotal = atotal,
                          addrLimit = to_int32 (int atotal - 1), blockSize = bs,
                          blockTotal = bt, blockShift = shift,
                          blockLimit = js_shl 1 shift - 1,
                          dataWidth_bus = dw, dataLimit_bus = 2 ^ dw - 1,
                          littleEndian_bus = (bcfg_littleEndian config \<noteq> Some False),
                          blocks = replicate (nat bt) None, nTraps = 0,
                          machine_ArrayBuffer = arrayBuffer, host_LITTLE_ENDIAN = hostLE \<rparr>;
                 block = new_block this0
                           \<lparr>cfg_addr = None, cfg_size = bs, cfg_type = None, cfg_values = None\<rparr>;
                 this1 = fill_slots this0 block 0 atotal bs
            in Inr (selectInterface this1 (case ty of STATIC \<Rightarrow> 0 | DYNAMIC \<Rightarrow> 1))))"

subsection \<open>When a registration fails\<close>

text \<open>
  The words of the specification, for a call without a block of the caller's. A slot is
  \<open>occupied\<close> when it holds a block whose type is not NONE. The \<open>j\<close>-th slot of a run
  that starts at slot \<open>k\<close> fails (\<open>slot_fails\<close>) when it exists, something of the
  request is left for it, and either what is left is less than a whole block or the slot
  is occupied. A request fails (\<open>addBlocks_fails\<close>) when its size is positive, its first
  slot exists, and the address is not aligned or some slot of the run fails.
  \<open>slot_block\<close> is the block that a successful step writes into slot \<open>i\<close>.
  \<open>default_bus\<close> is the bus that the constructor builds from a configuration without
  numbers (16 address bits, blocks of 1024 units, every slot holding the one placeholder
  block), used in the examples.
\<close>

definition occupied :: "memory option \<Rightarrow> bool" where
  "occupied slot = (case slot of None \<Rightarrow> False | Some e \<Rightarrow> type e \<noteq> NONE)"

definition slot_fails :: "Bus \<Rightarrow> int \<Rightarrow> nat \<Rightarrow> nat \<Rightarrow> bool" where
  "slot_fails this sz k j \<longleftrightarrow>
     k + j < length (blocks this) \<and> int (j * blockSize this) < sz
     \<and> (sz - int (j * blockSize this) < int (blockSize this)
        \<or> occupied (blocks this ! (k + j)))"

definition addBlocks_fails :: "Bus \<Rightarrow> nat \<Rightarrow> int \<Rightarrow> bool" where
  "addBlocks_fails this address sz \<longleftrightarrow>
     (let k = address div blockSize this
      in 0 < sz \<and> k < length (blocks this)
         \<and> (address mod blockSize this \<noteq> 0
            \<or> list_ex (slot_fails this sz k) [0..<length (blocks this)]))"

definition slot_block :: "Bus \<Rightarrow> mem_type \<Rightarrow> nat \<Rightarrow> memory" where
  "slot_block this ty i =
     new_block this \<lparr>cfg_addr = Some (int i * int (blockSize this)),
                     cfg_size = blockSize this, cfg_type = Some ty, cfg_values = None\<rparr>"

definition default_bus_config :: bus_config where
  "default_bus_config =
     \<lparr>bcfg_type = ''dynamic'', bcfg_addrWidth = None, bcfg_dataWidth = None,
       bcfg_blockSize = None, bcfg_littleEndian = None\<rparr>"

definition placeholder_block :: memory where
  "placeholder_block = Memory_new True True DYNAMIC 8 True
      \<lparr>cfg_addr = None, cfg_size = 1024, cfg_type = None, cfg_values = None\<rparr>"

definition default_bus :: Bus where
  "default_bus =
     \<lparr> type_bus = DYNAMIC, addrWidth = 16, addrTotal = 65536, addrLimit = 65535,
       blockSize = 1024, blockTotal = 64, blockShift = 10, blockLimit = 1023,
       dataWidth_bus = 8, dataLimit_bus = 255, littleEndian_bus = True,
       blocks = replicate 64 (Some placeholder_block), nTraps = 1,
       machine_ArrayBuffer = True, host_LITTLE_ENDIAN = True \<rparr>"

section \<open>Time: timers, bursts and the run, step and stop transitions\<close>

subsection \<open>Doubles\<close>

text \<open>
  The fractions of the scheduler are doubles, and every arithmetic operation of the
  source on them rounds its exact result to the nearest double, a tie going to the even
  significand. For a positive \<open>a\<close>, \<open>exponent_of a\<close> is the \<open>e\<close> with
  \<open>2 powi e \<le> a\<close> and \<open>a < 2 powi (e + 1)\<close>, found from the bit lengths of numerator
  and denominator. \<open>to_double\<close> rounds to 53 significant bits, or to a multiple of
  \<open>2 powi (- 1074)\<close> below the normal range. Numbers too large for a double are not
  modelled.
\<close>

fun bit_length :: "nat \<Rightarrow> nat" where
  "bit_length n = (if n = 0 then 0 else Suc (bit_length (n div 2)))"

declare bit_length.simps [simp del]

definition exponent_of :: "rat \<Rightarrow> int" where
  "exponent_of a =
     (let (p, q) = quotient_of a;
          d = int (bit_length (nat p)) - int (bit_length (nat q))
      in if 2 powi d \<le> a then d else d - 1)"

definition round_even :: "rat \<Rightarrow> int" where
  "round_even y =
     (let f = \<lfloor>y\<rfloor>; r = y - of_int f
      in if r < 1 / 2 then f else if r > 1 / 2 then f + 1
         else if even f then f else f + 1)"

definition to_double :: "rat \<Rightarrow> rat" where
  "to_double x =
     (if x = 0 then 0
      else (let a = \<bar>x\<bar>;
                u = 2 powi (max (exponent_of a) (- 1022) - 52)
            in sgn x * of_int (round_even (a / u)) * u))"

subsection \<open>The device and its surroundings\<close>

text \<open>
  A timer callback is the scheduler's own \<open>onYield\<close> (which calls \<open>yield()\<close>) or a
  function of another device, known by an identifier. What such a function does to the
  scheduler is to call \<open>setTimer\<close>, as the key and release timers of the input device
  do; each call is given by the timer's index, the milliseconds and the reset flag.
\<close>

datatype callback = OnYield | External nat

text \<open>
  A timer: \<open>nCyclesLeft\<close> is negative while the timer is dormant; \<open>msAuto\<close> is negative
  for a timer without an automatic period.
\<close>

record timer =
  id_timer :: string
  callBack :: callback
  msAuto :: rat
  nCyclesLeft :: int

text \<open>
  What a clocked device answers to \<open>startClock(nCycles)\<close>: a number of cycles, or an
  exception with its message.
\<close>

datatype clock_result = Returns int | Throws string

text \<open>
  What the scheduler does to the world outside it, in order: lines printed, timer
  callbacks called (with the timer's index, its callback and its countdown at the time
  of the call), \<open>stopClock()\<close> and \<open>onUpdate()\<close> calls to devices, and animation
  functions called.
\<close>

datatype event =
  PrintStarted | PrintStopped | PrintError string | PrintWarning
  | TimerCall nat callback int | StopClock nat | OnUpdate nat bool | Animation nat

text \<open>
  The scheduler. Cycle counts are whole numbers; multipliers, megahertz, milliseconds and
  the cycle deposit are fractions. The three host handles \<open>idRunTimeout\<close>,
  \<open>idStepTimeout\<close> and \<open>idAnimation\<close> are kept as flags (a handle is zero or not).
  The surroundings are part of the state: \<open>clock_answers d n c\<close> is what device \<open>d\<close>
  answers to the \<open>n\<close>-th \<open>startClock\<close> call of the run of the machine when asked for
  \<open>c\<close> cycles, \<open>timer_acts k n\<close> are the \<open>setTimer\<close> calls that callback \<open>k\<close> makes
  when it is called as the \<open>n\<close>-th timer callback of the run of the machine,
  \<open>date_now n\<close> is the \<open>n\<close>-th reading of \<open>Date.now()\<close>, \<open>throttle\<close> is
  the value, minimum and maximum of the throttle slider if one is bound, and \<open>printed\<close>
  is the list of events so far. Texts set on page elements are not modelled, and neither
  is a division by zero, which the source answers with \<open>Infinity\<close> or \<open>NaN\<close>.
\<close>

record time =
  nCyclesMinimum :: rat
  nCyclesMaximum :: rat
  nCyclesPerSecond :: rat
  nYieldsPerSecond :: rat
  nYieldsPerUpdate :: rat
  fClockByFrame :: bool
  fRequestAnimationFrame :: bool
  nBaseMultiplier :: rat
  nCurrentMultiplier :: rat
  nTargetMultiplier :: rat
  mhzBase :: rat
  mhzCurrent :: rat
  mhzTarget :: rat
  nYields :: rat
  msYield :: rat
  aAnimations :: "nat list"
  aClocks :: "nat list"
  aTimers :: "timer list"
  aUpdates :: "nat list"
  fPowered :: bool
  fRunning :: bool
  fYield :: bool
  fThrottling :: bool
  nStepping :: int
  idRunTimeout :: bool
  idStepTimeout :: bool
  idAnimation :: bool
  nCyclesLife :: int
  nCyclesRun :: int
  nCyclesThisRun :: int
  nCyclesBurst :: int
  nCyclesRemain :: int
  nCyclesDeposited :: rat
  nCyclesDepositPerFrame :: rat
  nCyclesPerYield :: rat
  msStartRun :: rat
  msEndRun :: rat
  msStartThisRun :: rat
  msOutsideThisRun :: rat
  clock_answers :: "nat \<Rightarrow> nat \<Rightarrow> int \<Rightarrow> clock_result"
  nClockCalls :: nat
  timer_acts :: "nat \<Rightarrow> nat \<Rightarrow> (nat \<times> rat \<times> bool) list"
  nTimerCalls :: nat
  date_now :: "nat \<Rightarrow> rat"
  nDateReads :: nat
  throttle :: "(rat \<times> rat \<times> rat) option"
  printed :: "event list"

text \<open>
  The result of a function that may throw and may loop: \<open>None\<close> when the fuel given to
  its loops runs out, otherwise the exception's message or the returned value, each with
  the state reached.
\<close>

type_synonym 'a result = "(string \<times> time + 'a \<times> time) option"

definition println :: "event \<Rightarrow> time \<Rightarrow> time" where
  "println e s = s\<lparr>printed := printed s @ [e]\<rparr>"

definition Date_now :: "time \<Rightarrow> rat \<times> time" where
  "Date_now s = (date_now s (nDateReads s), s\<lparr>nDateReads := nDateReads s + 1\<rparr>)"

subsection \<open>Cycles per period, speed\<close>

definition getCyclesPerMS :: "time \<Rightarrow> rat \<Rightarrow> int" where
  "getCyclesPerMS s ms =
     \<lceil>to_double (to_double (to_double (nCyclesPerSecond s * nCurrentMultiplier s) / 1000) * ms)\<rceil>"

definition calcCycles :: "time \<Rightarrow> time" where
  "calcCycles s =
     (let nMultiplier0 = to_double (mhzCurrent s / mhzBase s);
          nMultiplier = (if nMultiplier0 = 0 \<or> nMultiplier0 > nTargetMultiplier s
                         then nTargetMultiplier s else nMultiplier0)
      in s\<lparr>nCyclesPerYield :=
              to_double (to_double (nCyclesPerSecond s / nYieldsPerSecond s) * nMultiplier),
            nCurrentMultiplier := nMultiplier\<rparr>)"

definition calcSpeed :: "int \<Rightarrow> rat \<Rightarrow> time \<Rightarrow> time" where
  "calcSpeed nCycles msElapsed s =
     (if msElapsed \<noteq> 0
      then s\<lparr>mhzCurrent :=
               to_double (to_double (of_int nCycles / to_double (msElapsed * 10)) / 100)\<rparr>
      else s)"

subsection \<open>Updates and yields\<close>

text \<open>
  \<open>update(fTransition)\<close>: the argument is true, false or absent. A transition prints
  ``started'' or ``stopped''; every registered device is told whether the argument was
  given.
\<close>

definition update :: "bool option \<Rightarrow> time \<Rightarrow> time" where
  "update fTransition s =
     (let s1 = (if fTransition = Some True
                then println (if fRunning s then PrintStarted else PrintStopped) s else s)
      in s1\<lparr>printed := printed s1 @ map (\<lambda>d. OnUpdate d (fTransition \<noteq> None)) (aUpdates s1)\<rparr>)"

text \<open>
  \<open>yield()\<close>. When no cycles per second are left the source adds \<open>Infinity\<close> to the
  yield count, which triggers the update and resets the count.
\<close>

definition yield :: "time \<Rightarrow> time" where
  "yield s =
     (let s1 = s\<lparr>fYield := True\<rparr>;
          nYields0 = nYields s1;
          cps = of_int (getCyclesPerMS s1 1000) :: rat
      in if cps \<ge> nYieldsPerSecond s1 \<or> cps \<noteq> 0 then
           (let s2 = s1\<lparr>nYields :=
                        (if cps \<ge> nYieldsPerSecond s1 then to_double (nYields s1 + 1)
                         else to_double (nYields s1
                                + of_int \<lceil>to_double (nYieldsPerSecond s1 / cps)\<rceil>))\<rparr>;
                s3 = (if nYields s2 \<ge> nYieldsPerUpdate s2 \<and> nYields0 < nYieldsPerUpdate s2
                      then update None s2 else s2)
            in if nYields s3 \<ge> nYieldsPerSecond s3 then s3\<lparr>nYields := 0\<rparr> else s3)
         else
           (let s3 = (if nYields0 < nYieldsPerUpdate s1 then update None s1 else s1)
            in s3\<lparr>nYields := 0\<rparr>))"

subsection \<open>Bursts\<close>

text \<open>
  \<open>endBurst(nCycles)\<close>; without an argument the cycles are those the burst has used so
  far. When clocking by frame and stopped, a non-zero deposit makes every clocked device
  stop its clock.
\<close>

definition endBurst :: "int option \<Rightarrow> time \<Rightarrow> int \<times> time" where
  "endBurst arg s =
     (let nCycles = (case arg of Some n \<Rightarrow> n | None \<Rightarrow> nCyclesBurst s - nCyclesRemain s);
          s1 = (if fClockByFrame s then
                  (let sa = (if \<not> fRunning s then
                               (let sb = (if nCyclesDeposited s \<noteq> 0
                                          then s\<lparr>printed := printed s @ map StopClock (aClocks s)\<rparr>
                                          else s)
                                in sb\<lparr>nCyclesDeposited := of_int nCycles\<rparr>)
                             else s);
                       sc = sa\<lparr>nCyclesDeposited :=
                                 to_double (nCyclesDeposited sa - of_int nCycles)\<rparr>
                   in if nCyclesDeposited sc < 1 then yield sc else sc)
                else s);
          s2 = s1\<lparr>nCyclesBurst := 0, nCyclesRemain := 0,
                   nCyclesThisRun := nCyclesThisRun s1 + nCycles,
                   nCyclesRun := nCyclesRun s1 + nCycles,
                   nCyclesLife := nCyclesLife s1 + nCycles\<rparr>;
          s3 = (if \<not> fRunning s2 then s2\<lparr>nCyclesRun := 0\<rparr> else s2)
      in (nCycles, s3))"

text \<open>
  The loop of \<open>doBurst\<close>: the clocked devices are called in turn, each asked for the
  number of cycles the one before it returned (a falsy answer counts as one cycle); after
  the last device the turn starts again with a request for zero cycles. A device that
  throws ends the loop with its message. The loop need not end, so it takes fuel.
\<close>

fun doBurst_loop :: "nat \<Rightarrow> nat \<Rightarrow> int \<Rightarrow> time \<Rightarrow> int result" where
  "doBurst_loop 0 iClock nCycles s = None"
| "doBurst_loop (Suc fuel) iClock nCycles s =
     (if nCyclesRemain s > 0 then
        (if iClock < length (aClocks s) then
           (case clock_answers s (aClocks s ! iClock) (nClockCalls s) nCycles of
              Throws msg \<Rightarrow> Some (Inl (msg, s\<lparr>nClockCalls := nClockCalls s + 1\<rparr>))
            | Returns r \<Rightarrow>
                (let n = (if r = 0 then 1 else r)
                 in doBurst_loop fuel (iClock + 1) n
                      (s\<lparr>nClockCalls := nClockCalls s + 1,
                         nCyclesRemain := nCyclesRemain s - n\<rparr>)))
         else doBurst_loop fuel 0 0 s)
      else Some (Inr (nCyclesBurst s - nCyclesRemain s, s)))"

definition doBurst :: "nat \<Rightarrow> int \<Rightarrow> time \<Rightarrow> int result" where
  "doBurst fuel nCycles s =
     (let s1 = s\<lparr>nCyclesBurst := nCycles, nCyclesRemain := nCycles\<rparr>
      in if aClocks s1 = [] then Some (Inr (nCyclesBurst s1, s1\<lparr>nCyclesRemain := 0\<rparr>))
         else doBurst_loop fuel 0 nCycles s1)"

subsection \<open>The cycle budget of a run\<close>

text \<open>\<open>x | 0\<close> on a fraction: truncate towards zero, then convert to 32 bits.\<close>

definition js_trunc32 :: "rat \<Rightarrow> int" where
  "js_trunc32 x = to_int32 (if x \<ge> 0 then \<lfloor>x\<rfloor> else \<lceil>x\<rceil>)"

text \<open>
  The budget before the timers are looked at, when no minimum is given: with
  \<open>fAnimation\<close> the whole part of the cycle deposit (topped up by one frame's deposit
  when below one cycle, and reset to zero with a warning when negative), otherwise the
  cycles of one yield period at the current multiplier.
\<close>

definition rate_budget :: "bool \<Rightarrow> time \<Rightarrow> int \<times> time" where
  "rate_budget fAnimation s =
     (if fAnimation then
        (let s1 = (if nCyclesDeposited s < 1
                   then s\<lparr>nCyclesDeposited :=
                            to_double (nCyclesDeposited s + nCyclesDepositPerFrame s)\<rparr>
                   else s);
             s2 = (if nCyclesDeposited s1 < 0
                   then (println PrintWarning s1)\<lparr>nCyclesDeposited := 0\<rparr> else s1)
         in (js_trunc32 (nCyclesDeposited s2), s2))
      else (getCyclesPerMS s (msYield s), s))"

text \<open>
  The loop over the timers, from the last to the first: a dormant timer is skipped, an
  armed one lowers the budget to its countdown.
\<close>

fun timers_budget :: "timer list \<Rightarrow> nat \<Rightarrow> int \<Rightarrow> int" where
  "timers_budget ts 0 nCycles = nCycles"
| "timers_budget ts (Suc i) nCycles =
     (let t = ts ! i
      in if nCyclesLeft t < 0 then timers_budget ts i nCycles
         else timers_budget ts i (if nCycles > nCyclesLeft t then nCyclesLeft t else nCycles))"

text \<open>\<open>getCyclesPerRun(fAnimation, nMinCycles)\<close>; a minimum of zero stands for none.\<close>

definition getCyclesPerRun :: "bool \<Rightarrow> int \<Rightarrow> time \<Rightarrow> int \<times> time" where
  "getCyclesPerRun fAnimation nMinCycles s =
     (if nMinCycles \<noteq> 0
      then (nMinCycles,
            s\<lparr>nCyclesDeposited := to_double (nCyclesDeposited s + of_int nMinCycles)\<rparr>)
      else (let (nCycles, s1) = rate_budget fAnimation s
            in (timers_budget (aTimers s1) (length (aTimers s1)) nCycles, s1)))"

subsection \<open>Timers\<close>

text \<open>
  \<open>setTimer(iTimer, ms, fReset)\<close> arms timer \<open>iTimer\<close> (counted from one) when it is
  dormant or a reset is asked for. While the clock runs, the cycles of the burst in
  progress are added, and the burst is ended.
\<close>

definition setTimer :: "nat \<Rightarrow> rat \<Rightarrow> bool \<Rightarrow> time \<Rightarrow> int \<times> time" where
  "setTimer iTimer ms fReset s =
     (if iTimer > 0 \<and> iTimer \<le> length (aTimers s) then
        (let t = aTimers s ! (iTimer - 1)
         in if fReset \<or> nCyclesLeft t < 0 then
              (let n0 = getCyclesPerMS s ms;
                   (n, s1) = (if fRunning s
                              then (let (e, s') = endBurst None s in (n0 + e, s'))
                              else (n0, s))
               in (n, s1\<lparr>aTimers := (aTimers s1)[iTimer - 1 :=
                                (aTimers s1 ! (iTimer - 1))\<lparr>nCyclesLeft := n\<rparr>]\<rparr>))
            else (-1, s))
      else (-1, s))"

definition addTimer :: "string \<Rightarrow> callback \<Rightarrow> rat \<Rightarrow> time \<Rightarrow> nat \<times> time" where
  "addTimer name cb ms s =
     (let iTimer = length (aTimers s) + 1;
          s1 = s\<lparr>aTimers := aTimers s @
                 [\<lparr>id_timer = name, callBack = cb, msAuto = ms, nCyclesLeft = -1\<rparr>]\<rparr>;
          s2 = (if ms \<ge> 0 then snd (setTimer iTimer ms False s1) else s1)
      in (iTimer, s2))"

text \<open>
  Calling a timer's callback: the call is recorded and counted; \<open>onYield\<close> calls
  \<open>yield()\<close>, the callback of another device makes its \<open>setTimer\<close> calls in turn.
\<close>

definition run_acts :: "(nat \<times> rat \<times> bool) list \<Rightarrow> time \<Rightarrow> time" where
  "run_acts acts s = fold (\<lambda>(iTimer, ms, fReset) s'. snd (setTimer iTimer ms fReset s')) acts s"

definition call_timer :: "nat \<Rightarrow> time \<Rightarrow> time" where
  "call_timer iTimer s =
     (let t = aTimers s ! (iTimer - 1);
          s1 = println (TimerCall iTimer (callBack t) (nCyclesLeft t)) s;
          s2 = s1\<lparr>nTimerCalls := nTimerCalls s1 + 1\<rparr>
      in case callBack t of
           OnYield \<Rightarrow> yield s2
         | External k \<Rightarrow> run_acts (timer_acts s1 k (nTimerCalls s1)) s2)"

text \<open>
  The loop of \<open>notifyTimers\<close>, from the last timer to the first: an armed timer is
  charged the cycles; one that reaches zero or less is made dormant, its callback is
  called, and it is armed again when it has an automatic period.
\<close>

fun notify_loop :: "nat \<Rightarrow> int \<Rightarrow> time \<Rightarrow> time" where
  "notify_loop 0 nCycles s = s"
| "notify_loop (Suc i) nCycles s =
     (let t = aTimers s ! i
      in if nCyclesLeft t < 0 then notify_loop i nCycles s
         else
           (let left = nCyclesLeft t - nCycles;
                s1 = s\<lparr>aTimers := (aTimers s)[i := t\<lparr>nCyclesLeft := left\<rparr>]\<rparr>
            in if left \<le> 0 then
                 (let s2 = s1\<lparr>aTimers := (aTimers s1)[i := (aTimers s1 ! i)\<lparr>nCyclesLeft := -1\<rparr>]\<rparr>;
                      s3 = call_timer (Suc i) s2;
                      s4 = (if msAuto (aTimers s3 ! i) \<ge> 0
                            then snd (setTimer (Suc i) (msAuto (aTimers s3 ! i)) False s3)
                            else s3)
                  in notify_loop i nCycles s4)
               else notify_loop i nCycles s1))"

definition notifyTimers :: "int \<Rightarrow> time \<Rightarrow> time" where
  "notifyTimers nCycles s =
     (if nCycles \<ge> 1 then notify_loop (length (aTimers s)) nCycles s else s)"

fun resetTimers_loop :: "nat \<Rightarrow> time \<Rightarrow> time" where
  "resetTimers_loop 0 s = s"
| "resetTimers_loop (Suc i) s =
     (let t = aTimers s ! i
      in resetTimers_loop i
           (if msAuto t \<ge> 0 then snd (setTimer (Suc i) (msAuto t) True s) else s))"

definition resetTimers :: "time \<Rightarrow> time" where
  "resetTimers s = resetTimers_loop (length (aTimers s)) s"

subsection \<open>Speed\<close>

text \<open>
  \<open>setSpeed(nMultiplier)\<close>; the argument may be absent. Outside of throttling, a current
  speed below nine tenths of the target makes the multiplier fall back to the base.
\<close>

definition setSpeed :: "rat option \<Rightarrow> time \<Rightarrow> bool \<times> time" where
  "setSpeed arg s =
     (let (fSuccess, s1) =
            (case arg of
               None \<Rightarrow> (True, s)
             | Some m0 \<Rightarrow>
                 (let revert = (\<not> fThrottling s \<and> mhzCurrent s > 0
                                \<and> mhzCurrent s < to_double (mhzTarget s * to_double (9 / 10)));
                      m = (if revert then nBaseMultiplier s else m0);
                      sa = s\<lparr>nTargetMultiplier := m\<rparr>;
                      sb = sa\<lparr>mhzTarget := to_double (mhzBase sa * nTargetMultiplier sa)\<rparr>
                  in (\<not> revert, sb\<lparr>mhzCurrent := mhzTarget sb\<rparr>)));
          s2 = (if fClockByFrame s1
                then s1\<lparr>nCyclesDepositPerFrame :=
                          to_double (to_double (to_double (mhzCurrent s1 * 1000000) / 60)
                                       + to_double (1 / 100000000)),
                         nCyclesDeposited := 0\<rparr>
                else s1);
          s3 = s2\<lparr>nCyclesRun := 0, msStartRun := 0, msEndRun := 0\<rparr>
      in (fSuccess, resetTimers (calcCycles s3)))"

definition setSpeedThrottle :: "time \<Rightarrow> bool \<times> time" where
  "setSpeedThrottle s =
     (case throttle s of
        None \<Rightarrow> (False, s)
      | Some (v, lo, hi) \<Rightarrow>
          (let ratio = to_double (to_double (v - lo) / to_double (hi - lo));
               nCycles = \<lfloor>to_double (to_double (to_double (nCyclesMaximum s - nCyclesMinimum s)
                                      * ratio) + nCyclesMinimum s)\<rfloor>;
               nMultiplier = to_double (of_int nCycles / nCyclesPerSecond s)
           in (True, snd (setSpeed (Some nMultiplier) s))))"

definition resetSpeed :: "time \<Rightarrow> time" where
  "resetSpeed s =
     (let s1 = s\<lparr>nCyclesRun := 0, nCyclesBurst := 0, nCyclesRemain := 0\<rparr>;
          (f, s2) = setSpeedThrottle s1
      in if \<not> f then snd (setSpeed (Some (nBaseMultiplier s2)) s2) else s2)"

subsection \<open>Start, stop and step\<close>

definition start :: "time \<Rightarrow> bool \<times> time" where
  "start s =
     (if fRunning s \<or> nStepping s \<noteq> 0 then (False, s)
      else
        (let s1 = s\<lparr>fRunning := True, msStartRun := 0, msEndRun := 0\<rparr>;
             s2 = update (Some True) s1;
             s3 = (if \<not> fClockByFrame s2 then s2\<lparr>idRunTimeout := True\<rparr> else s2);
             s4 = (if fRequestAnimationFrame s3 then s3\<lparr>idAnimation := True\<rparr> else s3)
         in (True, s4)))"

definition stop :: "time \<Rightarrow> bool \<times> time" where
  "stop s =
     (if fRunning s then
        (let s1 = s\<lparr>fRunning := False\<rparr>;
             s2 = snd (endBurst None s1);
             s3 = (if idRunTimeout s2 then s2\<lparr>idRunTimeout := False\<rparr> else s2);
             s4 = (if idAnimation s3 then s3\<lparr>idAnimation := False\<rparr> else s3)
         in (True, update (Some True) s4))
      else if nStepping s \<noteq> 0 then (True, update (Some True) (s\<lparr>nStepping := 0\<rparr>))
      else (False, s))"

text \<open>
  One pass of the run loop's body, also used by \<open>step\<close>:
  \<open>notifyTimers(endBurst(doBurst(getCyclesPerRun(fAnimation, nMinCycles))))\<close>.
\<close>

definition burst :: "nat \<Rightarrow> bool \<Rightarrow> int \<Rightarrow> time \<Rightarrow> unit result" where
  "burst fuel fAnimation nMinCycles s =
     (let (n, s1) = getCyclesPerRun fAnimation nMinCycles s
      in case doBurst fuel n s1 of
           None \<Rightarrow> None
         | Some (Inl (msg, s2)) \<Rightarrow> Some (Inl (msg, s2))
         | Some (Inr (e, s2)) \<Rightarrow>
             (let (e', s3) = endBurst (Some e) s2
              in Some (Inr ((), notifyTimers e' s3))))"

text \<open>
  \<open>step(nRepeat)\<close>: refused while running. Otherwise a non-zero repeat count starts
  stepping when none is in progress; a step in progress runs one burst of at least one
  cycle and asks the host to continue while steps are left. A device that throws in the
  burst is not caught here.
\<close>

definition step :: "nat \<Rightarrow> int \<Rightarrow> time \<Rightarrow> bool result" where
  "step fuel nRepeat s =
     (if \<not> fRunning s then
        (let s1 = (if nRepeat \<noteq> 0 \<and> nStepping s = 0 then s\<lparr>nStepping := nRepeat\<rparr> else s)
         in if nStepping s1 \<noteq> 0 then
              (let s2 = s1\<lparr>nStepping := nStepping s1 - 1\<rparr>
               in case burst fuel True 1 s2 of
                    None \<Rightarrow> None
                  | Some (Inl (msg, s3)) \<Rightarrow> Some (Inl (msg, s3))
                  | Some (Inr (u, s3)) \<Rightarrow>
                      (let s4 = update (Some False) s3
                       in if nStepping s4 \<noteq> 0 then Some (Inr (True, s4\<lparr>idStepTimeout := True\<rparr>))
                          else Some (Inr (True, s4))))
            else Some (Inr (True, s1)))
      else Some (Inr (False, s)))"

subsection \<open>A run between two yields\<close>

definition startRun :: "time \<Rightarrow> time" where
  "startRun s =
     (let s1 = calcCycles s;
          s2 = s1\<lparr>nCyclesThisRun := 0, msOutsideThisRun := 0\<rparr>;
          (t, s3) = Date_now s2;
          s4 = s3\<lparr>msStartThisRun := t\<rparr>;
          s5 = (if msStartRun s4 = 0 then s4\<lparr>msStartRun := msStartThisRun s4\<rparr> else s4)
      in if msEndRun s5 \<noteq> 0 then
           (let msDelta = to_double (msStartThisRun s5 - msEndRun s5)
            in if msDelta > msYield s5 then
                 (let s6 = s5\<lparr>msStartRun := to_double (msStartRun s5 + msDelta)\<rparr>
                  in if msStartRun s6 > msStartThisRun s6
                     then s6\<lparr>msStartRun := msStartThisRun s6\<rparr> else s6)
               else s5)
         else s5)"

text \<open>\<open>Math.round\<close> rounds a half upwards.\<close>

definition js_round :: "rat \<Rightarrow> rat" where
  "js_round x = of_int \<lfloor>x + 1 / 2\<rfloor>"

definition stopRun :: "time \<Rightarrow> rat \<times> time" where
  "stopRun s =
     (let (t, s1) = Date_now s;
          s2 = s1\<lparr>msEndRun := t\<rparr>;
          s3 = (if msOutsideThisRun s2 \<noteq> 0
                then s2\<lparr>msStartRun := to_double (msStartRun s2 + msOutsideThisRun s2),
                         msStartThisRun := to_double (msStartThisRun s2 + msOutsideThisRun s2)\<rparr>
                else s2);
          msYield1 = (if nCyclesThisRun s3 \<noteq> 0
                      then js_round (to_double (to_double (msYield s3 * of_int (nCyclesThisRun s3))
                                                  / nCyclesPerYield s3))
                      else msYield s3);
          msElapsedThisRun = to_double (msEndRun s3 - msStartThisRun s3);
          msRemainsThisRun = to_double (msYield1 - msElapsedThisRun);
          nCycles = nCyclesRun s3;
          msElapsed = to_double (msEndRun s3 - msStartRun s3);
          s4 = (if msRemainsThisRun < 0 \<and> nTargetMultiplier s3 > 1
                then println PrintWarning s3 else s3);
          s5 = calcSpeed nCycles msElapsed s4;
          (msRemains, s6) =
            (if msRemainsThisRun < 0 then
               (0, if msRemainsThisRun < - 1000
                   then s5\<lparr>msStartRun := to_double (msStartRun s5 - msRemainsThisRun)\<rparr>
                   else s5)
             else if mhzCurrent s5 < mhzTarget s5 then (0, s5)
             else (msRemainsThisRun, s5))
      in (msRemains, s6\<lparr>msEndRun := to_double (msEndRun s6 + msRemains)\<rparr>))"

text \<open>
  The \<open>do ... while (fRunning && !fYield)\<close> loop of \<open>runCycles\<close>. It need not end, so
  it takes fuel, which it also hands to each burst.
\<close>

fun run_loop :: "nat \<Rightarrow> bool \<Rightarrow> time \<Rightarrow> unit result" where
  "run_loop 0 fAnimation s = None"
| "run_loop (Suc fuel) fAnimation s =
     (case burst (Suc fuel) fAnimation 0 s of
        None \<Rightarrow> None
      | Some (Inl (msg, s1)) \<Rightarrow> Some (Inl (msg, s1))
      | Some (Inr (u, s1)) \<Rightarrow>
          (if fRunning s1 \<and> \<not> fYield s1 then run_loop fuel fAnimation s1
           else Some (Inr ((), s1))))"

text \<open>
  \<open>runCycles(fAnimation)\<close>: the loop runs inside \<open>try\<close>; an exception is printed and
  followed by \<open>stop()\<close>; in either case \<open>stopRun()\<close> gives the result.
\<close>

definition runCycles :: "nat \<Rightarrow> bool \<Rightarrow> time \<Rightarrow> (rat \<times> time) option" where
  "runCycles fuel fAnimation s =
     (let s1 = startRun s;
          s2 = s1\<lparr>fYield := False\<rparr>
      in case run_loop fuel fAnimation s2 of
           None \<Rightarrow> None
         | Some (Inl (msg, s3)) \<Rightarrow> Some (stopRun (snd (stop (println (PrintError msg) s3))))
         | Some (Inr (u, s3)) \<Rightarrow> Some (stopRun s3))"

text \<open>
  \<open>animate(t)\<close>, the host's animation frame, and \<open>run()\<close>, the host's timeout. Neither
  does anything to the cycles when the clock is not running.
\<close>

definition animate :: "nat \<Rightarrow> time \<Rightarrow> time option" where
  "animate fuel s =
     (let after = (\<lambda>s1. let s2 = s1\<lparr>printed := printed s1 @ map Animation (aAnimations s1)\<rparr>
                         in if fRunning s2 \<and> fRequestAnimationFrame s2
                            then s2\<lparr>idAnimation := True\<rparr> else s2)
      in if fClockByFrame s then
           (let s1 = s\<lparr>idAnimation := False\<rparr>
            in if \<not> fRunning s1 then Some s1
               else (case runCycles fuel True s1 of
                       None \<Rightarrow> None
                     | Some (ms, s2) \<Rightarrow> Some (after s2)))
         else Some (after s))"

definition run :: "nat \<Rightarrow> time \<Rightarrow> time option" where
  "run fuel s =
     (let s1 = s\<lparr>idRunTimeout := False\<rparr>
      in if \<not> fRunning s1 then Some s1
         else (case runCycles fuel False s1 of
                 None \<Rightarrow> None
               | Some (msRemains, s2) \<Rightarrow>
                   (if fRunning s2 then
                      (let s3 = s2\<lparr>idRunTimeout := True\<rparr>
                       in if \<not> fRequestAnimationFrame s3 then animate fuel s3 else Some s3)
                    else Some s2)))"

subsection \<open>Construction and registration\<close>

definition addAnimation :: "nat \<Rightarrow> time \<Rightarrow> time" where
  "addAnimation cb s = s\<lparr>aAnimations := aAnimations s @ [cb]\<rparr>"

definition addClock :: "nat \<Rightarrow> time \<Rightarrow> time" where
  "addClock clock s = s\<lparr>aClocks := aClocks s @ [clock]\<rparr>"

definition addUpdate :: "nat \<Rightarrow> time \<Rightarrow> time" where
  "addUpdate device s = s\<lparr>aUpdates := aUpdates s @ [device]\<rparr>"

definition getBounded :: "rat \<Rightarrow> rat \<Rightarrow> rat \<Rightarrow> rat" where
  "getBounded n lo hi =
     (let n1 = (if n < lo then lo else n) in if n1 > hi then hi else n1)"

record time_config =
  cfg_cyclesMinimum :: "rat option"
  cfg_cyclesMaximum :: "rat option"
  cfg_cyclesPerSecond :: "rat option"
  cfg_yieldsPerSecond :: "rat option"
  cfg_yieldsPerUpdate :: "rat option"
  cfg_clockByFrame :: "bool option"
  cfg_requestAnimationFrame :: "bool option"

definition getDefault :: "'a option \<Rightarrow> 'a \<Rightarrow> 'a" where
  "getDefault x d = (case x of None \<Rightarrow> d | Some v \<Rightarrow> v)"

text \<open>
  The constructor, given the configuration and the surroundings. Unless the clock is
  driven by animation frames, it adds the yield timer, whose callback is \<open>onYield\<close>.
\<close>

definition Time_new ::
  "time_config \<Rightarrow> (nat \<Rightarrow> nat \<Rightarrow> int \<Rightarrow> clock_result)
     \<Rightarrow> (nat \<Rightarrow> nat \<Rightarrow> (nat \<times> rat \<times> bool) list) \<Rightarrow> (nat \<Rightarrow> rat)
     \<Rightarrow> (rat \<times> rat \<times> rat) option \<Rightarrow> time" where
  "Time_new config answers acts now slider =
     (let cmin = getDefault (cfg_cyclesMinimum config) 100000;
          cmax = getDefault (cfg_cyclesMaximum config) 3000000;
          cps = getBounded (getDefault (cfg_cyclesPerSecond config) 650000) cmin cmax;
          yps = getBounded (getDefault (cfg_yieldsPerSecond config) 120) 30 120;
          ypu = getBounded (getDefault (cfg_yieldsPerUpdate config) 60) 1 yps;
          byFrame = getDefault (cfg_clockByFrame config) (cps \<le> 120);
          raf = (byFrame \<or> getDefault (cfg_requestAnimationFrame config) True);
          base = to_double (to_double (cps / 10000) / 100);
          s0 = \<lparr> nCyclesMinimum = cmin, nCyclesMaximum = cmax, nCyclesPerSecond = cps,
                 nYieldsPerSecond = yps, nYieldsPerUpdate = ypu, fClockByFrame = byFrame,
                 fRequestAnimationFrame = raf, nBaseMultiplier = 1, nCurrentMultiplier = 1,
                 nTargetMultiplier = 1, mhzBase = base, mhzCurrent = to_double (base * 1),
                 mhzTarget = to_double (base * 1), nYields = 0,
                 msYield = js_round (to_double (1000 / yps)),
                 aAnimations = [], aClocks = [], aTimers = [], aUpdates = [],
                 fPowered = False, fRunning = False, fYield = False, fThrottling = False,
                 nStepping = 0, idRunTimeout = False, idStepTimeout = False,
                 idAnimation = False, nCyclesLife = 0, nCyclesRun = 0, nCyclesThisRun = 0,
                 nCyclesBurst = 0, nCyclesRemain = 0, nCyclesDeposited = 0,
                 nCyclesDepositPerFrame = 0, nCyclesPerYield = 0, msStartRun = 0,
                 msEndRun = 0, msStartThisRun = 0, msOutsideThisRun = 0,
                 clock_answers = answers, nClockCalls = 0, timer_acts = acts,
                 nTimerCalls = 0, date_now = now, nDateReads = 0,
                 throttle = slider, printed = [] \<rparr>;
          s1 = (if byFrame then s0
                else snd (addTimer ''timerYield'' OnYield (msYield s0) s0))
      in resetSpeed s1)"

text \<open>
  The states of the scheduler: the constructed one, and those reached from it by
  registering devices and timers, arming timers, and by \<open>start\<close>, \<open>stop\<close>, \<open>step\<close> (also
  when a device throws in its burst), and the host's calls of \<open>run\<close> and \<open>animate\<close>.
\<close>

inductive reachable_time :: "time \<Rightarrow> bool" where
  t_new: "reachable_time (Time_new config answers acts now slider)"
| t_addClock: "reachable_time s \<Longrightarrow> reachable_time (addClock d s)"
| t_addUpdate: "reachable_time s \<Longrightarrow> reachable_time (addUpdate d s)"
| t_addAnimation: "reachable_time s \<Longrightarrow> reachable_time (addAnimation d s)"
| t_addTimer: "reachable_time s \<Longrightarrow> reachable_time (snd (addTimer name (External k) ms s))"
| t_setTimer: "reachable_time s \<Longrightarrow> reachable_time (snd (setTimer iTimer ms fReset s))"
| t_start: "reachable_time s \<Longrightarrow> reachable_time (snd (start s))"
| t_stop: "reachable_time s \<Longrightarrow> reachable_time (snd (stop s))"
| t_step: "reachable_time s \<Longrightarrow> step fuel n s = Some (Inr (r, s')) \<Longrightarrow> reachable_time s'"
| t_step_throws: "reachable_time s \<Longrightarrow> step fuel n s = Some (Inl (msg, s')) \<Longrightarrow> reachable_time s'"
| t_run: "reachable_time s \<Longrightarrow> run fuel s = Some s' \<Longrightarrow> reachable_time s'"
| t_animate: "reachable_time s \<Longrightarrow> animate fuel s = Some s' \<Longrightarrow> reachable_time s'"

subsection \<open>What the specification expects of the scheduler\<close>

text \<open>
  The words of the specification about the timers when \<open>n\<close> cycles are charged. A
  timer \<open>fires\<close> when it is armed and its countdown would reach zero or less. A
  \<open>setTimer\<close> call arms a timer when it is dormant or a reset is asked for (\<open>rearm\<close>,
  on the countdown alone). \<open>callback_acts s n i j\<close> are the \<open>setTimer\<close> calls that the
  callback of timer \<open>j\<close> makes when the first \<open>i\<close> timers are gone through from the
  last to the first: it is called after the callbacks of the timers above it that fire
  (\<open>fired_above\<close>). \<open>timer_after\<close> is timer \<open>j\<close> afterwards: a dormant timer stays
  as it is; one that fires is made dormant, gets the countdown that the calls of its
  callback give it, and is armed for its automatic period, in cycles at the current
  multiplier, if it has one and the callback has left it dormant; any other armed timer
  has \<open>n\<close> cycles less to go. \<open>own_timer_only\<close> says that the callback of every timer
  calls \<open>setTimer\<close> for no timer but that one. \<open>timer_calls\<close> are the callbacks
  expected among the first \<open>i\<close> timers, last registered timer first, each called while
  its timer is dormant. \<open>result_state\<close> is the state in which a function that may throw
  ends, thrown or not.

  Two schedulers serve as examples. \<open>default_time\<close> is the scheduler that the
  constructor builds from a configuration without numbers, with a clock that stands
  still and no throttle. \<open>example_time\<close> adds a periodic timer, a one-shot timer that
  is armed and a dormant timer, and starts the scheduler; every device executes the
  cycles asked of it. Its callbacks make no \<open>setTimer\<close> calls (\<open>no_acts\<close>), or the
  callback of the one-shot timer arms that timer for 50 milliseconds (\<open>once_acts\<close>),
  or the callback of the periodic timer does so with its own (\<open>blink_acts\<close>).
  \<open>faulty_time\<close> has two clocked devices and is started; the first device executes
  100 cycles whenever asked, the second throws.
\<close>

definition default_time_config :: time_config where
  "default_time_config =
     \<lparr>cfg_cyclesMinimum = None, cfg_cyclesMaximum = None, cfg_cyclesPerSecond = None,
      cfg_yieldsPerSecond = None, cfg_yieldsPerUpdate = None, cfg_clockByFrame = None,
      cfg_requestAnimationFrame = None\<rparr>"

definition default_time ::
  "(nat \<Rightarrow> nat \<Rightarrow> int \<Rightarrow> clock_result) \<Rightarrow> (nat \<Rightarrow> nat \<Rightarrow> (nat \<times> rat \<times> bool) list) \<Rightarrow> time" where
  "default_time answers acts = Time_new default_time_config answers acts (\<lambda>k. 0) None"

definition example_time :: "(nat \<Rightarrow> nat \<Rightarrow> (nat \<times> rat \<times> bool) list) \<Rightarrow> time" where
  "example_time acts =
     snd (start (snd (addTimer ''idle'' (External 5) (- 1)
       (snd (setTimer 3 1 False
         (snd (addTimer ''once'' (External 9) (- 1)
           (snd (addTimer ''blink'' (External 7) 1
             (default_time (\<lambda>d k c. Returns c) acts))))))))))"

definition no_acts :: "nat \<Rightarrow> nat \<Rightarrow> (nat \<times> rat \<times> bool) list" where
  "no_acts k c = []"

definition once_acts :: "nat \<Rightarrow> nat \<Rightarrow> (nat \<times> rat \<times> bool) list" where
  "once_acts k c = (if k = 9 then [(3, 50, False)] else [])"

definition blink_acts :: "nat \<Rightarrow> nat \<Rightarrow> (nat \<times> rat \<times> bool) list" where
  "blink_acts k c = (if k = 7 then [(2, 50, False)] else [])"

definition faulty_answers :: "nat \<Rightarrow> nat \<Rightarrow> int \<Rightarrow> clock_result" where
  "faulty_answers d k c = (if d = 0 then Returns 100 else Throws ''fault'')"

definition faulty_time :: time where
  "faulty_time = snd (start (addClock 1 (addClock 0 (default_time faulty_answers no_acts))))"

definition result_state :: "(string \<times> time + 'a \<times> time) \<Rightarrow> time" where
  "result_state r = (case r of Inl (m, s) \<Rightarrow> s | Inr (v, s) \<Rightarrow> s)"

definition fires :: "int \<Rightarrow> timer \<Rightarrow> bool" where
  "fires n t = (0 \<le> nCyclesLeft t \<and> nCyclesLeft t - n \<le> 0)"

definition rearm :: "time \<Rightarrow> int \<Rightarrow> nat \<times> rat \<times> bool \<Rightarrow> int" where
  "rearm s left a =
     (case a of (iTimer, ms, fReset) \<Rightarrow>
        if fReset \<or> left < 0 then getCyclesPerMS s ms else left)"

definition fired_above :: "int \<Rightarrow> timer list \<Rightarrow> nat \<Rightarrow> nat \<Rightarrow> nat" where
  "fired_above n ts i j = length (filter (\<lambda>m. fires n (ts ! m)) [Suc j..<i])"

definition callback_acts :: "time \<Rightarrow> int \<Rightarrow> nat \<Rightarrow> nat \<Rightarrow> (nat \<times> rat \<times> bool) list" where
  "callback_acts s n i j =
     (case callBack (aTimers s ! j) of
        OnYield \<Rightarrow> []
      | External k \<Rightarrow> timer_acts s k (nTimerCalls s + fired_above n (aTimers s) i j))"

definition timer_after :: "time \<Rightarrow> int \<Rightarrow> nat \<Rightarrow> nat \<Rightarrow> timer" where
  "timer_after s n i j =
     (let t = aTimers s ! j
      in if nCyclesLeft t < 0 then t
         else if fires n t then
           (let left = fold (\<lambda>a l. rearm s l a) (callback_acts s n i j) (- 1)
            in t\<lparr>nCyclesLeft :=
                   (if msAuto t \<ge> 0 \<and> left < 0 then getCyclesPerMS s (msAuto t) else left)\<rparr>)
         else t\<lparr>nCyclesLeft := nCyclesLeft t - n\<rparr>)"

definition own_timer_only :: "time \<Rightarrow> bool" where
  "own_timer_only s =
     (\<forall>j < length (aTimers s). \<forall>k c. callBack (aTimers s ! j) = External k \<longrightarrow>
        (\<forall>a \<in> set (timer_acts s k c). fst a = Suc j))"

fun is_timer_call :: "event \<Rightarrow> bool" where
  "is_timer_call (TimerCall i cb left) = True"
| "is_timer_call e = False"

definition timer_calls :: "int \<Rightarrow> timer list \<Rightarrow> nat \<Rightarrow> event list" where
  "timer_calls n ts i =
     map (\<lambda>j. TimerCall (Suc j) (callBack (ts ! j)) (- 1))
       (filter (\<lambda>j. fires n (ts ! j)) (rev [0..<i]))"

section \<open>Properties of compress and decompress\<close>

lemma scan_run_le: "iCompare \<le> length aSrc \<Longrightarrow> scan_run aSrc n iCompare \<le> length aSrc"
proof (induction aSrc n iCompare rule: scan_run.induct)
  case (1 aSrc n iCompare)
  then show ?case by (subst scan_run.simps) auto
qed

lemma scan_run_takeWhile:
  "i \<le> length xs \<Longrightarrow> scan_run xs n i = i + length (takeWhile (\<lambda>y. y = n) (drop i xs))"
proof (induction xs n i rule: scan_run.induct)
  case (1 aSrc n iCompare)
  show ?case
  proof (cases "iCompare < length aSrc")
    case True
    then have d: "drop iCompare aSrc = aSrc ! iCompare # drop (Suc iCompare) aSrc"
      by (simp add: Cons_nth_drop_Suc)
    show ?thesis
    proof (cases "aSrc ! iCompare = n")
      case eq: True
      have "scan_run aSrc n iCompare = scan_run aSrc n (iCompare + 1)"
        using True eq by (subst scan_run.simps) simp
      also have "\<dots> = (iCompare + 1) + length (takeWhile (\<lambda>y. y = n) (drop (iCompare + 1) aSrc))"
        using "1.IH" True eq by simp
      finally show ?thesis using d eq by simp
    next
      case False
      then have "scan_run aSrc n iCompare = iCompare"
        by (subst scan_run.simps) simp
      then show ?thesis using d False by simp
    qed
  next
    case False
    then have "scan_run aSrc n iCompare = iCompare"
      by (subst scan_run.simps) simp
    then show ?thesis using False "1.prems" by simp
  qed
qed

lemma compress_loop_rle:
  "i \<le> length xs \<Longrightarrow> compress_loop xs i acc = acc @ rle_pairs (drop i xs)"
proof (induction xs i acc rule: compress_loop.induct)
  case (1 aSrc iSrc aComp)
  show ?case
  proof (cases "iSrc < length aSrc")
    case True
    define x where "x = aSrc ! iSrc"
    define rest where "rest = drop (Suc iSrc) aSrc"
    define tw where "tw = length (takeWhile (\<lambda>y. y = x) rest)"
    define j where "j = scan_run aSrc x (iSrc + 1)"
    have d: "drop iSrc aSrc = x # rest"
      using True by (simp add: Cons_nth_drop_Suc x_def rest_def)
    have j: "j = iSrc + 1 + tw"
      using True by (simp add: j_def tw_def rest_def scan_run_takeWhile)
    have jle: "j \<le> length aSrc"
      using True by (simp add: j_def scan_run_le)
    have dj: "drop j aSrc = dropWhile (\<lambda>y. y = x) rest"
      by (simp add: j tw_def rest_def dropWhile_eq_drop add.commute)
    have "compress_loop aSrc iSrc aComp = compress_loop aSrc j (aComp @ [int j - int iSrc, x])"
      using True by (subst compress_loop.simps) (simp add: Let_def x_def j_def)
    also have "\<dots> = (aComp @ [int j - int iSrc, x]) @ rle_pairs (drop j aSrc)"
      using "1.IH" [of x j] True jle by (simp add: x_def j_def)
    finally show ?thesis
      using d dj j by (simp add: tw_def)
  next
    case False
    then show ?thesis using "1.prems" by (subst compress_loop.simps) simp
  qed
qed

lemma compress_rle:
  "compress xs = (if length (rle_pairs xs) < length xs then rle_pairs xs else xs)"
  by (simp add: compress_def compress_loop_rle Let_def)

lemma js_store_next:
  "js_store (map Some zs @ replicate k None) (length zs) n
     = map Some (zs @ [n]) @ replicate (k - 1) None"
  by (cases k) (simp_all add: js_store_def list_update_append)

lemma fill_run_count:
  "fill_run (int c) n (map Some zs @ replicate k None) (length zs)
     = Some (map Some (zs @ replicate c n) @ replicate (k - c) None, length zs + c)"
proof (induction c arbitrary: zs k)
  case 0
  then show ?case by (subst fill_run.simps) simp
next
  case (Suc c)
  have "fill_run (int (Suc c)) n (map Some zs @ replicate k None) (length zs)
      = fill_run (int c) n (map Some (zs @ [n]) @ replicate (k - 1) None) (length (zs @ [n]))"
    by (subst fill_run.simps) (simp add: js_store_next)
  also have "\<dots> = Some (map Some ((zs @ [n]) @ replicate c n) @ replicate (k - 1 - c) None,
      length (zs @ [n]) + c)"
    by (rule Suc.IH)
  finally show ?case by (simp add: replicate_append_same)
qed

lemma takeWhile_eq_replicate:
  "takeWhile (\<lambda>y. y = x) xs = replicate (length (takeWhile (\<lambda>y. y = x) xs)) x"
  by (induction xs) auto

lemma decompress_loop_rle:
  "decompress_loop (pre @ rle_pairs ys) (length pre) (map Some zs @ replicate k None) (length zs)
     = Some (map Some (zs @ ys) @ replicate (k - length ys) None)"
proof (induction ys arbitrary: pre zs k rule: rle_pairs.induct)
  case 1
  then show ?case by (subst decompress_loop.simps) simp
next
  case (2 x xs)
  define c where "c = Suc (length (takeWhile (\<lambda>y. y = x) xs))"
  define rest where "rest = dropWhile (\<lambda>y. y = x) xs"
  have enc: "rle_pairs (x # xs) = int c # x # rle_pairs rest"
    by (simp add: c_def rest_def)
  have run: "replicate c x @ rest = x # xs"
  proof -
    have "replicate c x = x # takeWhile (\<lambda>y. y = x) xs"
      using takeWhile_eq_replicate [of x xs] by (simp add: c_def)
    then show ?thesis by (simp add: rest_def)
  qed
  have len: "length (x # xs) = c + length rest"
    using run by (metis length_append length_replicate)
  have "decompress_loop (pre @ rle_pairs (x # xs)) (length pre)
          (map Some zs @ replicate k None) (length zs)
      = decompress_loop ((pre @ [int c, x]) @ rle_pairs rest) (length (pre @ [int c, x]))
          (map Some (zs @ replicate c x) @ replicate (k - c) None) (length (zs @ replicate c x))"
    unfolding enc
    by (subst decompress_loop.simps) (simp add: nth_append fill_run_count del: rle_pairs.simps)
  also have "\<dots> = Some (map Some ((zs @ replicate c x) @ rest) @ replicate (k - c - length rest) None)"
    using "2.IH" [of "pre @ [int c, x]" "zs @ replicate c x" "k - c"] by (simp add: rest_def)
  finally show ?case using run len by (simp del: rle_pairs.simps replicate_Suc)
qed

text \<open>
  Claim C5. For every array \<open>xs\<close> of whole numbers, decompressing the compressed array
  with the original length gives back exactly \<open>xs\<close>; and the compressed
  array is the run-length encoding of alternating counts and values when that encoding is
  strictly shorter than \<open>xs\<close>, and \<open>xs\<close> itself otherwise.
\<close>

theorem compress_decompress_roundtrip:
  "decompress (compress xs) (length xs) = Some (map Some xs)
   \<and> compress xs = (if length (rle_encoding xs) < length xs then rle_encoding xs else xs)"
proof
  show "decompress (compress xs) (length xs) = Some (map Some xs)"
  proof (cases "length (rle_pairs xs) < length xs")
    case True
    then have "decompress (compress xs) (length xs)
        = decompress_loop ([] @ rle_pairs xs) (length ([]::int list))
            (map Some [] @ replicate (length xs) None) (length ([]::int list))"
      by (simp add: compress_rle decompress_def)
    also have "\<dots> = Some (map Some ([] @ xs) @ replicate (length xs - length xs) None)"
      by (rule decompress_loop_rle)
    finally show ?thesis by simp
  next
    case False
    then show ?thesis by (simp add: compress_rle decompress_def)
  qed
  show "compress xs = (if length (rle_encoding xs) < length xs then rle_encoding xs else xs)"
    by (simp add: compress_rle rle_encoding_def)
qed

theorem compress_decompress_roundtrip_witness:
  "decompress (compress [5, 5, 5, 5, 7, 7, 7, 1]) (length [5, 5, 5, 5, 7, 7, 7, 1::int])
     = Some (map Some [5, 5, 5, 5, 7, 7, 7, 1])
   \<and> compress [5, 5, 5, 5, 7, 7, 7, 1] = [4, 5, 3, 7, 1, 1]
   \<and> compress [4, 4, 4] = [3, 4] \<and> compress [1, 2, 3] = [1, 2, 3]"
proof -
  have a: "rle_encoding [5, 5, 5, 5, 7, 7, 7, 1] = [4, 5, 3, 7, 1, 1]"
    by (simp add: rle_encoding_def)
  have b: "rle_encoding [4, 4, 4] = [3, 4]" "rle_encoding [1, 2, 3] = [1, 1, 1, 2, 1, 3]"
    by (simp_all add: rle_encoding_def)
  show ?thesis
    using compress_decompress_roundtrip [of "[5, 5, 5, 5, 7, 7, 7, 1]"]
      compress_decompress_roundtrip [of "[4, 4, 4]"]
      compress_decompress_roundtrip [of "[1, 2, 3]"]
    by (auto simp: a b)
qed

section \<open>Properties of memory blocks\<close>

lemmas base_defs = base_read_def base_write_def base_readPair_def base_writePair_def
lemmas part_defs = shape_ok_def traps_ok_def types_ok_def dirty_ok_def

subsection \<open>Updates of fields that the accessors do not depend on\<close>

lemma base_values_upd [simp]:
  "base_read (b\<lparr>values_blk := vs\<rparr>) = base_read b"
  "base_write (b\<lparr>values_blk := vs\<rparr>) = base_write b"
  "base_readPair (b\<lparr>values_blk := vs\<rparr>) = base_readPair b"
  "base_writePair (b\<lparr>values_blk := vs\<rparr>) = base_writePair b"
  by (simp_all add: base_defs)

lemma base_calls_upd [simp]:
  "base_read (b\<lparr>calls := cs\<rparr>) = base_read b"
  "base_write (b\<lparr>calls := cs\<rparr>) = base_write b"
  "base_readPair (b\<lparr>calls := cs\<rparr>) = base_readPair b"
  "base_writePair (b\<lparr>calls := cs\<rparr>) = base_writePair b"
  by (simp_all add: base_defs)

lemma base_fDirty_upd [simp]:
  "base_read (b\<lparr>fDirty := d\<rparr>) = base_read b"
  "base_write (b\<lparr>fDirty := d\<rparr>) = base_write b"
  "base_readPair (b\<lparr>fDirty := d\<rparr>) = base_readPair b"
  "base_writePair (b\<lparr>fDirty := d\<rparr>) = base_writePair b"
  by (simp_all add: base_defs)

lemma base_set_base_write [simp]:
  "base_read (set_base_write b fn) = base_read b"
  "base_write (set_base_write b fn) = fn"
  "base_readPair (set_base_write b fn) = base_readPair b"
  "base_writePair (set_base_write b fn) = base_writePair b"
  by (simp_all add: base_defs set_base_write_def)

lemma base_set_base_writePair [simp]:
  "base_read (set_base_writePair b fn) = base_read b"
  "base_write (set_base_writePair b fn) = base_write b"
  "base_readPair (set_base_writePair b fn) = base_readPair b"
  "base_writePair (set_base_writePair b fn) = fn"
  by (simp_all add: base_defs set_base_writePair_def)

lemma fields_set_base_write [simp]:
  "type (set_base_write b fn) = type b" "bus (set_base_write b fn) = bus b"
  "fDirty (set_base_write b fn) = fDirty b" "values_blk (set_base_write b fn) = values_blk b"
  "size_blk (set_base_write b fn) = size_blk b" "buffer (set_base_write b fn) = buffer b"
  "dataWidth (set_base_write b fn) = dataWidth b" "dataLimit (set_base_write b fn) = dataLimit b"
  "nWriteTraps (set_base_write b fn) = nWriteTraps b" "nReadTraps (set_base_write b fn) = nReadTraps b"
  "calls (set_base_write b fn) = calls b" "addr (set_base_write b fn) = addr b"
  "writeTrap (set_base_write b fn) = writeTrap b" "readTrap (set_base_write b fn) = readTrap b"
  "readData (set_base_write b fn) = readData b" "readPair (set_base_write b fn) = readPair b"
  "writePair (set_base_write b fn) = writePair b"
  "readDataOrig (set_base_write b fn) = readDataOrig b"
  "readPairOrig (set_base_write b fn) = readPairOrig b"
  "writePairOrig (set_base_write b fn) = writePairOrig b"
  by (simp_all add: set_base_write_def)

lemma fields_set_base_writePair [simp]:
  "type (set_base_writePair b fn) = type b" "bus (set_base_writePair b fn) = bus b"
  "fDirty (set_base_writePair b fn) = fDirty b" "values_blk (set_base_writePair b fn) = values_blk b"
  "size_blk (set_base_writePair b fn) = size_blk b" "buffer (set_base_writePair b fn) = buffer b"
  "dataWidth (set_base_writePair b fn) = dataWidth b" "dataLimit (set_base_writePair b fn) = dataLimit b"
  "nWriteTraps (set_base_writePair b fn) = nWriteTraps b" "nReadTraps (set_base_writePair b fn) = nReadTraps b"
  "calls (set_base_writePair b fn) = calls b" "addr (set_base_writePair b fn) = addr b"
  "writeTrap (set_base_writePair b fn) = writeTrap b" "readTrap (set_base_writePair b fn) = readTrap b"
  "readData (set_base_writePair b fn) = readData b" "readPair (set_base_writePair b fn) = readPair b"
  "writeData (set_base_writePair b fn) = writeData b"
  "readDataOrig (set_base_writePair b fn) = readDataOrig b"
  "readPairOrig (set_base_writePair b fn) = readPairOrig b"
  "writeDataOrig (set_base_writePair b fn) = writeDataOrig b"
  by (simp_all add: set_base_writePair_def)

lemma traps_ok_set_base_write:
  "traps_ok b \<Longrightarrow> fn \<noteq> Some WriteDataTrap \<Longrightarrow> traps_ok (set_base_write b fn)"
  by (simp add: traps_ok_def set_base_write_def)

lemma traps_ok_set_base_writePair:
  "traps_ok b \<Longrightarrow> fn \<noteq> Some WritePairTrap \<Longrightarrow> traps_ok (set_base_writePair b fn)"
  by (simp add: traps_ok_def set_base_writePair_def)

lemma shape_ok_set_base [simp]:
  "shape_ok (set_base_write b fn) = shape_ok b"
  "shape_ok (set_base_writePair b gn) = shape_ok b"
  by (simp_all add: shape_ok_def)

lemma ok_values_update:
  "block_ok b \<Longrightarrow> length vs = length (values_blk b) \<Longrightarrow> block_ok (b\<lparr>values_blk := vs\<rparr>)"
  by (simp add: block_ok_def part_defs)

lemma ok_calls_update: "block_ok b \<Longrightarrow> block_ok (b\<lparr>calls := cs\<rparr>)"
  by (simp add: block_ok_def part_defs)

lemma Memory_new_eq:
  "Memory_new hostLE ab bt dw le config =
     (let ty = (case cfg_type config of Some t \<Rightarrow> t | None \<Rightarrow> NONE);
          ub = (bt = STATIC \<and> dw = 8 \<and> ab) in
      \<lparr> addr = cfg_addr config, size_blk = cfg_size config, type = ty,
        bus = bt, dataWidth = dw, dataLimit = 2 ^ dw - 1, pairLimit = 2 ^ (dw * 2) - 1,
        littleEndian = le, LITTLE_ENDIAN = hostLE, buffer = ub,
        values_blk =
          (if ub then
             (case cfg_values config of
                Some vals \<Rightarrow> map (\<lambda>i. if i < length vals then vals ! i mod 256 else 0)
                               [0..<cfg_size config]
              | None \<Rightarrow> replicate (cfg_size config) 0)
           else
             (case cfg_values config of
                Some vals \<Rightarrow> vals
              | None \<Rightarrow> replicate (cfg_size config) (2 ^ dw - 1))),
        fDirty = False, nReadTraps = 0, nWriteTraps = 0, readTrap = None, writeTrap = None,
        readData = Some (if ty = NONE then ReadNone else ReadValue),
        writeData = Some (if ty = READWRITE
                          then (if bt = STATIC then WriteValueDirty else WriteValue)
                          else WriteNone),
        readPair = Some (if ty = NONE then ReadNonePair
                         else if bt = STATIC then
                           (if ub then (if le = hostLE then ReadValuePair16 else ReadValuePair16SE)
                            else (if le then ReadValuePairLE else ReadValuePairBE))
                         else ReadValuePair),
        writePair = Some (if ty = READWRITE
                          then (if bt = STATIC then WriteValuePairDirty else WriteValuePair)
                          else WritePairNone),
        readDataOrig = None, writeDataOrig = None, readPairOrig = None, writePairOrig = None,
        calls = [] \<rparr>)"
proof -
  obtain ty where ty: "(case cfg_type config of Some t \<Rightarrow> t | None \<Rightarrow> NONE) = ty" by simp
  show ?thesis
    unfolding Memory_new_def Let_def ty
    by (cases ty; cases "bt = STATIC \<and> dw = 8 \<and> ab"; cases "cfg_values config")
       (auto simp: initValues_def)
qed

lemma block_ok_new:
  assumes "wf_config config"
  shows "block_ok (Memory_new hostLE ab bt dw le config)"
proof -
  obtain ty where ty: "(case cfg_type config of Some t \<Rightarrow> t | None \<Rightarrow> NONE) = ty" by simp
  show ?thesis
    unfolding Memory_new_eq Let_def ty using assms
    by (cases ty; cases bt; cases "cfg_values config")
       (simp_all add: block_ok_def part_defs base_defs wf_config_def)
qed

subsection \<open>What the write methods change\<close>

lemma store_value_eq:
  "store_value b offset v =
     (if offset < length (values_blk b)
      then Inr (b\<lparr>values_blk := (values_blk b)[offset := stored b v]\<rparr>)
      else Inl OffsetOutsideBlock)"
  by (simp add: store_value_def stored_def)

lemma writeValueDirty_eq:
  "writeValueDirty b offset v =
     (if offset < length (values_blk b)
      then Inr (set_base_write (b\<lparr>values_blk := (values_blk b)[offset := stored b v],
                                  fDirty := True\<rparr>) (Some WriteValue))
      else Inl OffsetOutsideBlock)"
  by (simp add: writeValueDirty_def store_value_eq set_base_write_def Let_def)

lemma only_values_refl: "only_values b b"
  by (simp add: only_values_def)

lemma only_values_upd:
  "length vs = length (values_blk b) \<Longrightarrow> only_values b (b\<lparr>values_blk := vs\<rparr>)"
  by (simp add: only_values_def)

lemma only_values_trans: "only_values b b1 \<Longrightarrow> only_values b1 b2 \<Longrightarrow> only_values b b2"
  unfolding only_values_def
proof (elim conjE, intro conjI)
  assume a: "b1 = b\<lparr>values_blk := values_blk b1\<rparr>" "b2 = b1\<lparr>values_blk := values_blk b2\<rparr>"
  have "b2 = (b\<lparr>values_blk := values_blk b1\<rparr>)\<lparr>values_blk := values_blk b2\<rparr>"
    using a(2) by (subst (asm) a(1)) simp
  then show "b2 = b\<lparr>values_blk := values_blk b2\<rparr>" by simp
next
  assume "length (values_blk b1) = length (values_blk b)"
    "length (values_blk b2) = length (values_blk b1)"
  then show "length (values_blk b2) = length (values_blk b)" by simp
qed

lemma store_value_only:
  "store_value b offset v = Inr b' \<Longrightarrow> only_values b b'"
  by (auto simp: store_value_eq only_values_def split: if_splits)

lemma store_pair_only:
  assumes "store_pair b offset v0 v1 = Inr b'"
  shows "only_values b b'"
proof (cases "store_value b offset v0")
  case (Inl e)
  then show ?thesis using assms by (simp add: store_pair_def)
next
  case (Inr b1)
  then have "store_value b1 (offset + 1) v1 = Inr b'" using assms by (simp add: store_pair_def)
  then show ?thesis using Inr store_value_only only_values_trans by blast
qed

lemma writeValuePair_only:
  assumes "writeValuePair b offset v = Inr b'"
  shows "only_values b b'"
proof -
  define v0 where "v0 = (if littleEndian b then js_and v (dataLimit b) else js_sar v (dataWidth b))"
  define v1 where "v1 = (if littleEndian b then js_sar v (dataWidth b) else js_and v (dataLimit b))"
  have "writeValuePair b offset v = store_pair b offset v0 v1"
    by (simp add: writeValuePair_def store_pair_def writeValue_def v0_def v1_def store_value_eq stored_def)
  then show ?thesis using assms store_pair_only by simp
qed

lemma writeValuePair16_only:
  "writeValuePair16 b offset v = Inr b' \<Longrightarrow> only_values b b'"
  by (auto simp: writeValuePair16_def only_values_def Let_def split: if_splits)

lemma writeValuePair16SE_only:
  "writeValuePair16SE b offset v = Inr b' \<Longrightarrow> only_values b b'"
  by (auto simp: writeValuePair16SE_def only_values_def Let_def split: if_splits)

lemma plain_pair_write_only:
  assumes "fn \<noteq> WriteValuePairDirty" "call_writePair fn b offset v = Inr b'"
  shows "only_values b b'"
proof (cases fn)
  case WritePairNone
  then show ?thesis using assms by (simp add: call_writePair_def writeNone_def only_values_refl)
next
  case WriteValuePair
  then show ?thesis using assms writeValuePair_only by (simp add: call_writePair_def)
next
  case WriteValuePairBE
  then show ?thesis using assms store_pair_only
    by (simp add: call_writePair_def writeValuePairBE_def)
next
  case WriteValuePairLE
  then show ?thesis using assms store_pair_only
    by (simp add: call_writePair_def writeValuePairLE_def)
next
  case WriteValuePair16
  then show ?thesis using assms writeValuePair16_only by (simp add: call_writePair_def)
next
  case WriteValuePair16SE
  then show ?thesis using assms writeValuePair16SE_only by (simp add: call_writePair_def)
next
  case WriteValuePairDirty
  then show ?thesis using assms by simp
next
  case WritePairTrap
  then show ?thesis using assms by (simp add: call_writePair_def)
qed

lemma dirty_target_plain:
  "dirty_target b \<noteq> WritePairNone" "dirty_target b \<noteq> WritePairTrap"
  "dirty_target b \<noteq> WriteValuePairDirty"
  by (simp_all add: dirty_target_def)

lemma writeValuePairDirty_eq:
  "writeValuePairDirty b offset v =
     (case call_writePair (dirty_target b) b offset v of
        Inl e \<Rightarrow> Inl e
      | Inr b1 \<Rightarrow> Inr (set_base_writePair b1 (Some (dirty_target b))))"
  by (cases "buffer b"; cases "littleEndian b"; cases "LITTLE_ENDIAN b")
     (simp_all add: writeValuePairDirty_def dirty_target_def call_writePair_def
        set_base_writePair_def if_distrib [where f = Inr] cong: sum.case_cong)

subsection \<open>Each step keeps the invariant\<close>

lemma ok_only_values: "only_values b b' \<Longrightarrow> block_ok b \<Longrightarrow> block_ok b'"
  unfolding only_values_def
  by (elim conjE, erule ssubst) (rule ok_values_update, simp_all)

lemma only_values_base:
  assumes "only_values b b'"
  shows "base_read b' = base_read b" "base_write b' = base_write b"
    "base_readPair b' = base_readPair b" "base_writePair b' = base_writePair b"
proof -
  have e: "b' = b\<lparr>values_blk := values_blk b'\<rparr>" using assms by (simp add: only_values_def)
  show "base_read b' = base_read b" by (subst e) simp
  show "base_write b' = base_write b" by (subst e) simp
  show "base_readPair b' = base_readPair b" by (subst e) simp
  show "base_writePair b' = base_writePair b" by (subst e) simp
qed

lemma ok_mark_dirty:
  assumes "block_ok b" "base_write b = Some WriteValueDirty"
  shows "block_ok (set_base_write (b\<lparr>fDirty := True\<rparr>) (Some WriteValue))"
proof -
  have ty: "type b = READWRITE" "bus b = STATIC"
    using assms by (cases "type b"; cases "bus b"; simp add: block_ok_def types_ok_def dirty_ok_def)+
  have "traps_ok (b\<lparr>fDirty := True\<rparr>)"
    using assms by (simp add: block_ok_def traps_ok_def)
  then have "traps_ok (set_base_write (b\<lparr>fDirty := True\<rparr>) (Some WriteValue))"
    by (rule traps_ok_set_base_write) simp
  moreover have "shape_ok (set_base_write (b\<lparr>fDirty := True\<rparr>) (Some WriteValue))"
    using assms by (simp add: block_ok_def shape_ok_def)
  moreover have "types_ok (set_base_write (b\<lparr>fDirty := True\<rparr>) (Some WriteValue))"
    using assms ty by (simp add: block_ok_def types_ok_def)
  moreover have "dirty_ok (set_base_write (b\<lparr>fDirty := True\<rparr>) (Some WriteValue))"
    using assms ty by (simp add: block_ok_def dirty_ok_def)
  ultimately show ?thesis by (simp add: block_ok_def)
qed

lemma ok_pair_swap:
  assumes "block_ok b" "base_writePair b = Some WriteValuePairDirty"
    "fn \<noteq> WritePairNone" "fn \<noteq> WritePairTrap"
  shows "block_ok (set_base_writePair b (Some fn))"
proof -
  have ty: "type b = READWRITE"
    using assms by (cases "type b"; simp add: block_ok_def types_ok_def)
  have "traps_ok (set_base_writePair b (Some fn))"
    using assms by (intro traps_ok_set_base_writePair) (simp_all add: block_ok_def)
  moreover have "shape_ok (set_base_writePair b (Some fn))"
    using assms by (simp add: block_ok_def)
  moreover have "types_ok (set_base_writePair b (Some fn))"
    using assms ty by (simp add: block_ok_def types_ok_def)
  moreover have "dirty_ok (set_base_writePair b (Some fn))"
    using assms ty by (simp add: block_ok_def dirty_ok_def)
  ultimately show ?thesis by (simp add: block_ok_def)
qed

lemma call_write_ok:
  assumes "block_ok b" "base_write b = Some fn" "call_write fn b offset v = Inr b'"
  shows "block_ok b'"
proof (cases fn)
  case WriteNone
  then show ?thesis using assms by (simp add: call_write_def writeNone_def)
next
  case WriteValue
  then have "only_values b b'"
    using assms store_value_only by (simp add: call_write_def writeValue_def)
  then show ?thesis using assms(1) by (rule ok_only_values)
next
  case WriteValueDirty
  then have b': "b' = set_base_write (b\<lparr>values_blk := (values_blk b)[offset := stored b v],
                               fDirty := True\<rparr>) (Some WriteValue)"
    using assms by (simp add: call_write_def writeValueDirty_eq split: if_splits)
  have "block_ok (b\<lparr>values_blk := (values_blk b)[offset := stored b v]\<rparr>)"
    using assms by (intro ok_values_update) simp_all
  from ok_mark_dirty [OF this] show ?thesis
    using assms WriteValueDirty by (simp add: b')
next
  case WriteDataTrap
  then show ?thesis using assms by (simp add: call_write_def)
qed

lemma call_writePair_ok:
  assumes "block_ok b" "base_writePair b = Some fn" "call_writePair fn b offset v = Inr b'"
  shows "block_ok b'"
proof (cases "fn = WriteValuePairDirty")
  case True
  show ?thesis
  proof (cases "call_writePair (dirty_target b) b offset v")
    case (Inl e)
    then show ?thesis using assms True by (simp add: call_writePair_def writeValuePairDirty_eq)
  next
    case (Inr b1)
    then have b': "b' = set_base_writePair b1 (Some (dirty_target b))"
      using assms True by (simp add: call_writePair_def writeValuePairDirty_eq)
    have ov: "only_values b b1"
      using plain_pair_write_only [OF dirty_target_plain(3) Inr] .
    then have ok1: "block_ok b1" using assms(1) by (rule ok_only_values)
    have "base_writePair b1 = Some WriteValuePairDirty"
      using ov assms(2) True by (simp add: only_values_base(4))
    from ok_pair_swap [OF ok1 this dirty_target_plain(1,2)] show ?thesis by (simp add: b')
  qed
next
  case False
  from plain_pair_write_only [OF False assms(3)] show ?thesis
    using assms(1) by (rule ok_only_values)
qed

lemma call_trap_ok: "block_ok b \<Longrightarrow> block_ok (call_trap f b offset v)"
  by (simp add: call_trap_def ok_calls_update)

lemma call_trap_fields [simp]:
  "base_write (call_trap f b offset v) = base_write b"
  "base_read (call_trap f b offset v) = base_read b"
  "base_writePair (call_trap f b offset v) = base_writePair b"
  "base_readPair (call_trap f b offset v) = base_readPair b"
  "values_blk (call_trap f b offset v) = values_blk b"
  "type (call_trap f b offset v) = type b"
  "bus (call_trap f b offset v) = bus b"
  "fDirty (call_trap f b offset v) = fDirty b"
  "nReadTraps (call_trap f b offset v) = nReadTraps b"
  "nWriteTraps (call_trap f b offset v) = nWriteTraps b"
  "writeTrap (call_trap f b offset v) = writeTrap b"
  "readTrap (call_trap f b offset v) = readTrap b"
  "writeDataOrig (call_trap f b offset v) = writeDataOrig b"
  "writePairOrig (call_trap f b offset v) = writePairOrig b"
  "readDataOrig (call_trap f b offset v) = readDataOrig b"
  "readPairOrig (call_trap f b offset v) = readPairOrig b"
  "buffer (call_trap f b offset v) = buffer b"
  "size_blk (call_trap f b offset v) = size_blk b"
  "dataLimit (call_trap f b offset v) = dataLimit b"
  "addr (call_trap f b offset v) = addr b"
  by (simp_all add: call_trap_def)

text \<open>How a call through the accessor reduces to the method underneath.\<close>

lemma base_write_Some:
  "block_ok b \<Longrightarrow> \<exists>fn. base_write b = Some fn \<and> fn \<noteq> WriteDataTrap"
  by (cases "type b") (auto simp: block_ok_def types_ok_def)

lemma base_read_Some:
  "block_ok b \<Longrightarrow> \<exists>fn. base_read b = Some fn \<and> fn \<noteq> ReadDataTrap"
  by (auto simp: block_ok_def types_ok_def)

lemma base_writePair_Some:
  "block_ok b \<Longrightarrow> \<exists>fn. base_writePair b = Some fn \<and> fn \<noteq> WritePairTrap"
  by (cases "type b") (auto simp: block_ok_def types_ok_def)

lemma base_readPair_Some:
  "block_ok b \<Longrightarrow> \<exists>fn. base_readPair b = Some fn \<and> fn \<noteq> ReadPairTrap"
  by (cases "type b") (auto simp: block_ok_def types_ok_def)

lemma callWriteData_untrapped:
  assumes "block_ok b" "nWriteTraps b = 0" "base_write b = Some fn"
  shows "callWriteData b offset v = call_write fn b offset v"
proof -
  have "writeData b = Some fn" "fn \<noteq> WriteDataTrap"
    using assms by (auto simp: base_write_def block_ok_def traps_ok_def)
  then show ?thesis by (cases fn) (simp_all add: callWriteData_def)
qed

lemma callWriteData_trapped:
  assumes "block_ok b" "nWriteTraps b \<noteq> 0" "base_write b = Some fn"
  shows "\<exists>func. writeTrap b = Some func
           \<and> callWriteData b offset v = call_write fn (call_trap func b offset v) offset v"
proof -
  have "writeData b = Some WriteDataTrap" "writeDataOrig b = Some fn" "writeTrap b \<noteq> None"
    using assms by (auto simp: base_write_def block_ok_def traps_ok_def)
  then show ?thesis by (auto simp: callWriteData_def writeDataTrap_def Let_def)
qed

lemma callWriteData_ok:
  assumes "block_ok b" "callWriteData b offset v = Inr b'"
  shows "block_ok b'"
proof -
  obtain fn where fn: "base_write b = Some fn" using base_write_Some [OF assms(1)] by blast
  show ?thesis
  proof (cases "nWriteTraps b = 0")
    case True
    then show ?thesis
      using assms fn callWriteData_untrapped [OF assms(1) True fn] call_write_ok by simp
  next
    case False
    from callWriteData_trapped [OF assms(1) False fn, of offset v] obtain func
      where eq: "callWriteData b offset v = call_write fn (call_trap func b offset v) offset v"
      by blast
    show ?thesis
      using call_write_ok [OF call_trap_ok [OF assms(1)], of func offset v fn offset v b']
        fn eq assms(2) by simp
  qed
qed

lemma callWritePair_untrapped:
  assumes "block_ok b" "n = nWriteTraps b" "nWriteTraps b = 0" "base_writePair b = Some fn"
  shows "callWritePair b offset v = call_writePair fn b offset v"
proof -
  have "writePair b = Some fn" "fn \<noteq> WritePairTrap"
    using assms by (auto simp: base_writePair_def block_ok_def traps_ok_def)
  then show ?thesis by (cases fn) (simp_all add: callWritePair_def)
qed

lemma callWritePair_trapped:
  assumes "block_ok b" "nWriteTraps b \<noteq> 0" "base_writePair b = Some fn"
  shows "\<exists>func. writeTrap b = Some func
           \<and> callWritePair b offset v =
               call_writePair fn (call_trap func (call_trap func b offset v) (offset + 1) v) offset v"
proof -
  have "writePair b = Some WritePairTrap" "writePairOrig b = Some fn" "writeTrap b \<noteq> None"
    using assms by (auto simp: base_writePair_def block_ok_def traps_ok_def)
  then show ?thesis by (auto simp: callWritePair_def writePairTrap_def Let_def)
qed

lemma callWritePair_ok:
  assumes "block_ok b" "callWritePair b offset v = Inr b'"
  shows "block_ok b'"
proof -
  obtain fn where fn: "base_writePair b = Some fn"
    using base_writePair_Some [OF assms(1)] by blast
  show ?thesis
  proof (cases "nWriteTraps b = 0")
    case True
    then show ?thesis
      using assms fn callWritePair_untrapped [OF assms(1) refl True fn] call_writePair_ok by simp
  next
    case False
    from callWritePair_trapped [OF assms(1) False fn, of offset v] obtain func
      where eq: "callWritePair b offset v =
         call_writePair fn (call_trap func (call_trap func b offset v) (offset + 1) v) offset v"
      by blast
    have "block_ok (call_trap func (call_trap func b offset v) (offset + 1) v)"
      using assms(1) by (intro call_trap_ok)
    from call_writePair_ok [OF this, of fn offset v b'] show ?thesis
      using fn eq assms(2) by simp
  qed
qed

lemma callReadData_untrapped:
  assumes "block_ok b" "nReadTraps b = 0" "base_read b = Some fn"
  shows "callReadData b offset =
           (case call_read fn b offset of Inl e \<Rightarrow> Inl e | Inr v \<Rightarrow> Inr (v, b))"
proof -
  have "readData b = Some fn" "fn \<noteq> ReadDataTrap"
    using assms by (auto simp: base_read_def block_ok_def traps_ok_def)
  then show ?thesis by (cases fn) (simp_all add: callReadData_def)
qed

lemma callReadData_trapped:
  assumes "block_ok b" "nReadTraps b \<noteq> 0" "base_read b = Some fn"
  shows "\<exists>func. readTrap b = Some func
           \<and> callReadData b offset =
               (case call_read fn b offset of Inl e \<Rightarrow> Inl e
                | Inr v \<Rightarrow> Inr (v, call_trap func b offset v))"
proof -
  have "readData b = Some ReadDataTrap" "readDataOrig b = Some fn" "readTrap b \<noteq> None"
    using assms by (auto simp: base_read_def block_ok_def traps_ok_def)
  then show ?thesis by (auto simp: callReadData_def readDataTrap_def cong: sum.case_cong)
qed

lemma callReadPair_untrapped:
  assumes "block_ok b" "nReadTraps b = 0" "base_readPair b = Some fn"
  shows "callReadPair b offset =
           (case call_readPair fn b offset of Inl e \<Rightarrow> Inl e | Inr v \<Rightarrow> Inr (v, b))"
proof -
  have "readPair b = Some fn" "fn \<noteq> ReadPairTrap"
    using assms by (auto simp: base_readPair_def block_ok_def traps_ok_def)
  then show ?thesis by (cases fn) (simp_all add: callReadPair_def)
qed

lemma callReadPair_trapped:
  assumes "block_ok b" "nReadTraps b \<noteq> 0" "base_readPair b = Some fn"
  shows "\<exists>func. readTrap b = Some func
           \<and> callReadPair b offset =
               (case call_readPair fn b offset of Inl e \<Rightarrow> Inl e
                | Inr v \<Rightarrow> Inr (v, call_trap func (call_trap func b offset v) (offset + 1) v))"
proof -
  have "readPair b = Some ReadPairTrap" "readPairOrig b = Some fn" "readTrap b \<noteq> None"
    using assms by (auto simp: base_readPair_def block_ok_def traps_ok_def)
  then show ?thesis by (auto simp: callReadPair_def readPairTrap_def cong: sum.case_cong)
qed

lemma callReadData_ok:
  assumes "block_ok b" "callReadData b offset = Inr (v, b')"
  shows "block_ok b'"
proof -
  obtain fn where fn: "base_read b = Some fn" using base_read_Some [OF assms(1)] by blast
  show ?thesis
  proof (cases "nReadTraps b = 0")
    case True
    then have "b' = b"
      using assms(2) callReadData_untrapped [OF assms(1) True fn, of offset]
      by (cases "call_read fn b offset") simp_all
    then show ?thesis using assms(1) by simp
  next
    case False
    from callReadData_trapped [OF assms(1) False fn, of offset] obtain func
      where eq: "callReadData b offset =
               (case call_read fn b offset of Inl e \<Rightarrow> Inl e
                | Inr v \<Rightarrow> Inr (v, call_trap func b offset v))" by blast
    then have "b' = call_trap func b offset v"
      using assms(2) by (cases "call_read fn b offset") simp_all
    then show ?thesis using assms(1) call_trap_ok by simp
  qed
qed

lemma callReadPair_ok:
  assumes "block_ok b" "callReadPair b offset = Inr (v, b')"
  shows "block_ok b'"
proof -
  obtain fn where fn: "base_readPair b = Some fn" using base_readPair_Some [OF assms(1)] by blast
  show ?thesis
  proof (cases "nReadTraps b = 0")
    case True
    then have "b' = b"
      using assms(2) callReadPair_untrapped [OF assms(1) True fn, of offset]
      by (cases "call_readPair fn b offset") simp_all
    then show ?thesis using assms(1) by simp
  next
    case False
    from callReadPair_trapped [OF assms(1) False fn, of offset] obtain func
      where eq: "callReadPair b offset =
               (case call_readPair fn b offset of Inl e \<Rightarrow> Inl e
                | Inr v \<Rightarrow> Inr (v, call_trap func (call_trap func b offset v) (offset + 1) v))"
      by blast
    then have "b' = call_trap func (call_trap func b offset v) (offset + 1) v"
      using assms(2) by (cases "call_readPair fn b offset") simp_all
    then show ?thesis using assms(1) call_trap_ok by simp
  qed
qed

lemma isDirty_eq:
  "isDirty b =
     (if fDirty b
      then (True, set_base_writePair (set_base_write (b\<lparr>fDirty := False\<rparr>)
              (Some WriteValueDirty)) (Some WriteValuePairDirty))
      else (False, b))"
  by (simp add: isDirty_def set_base_write_def set_base_writePair_def Let_def)

lemma isDirty_ok:
  assumes "block_ok b"
  shows "block_ok (snd (isDirty b))"
proof (cases "fDirty b")
  case False
  then show ?thesis using assms by (simp add: isDirty_eq)
next
  case True
  then have ty: "type b = READWRITE" "bus b = STATIC"
    using assms by (simp_all add: block_ok_def dirty_ok_def)
  let ?b1 = "set_base_write (b\<lparr>fDirty := False\<rparr>) (Some WriteValueDirty)"
  let ?b2 = "set_base_writePair ?b1 (Some WriteValuePairDirty)"
  have t0: "traps_ok (b\<lparr>fDirty := False\<rparr>)" using assms by (simp add: block_ok_def traps_ok_def)
  have "traps_ok ?b1" by (rule traps_ok_set_base_write [OF t0]) simp
  then have "traps_ok ?b2" by (rule traps_ok_set_base_writePair) simp
  moreover have "shape_ok ?b2" using assms by (simp add: block_ok_def shape_ok_def)
  moreover have "types_ok ?b2" using assms ty by (simp add: block_ok_def types_ok_def)
  moreover have "dirty_ok ?b2" using assms ty by (simp add: block_ok_def dirty_ok_def)
  ultimately show ?thesis using True by (simp add: isDirty_eq block_ok_def)
qed

lemma onReset_ok: "block_ok b \<Longrightarrow> block_ok (onReset b)"
  by (simp add: onReset_def ok_values_update)

lemma trapRead_ok:
  assumes "block_ok b"
  shows "block_ok (snd (trapRead b func))"
proof (cases "nReadTraps b = 0")
  case True
  then show ?thesis using assms
    by (simp add: trapRead_def block_ok_def part_defs base_defs split: if_splits)
next
  case False
  then show ?thesis using assms
    by (simp add: trapRead_def block_ok_def part_defs base_defs split: if_splits)
qed

lemma trapWrite_ok:
  assumes "block_ok b"
  shows "block_ok (snd (trapWrite b func))"
proof (cases "nWriteTraps b = 0")
  case True
  then show ?thesis using assms
    by (simp add: trapWrite_def block_ok_def part_defs base_defs split: if_splits)
next
  case False
  then show ?thesis using assms
    by (simp add: trapWrite_def block_ok_def part_defs base_defs split: if_splits)
qed

lemma untrapRead_ok:
  assumes "block_ok b"
  shows "block_ok (snd (untrapRead b func))"
proof (cases "nReadTraps b \<noteq> 0 \<and> readTrap b = Some func")
  case False
  then show ?thesis using assms by (auto simp: untrapRead_def)
next
  case True
  show ?thesis
  proof (cases "nReadTraps b - 1 = 0")
    case one: True
    then show ?thesis using assms True
      by (simp add: untrapRead_def Let_def block_ok_def part_defs base_defs split: if_splits)
  next
    case more: False
    then show ?thesis using assms True
      by (simp add: untrapRead_def Let_def block_ok_def part_defs base_defs split: if_splits)
  qed
qed

lemma untrapWrite_ok:
  assumes "block_ok b"
  shows "block_ok (snd (untrapWrite b func))"
proof (cases "nWriteTraps b \<noteq> 0 \<and> writeTrap b = Some func")
  case False
  then show ?thesis using assms by (auto simp: untrapWrite_def)
next
  case True
  show ?thesis
  proof (cases "nWriteTraps b - 1 = 0")
    case one: True
    then show ?thesis using assms True
      by (cases "type b = READWRITE")
         (auto simp: untrapWrite_def Let_def block_ok_def part_defs base_defs split: if_splits)
  next
    case more: False
    then show ?thesis using assms True
      by (cases "type b = READWRITE")
         (auto simp: untrapWrite_def Let_def block_ok_def part_defs base_defs split: if_splits)
  qed
qed

lemma reachable_ok: "reachable b \<Longrightarrow> block_ok b"
proof (induction rule: reachable.induct)
  case (r_new config hostLE arrayBuffer busType busDataWidth busLittleEndian)
  then show ?case by (rule block_ok_new)
next
  case (r_read b offset v b')
  then show ?case using callReadData_ok by blast
next
  case (r_write b offset v b')
  then show ?case using callWriteData_ok by blast
next
  case (r_readPair b offset v b')
  then show ?case using callReadPair_ok by blast
next
  case (r_writePair b offset v b')
  then show ?case using callWritePair_ok by blast
next
  case (r_isDirty b)
  then show ?case by (simp add: isDirty_ok)
next
  case (r_onReset b)
  then show ?case by (simp add: onReset_ok)
next
  case (r_trapRead b func)
  then show ?case by (simp add: trapRead_ok)
next
  case (r_trapWrite b func)
  then show ?case by (simp add: trapWrite_ok)
next
  case (r_untrapRead b func)
  then show ?case by (simp add: untrapRead_ok)
next
  case (r_untrapWrite b func)
  then show ?case by (simp add: untrapWrite_ok)
qed

subsection \<open>Writing and reading back\<close>

lemma call_write_value:
  assumes "fn = WriteValue \<or> fn = WriteValueDirty" "offset < length (values_blk b)"
  shows "\<exists>b'. call_write fn b offset v = Inr b'
           \<and> values_blk b' = (values_blk b)[offset := stored b v]
           \<and> fDirty b' = (fDirty b \<or> fn = WriteValueDirty)
           \<and> type b' = type b \<and> bus b' = bus b"
  using assms
  by (cases fn) (simp_all add: call_write_def writeValue_def store_value_eq writeValueDirty_eq)

lemma callWriteData_base:
  assumes "block_ok b" "base_write b = Some fn"
  shows "\<exists>b0. callWriteData b offset v = call_write fn b0 offset v
           \<and> values_blk b0 = values_blk b \<and> fDirty b0 = fDirty b \<and> buffer b0 = buffer b
           \<and> type b0 = type b \<and> bus b0 = bus b"
proof (cases "nWriteTraps b = 0")
  case True
  have "callWriteData b offset v = call_write fn b offset v
           \<and> values_blk b = values_blk b \<and> fDirty b = fDirty b \<and> buffer b = buffer b
           \<and> type b = type b \<and> bus b = bus b"
    using callWriteData_untrapped [OF assms(1) True assms(2)] by simp
  then show ?thesis by (rule exI)
next
  case False
  from callWriteData_trapped [OF assms(1) False assms(2), of offset v] obtain func
    where eq: "callWriteData b offset v = call_write fn (call_trap func b offset v) offset v"
    by blast
  have "callWriteData b offset v = call_write fn (call_trap func b offset v) offset v
           \<and> values_blk (call_trap func b offset v) = values_blk b
           \<and> fDirty (call_trap func b offset v) = fDirty b
           \<and> buffer (call_trap func b offset v) = buffer b
           \<and> type (call_trap func b offset v) = type b
           \<and> bus (call_trap func b offset v) = bus b"
    using eq by simp
  then show ?thesis by (rule exI)
qed

lemma stored_in_range:
  assumes "shape_ok b" "buffer b \<longrightarrow> 0 \<le> v \<and> v \<le> dataLimit b"
  shows "stored b v = v"
proof (cases "buffer b")
  case True
  then have "dataLimit b = 255" using assms(1) by (simp add: shape_ok_def)
  then show ?thesis using True assms(2) by (simp add: stored_def)
next
  case False
  then show ?thesis by (simp add: stored_def)
qed

lemma callReadData_value:
  assumes "block_ok b" "type b \<noteq> NONE" "offset < length (values_blk b)"
  shows "\<exists>b'. callReadData b offset = Inr (values_blk b ! offset, b')"
proof -
  have fn: "base_read b = Some ReadValue"
    using assms by (simp add: block_ok_def types_ok_def)
  have rd: "call_read ReadValue b offset = Inr (values_blk b ! offset)"
    using assms(3) by (simp add: call_read_def readValue_def load_value_def)
  show ?thesis
  proof (cases "nReadTraps b = 0")
    case True
    have "callReadData b offset = Inr (values_blk b ! offset, b)"
      using callReadData_untrapped [OF assms(1) True fn, of offset] rd by simp
    then show ?thesis by (rule exI)
  next
    case False
    from callReadData_trapped [OF assms(1) False fn, of offset] obtain func
      where "callReadData b offset =
               Inr (values_blk b ! offset, call_trap func b offset (values_blk b ! offset))"
      using rd by auto
    then show ?thesis by (rule exI)
  qed
qed

lemma write_then_read:
  assumes ok: "block_ok b" and rw: "type b = READWRITE" and off: "offset < size_blk b"
    and v: "buffer b \<longrightarrow> 0 \<le> v \<and> v \<le> dataLimit b"
  shows "\<exists>b' b''. callWriteData b offset v = Inr b' \<and> callReadData b' offset = Inr (v, b'')
           \<and> (bus b = STATIC \<longrightarrow> fDirty b') \<and> (bus b = DYNAMIC \<longrightarrow> \<not> fDirty b')"
proof -
  have len: "length (values_blk b) = size_blk b" and sh: "shape_ok b"
    using ok by (simp_all add: block_ok_def shape_ok_def)
  obtain fn where fn: "base_write b = Some fn" using base_write_Some [OF ok] by blast
  have fn_rw: "fn = WriteValue \<or> fn = WriteValueDirty"
    using ok rw fn by (simp add: block_ok_def types_ok_def)
  from callWriteData_base [OF ok fn, of offset v] obtain b0
    where b0: "callWriteData b offset v = call_write fn b0 offset v"
      "values_blk b0 = values_blk b" "fDirty b0 = fDirty b" "buffer b0 = buffer b"
      "type b0 = type b" "bus b0 = bus b"
    by blast
  from call_write_value [OF fn_rw, of offset b0 v] obtain b'
    where b': "call_write fn b0 offset v = Inr b'"
      "values_blk b' = (values_blk b0)[offset := stored b0 v]"
      "fDirty b' = (fDirty b0 \<or> fn = WriteValueDirty)"
      "type b' = type b0" "bus b' = bus b0"
    using off len b0(2) by auto
  have wr: "callWriteData b offset v = Inr b'" using b0(1) b'(1) by simp
  have ok': "block_ok b'" using callWriteData_ok [OF ok wr] .
  have st: "stored b0 v = v"
    using stored_in_range [OF sh v] b0(4) by (simp add: stored_def)
  have val: "values_blk b' ! offset = v" "offset < length (values_blk b')"
    using b'(2) b0(2) off len st by simp_all
  have "type b' \<noteq> NONE" using b'(4) b0(5) rw by simp
  from callReadData_value [OF ok' this val(2)] obtain b''
    where rd: "callReadData b' offset = Inr (v, b'')" using val(1) by auto
  have d1: "bus b = STATIC \<longrightarrow> fDirty b'"
    using ok fn fn_rw b'(3) b0(3) by (auto simp: block_ok_def dirty_ok_def)
  have d2: "bus b = DYNAMIC \<longrightarrow> \<not> fDirty b'"
    using ok fn fn_rw b'(3) b0(3) by (auto simp: block_ok_def dirty_ok_def)
  have "callWriteData b offset v = Inr b' \<and> callReadData b' offset = Inr (v, b'')
           \<and> (bus b = STATIC \<longrightarrow> fDirty b') \<and> (bus b = DYNAMIC \<longrightarrow> \<not> fDirty b')"
    using wr rd d1 d2 by simp
  then show ?thesis by (intro exI)
qed

lemma write_discarded:
  assumes ok: "block_ok b" and ty: "type b \<noteq> READWRITE"
  shows "\<exists>b'. callWriteData b offset v = Inr b' \<and> values_blk b' = values_blk b"
proof -
  have fn: "base_write b = Some WriteNone"
    using ok ty by (simp add: block_ok_def types_ok_def)
  from callWriteData_base [OF ok fn, of offset v] obtain b0
    where b0: "callWriteData b offset v = call_write WriteNone b0 offset v"
      "values_blk b0 = values_blk b" by blast
  have "callWriteData b offset v = Inr b0 \<and> values_blk b0 = values_blk b"
    using b0 by (simp add: call_write_def writeNone_def)
  then show ?thesis by (rule exI)
qed

lemma read_none:
  assumes ok: "block_ok b" and ty: "type b = NONE"
  shows "\<exists>b'. callReadData b offset = Inr (2 ^ dataWidth b - 1, b')"
proof -
  have fn: "base_read b = Some ReadNone"
    using ok ty by (simp add: block_ok_def types_ok_def)
  have dl: "dataLimit b = 2 ^ dataWidth b - 1" using ok by (simp add: block_ok_def shape_ok_def)
  have rd: "call_read ReadNone b offset = Inr (2 ^ dataWidth b - 1)"
    using dl by (simp add: call_read_def readNone_def)
  show ?thesis
  proof (cases "nReadTraps b = 0")
    case True
    have "callReadData b offset = Inr (2 ^ dataWidth b - 1, b)"
      using callReadData_untrapped [OF ok True fn, of offset] rd by simp
    then show ?thesis by (rule exI)
  next
    case False
    from callReadData_trapped [OF ok False fn, of offset] obtain func
      where "callReadData b offset =
               Inr (2 ^ dataWidth b - 1, call_trap func b offset (2 ^ dataWidth b - 1))"
      using rd by auto
    then show ?thesis by (rule exI)
  qed
qed

text \<open>
  Claim C1, as amended. In every state of a block and at every offset inside it: on a
  READWRITE block a write followed by a read of the same offset succeeds and returns the
  value written, for any number when the storage is a plain array and for a byte
  \<open>0..dataLimit\<close> when it is a byte buffer; after the write the dirty flag is set when the
  block belongs to a static bus and is clear when it belongs to a dynamic bus. On a NONE
  or READONLY block a write succeeds and leaves the stored values as they were. A read of
  a NONE block returns \<open>2 ^ dataWidth - 1\<close>.
\<close>

theorem block_write_read:
  assumes "reachable b" "offset < size_blk b"
  shows "(type b = READWRITE \<and> (buffer b \<longrightarrow> 0 \<le> v \<and> v \<le> dataLimit b) \<longrightarrow>
            (\<exists>b' b''. callWriteData b offset v = Inr b' \<and> callReadData b' offset = Inr (v, b'')
               \<and> (bus b = STATIC \<longrightarrow> fDirty b') \<and> (bus b = DYNAMIC \<longrightarrow> \<not> fDirty b')))
         \<and> (type b \<noteq> READWRITE \<longrightarrow>
              (\<exists>b'. callWriteData b offset v = Inr b' \<and> values_blk b' = values_blk b))
         \<and> (type b = NONE \<longrightarrow>
              (\<exists>b'. callReadData b offset = Inr (2 ^ dataWidth b - 1, b')))"
  using write_then_read [OF reachable_ok [OF assms(1)] _ assms(2)]
    write_discarded [OF reachable_ok [OF assms(1)]]
    read_none [OF reachable_ok [OF assms(1)]]
  by blast

theorem block_write_read_witness:
  "(\<exists>b' b''. callWriteData (Memory_new True True STATIC 8 True
        \<lparr>cfg_addr = Some 0, cfg_size = 4, cfg_type = Some READWRITE, cfg_values = None\<rparr>) 1 200
        = Inr b' \<and> callReadData b' 1 = Inr (200, b'') \<and> fDirty b')
   \<and> (\<exists>b'. callReadData (Memory_new True True STATIC 8 True
        \<lparr>cfg_addr = None, cfg_size = 4, cfg_type = None, cfg_values = None\<rparr>) 1
        = Inr (255, b'))"
proof -
  let ?rw = "Memory_new True True STATIC 8 True
        \<lparr>cfg_addr = Some 0, cfg_size = 4, cfg_type = Some READWRITE, cfg_values = None\<rparr>"
  let ?none = "Memory_new True True STATIC 8 True
        \<lparr>cfg_addr = None, cfg_size = 4, cfg_type = None, cfg_values = None\<rparr>"
  have r: "reachable ?rw" "reachable ?none"
    by (rule r_new, simp add: wf_config_def)+
  have f: "size_blk ?rw = 4" "type ?rw = READWRITE" "buffer ?rw" "bus ?rw = STATIC"
    "dataLimit ?rw = 255" "size_blk ?none = 4" "type ?none = NONE" "dataWidth ?none = 8"
    by (simp_all add: Memory_new_eq)
  have o: "(1::nat) < size_blk ?rw" "(1::nat) < size_blk ?none" using f by simp_all
  show ?thesis
    using block_write_read [OF r(1) o(1), of 200] block_write_read [OF r(2) o(2), of 0] f
    by simp
qed

text \<open>
  The claim as first stated fails on a dynamic bus: the write to a READWRITE block stores
  the value and leaves the dirty flag clear.
\<close>

theorem block_write_dirty_counterexample:
  "reachable (Memory_new True True DYNAMIC 8 True
        \<lparr>cfg_addr = Some 0, cfg_size = 4, cfg_type = Some READWRITE, cfg_values = None\<rparr>)
   \<and> type (Memory_new True True DYNAMIC 8 True
        \<lparr>cfg_addr = Some 0, cfg_size = 4, cfg_type = Some READWRITE, cfg_values = None\<rparr>)
       = READWRITE
   \<and> (\<exists>b'. callWriteData (Memory_new True True DYNAMIC 8 True
        \<lparr>cfg_addr = Some 0, cfg_size = 4, cfg_type = Some READWRITE, cfg_values = None\<rparr>) 0 5
        = Inr b' \<and> values_blk b' = [5, 255, 255, 255] \<and> \<not> fDirty b')"
proof -
  let ?b = "Memory_new True True DYNAMIC 8 True
        \<lparr>cfg_addr = Some 0, cfg_size = 4, cfg_type = Some READWRITE, cfg_values = None\<rparr>"
  have r: "reachable ?b" by (rule r_new) (simp add: wf_config_def)
  have "callWriteData ?b 0 5 = Inr (?b\<lparr>values_blk := [5, 255, 255, 255]\<rparr>)"
    by (simp add: Memory_new_eq callWriteData_def call_write_def writeValue_def store_value_def
          eval_nat_numeral)
  moreover have "\<not> fDirty (?b\<lparr>values_blk := [5, 255, 255, 255]\<rparr>)" "type ?b = READWRITE"
    by (simp_all add: Memory_new_eq)
  ultimately show ?thesis using r by simp
qed

text \<open>A byte buffer keeps a value modulo 256: 256 is read back as 0.\<close>

lemma byte_buffer_truncates:
  "\<exists>b' b''. callWriteData (Memory_new True True STATIC 8 True
        \<lparr>cfg_addr = Some 0, cfg_size = 4, cfg_type = Some READWRITE, cfg_values = None\<rparr>) 0 256
        = Inr b' \<and> callReadData b' 0 = Inr (0, b'')"
  by (simp add: Memory_new_eq callWriteData_def call_write_def writeValueDirty_def store_value_def
        callReadData_def call_read_def readValue_def load_value_def eval_nat_numeral)

subsection \<open>Traps: what a trapped access does\<close>

lemma call_read_ok_offset:
  assumes "block_ok b" "base_read b = Some fn" "offset < size_blk b"
  shows "\<exists>v. call_read fn b offset = Inr v"
proof -
  have "fn = ReadNone \<or> fn = ReadValue"
    using assms(1,2) by (simp add: block_ok_def types_ok_def split: if_splits)
  moreover have "offset < length (values_blk b)"
    using assms(1,3) by (simp add: block_ok_def shape_ok_def)
  ultimately show ?thesis
    by (auto simp: call_read_def readNone_def readValue_def load_value_def)
qed

lemma call_write_calls:
  assumes "fn \<noteq> WriteDataTrap" "offset < length (values_blk b)"
  shows "\<exists>b'. call_write fn b offset v = Inr b' \<and> calls b' = calls b"
  using assms
  by (cases fn)
     (simp_all add: call_write_def writeNone_def writeValue_def store_value_eq writeValueDirty_eq)

lemma call_trap_eq:
  "call_trap func b offset v =
     b\<lparr>calls := calls b @ [TrapCall func (addr b) offset v (values_blk b) (fDirty b)]\<rparr>"
  by (simp add: call_trap_def)

lemma trapped_read:
  assumes ok: "block_ok b" and off: "offset < size_blk b" and tr: "nReadTraps b \<noteq> 0"
  shows "\<exists>fn func v. readDataOrig b = Some fn \<and> readTrap b = Some func
           \<and> call_read fn b offset = Inr v
           \<and> callReadData b offset =
               Inr (v, b\<lparr>calls := calls b @
                      [TrapCall func (addr b) offset v (values_blk b) (fDirty b)]\<rparr>)"
proof -
  obtain fn where fn: "base_read b = Some fn" using base_read_Some [OF ok] by blast
  then have orig: "readDataOrig b = Some fn" using tr by (simp add: base_read_def)
  obtain v where v: "call_read fn b offset = Inr v"
    using call_read_ok_offset [OF ok fn off] by blast
  from callReadData_trapped [OF ok tr fn, of offset] obtain func
    where func: "readTrap b = Some func"
      and eq: "callReadData b offset = Inr (v, call_trap func b offset v)"
    using v by auto
  have "readDataOrig b = Some fn \<and> readTrap b = Some func
           \<and> call_read fn b offset = Inr v
           \<and> callReadData b offset =
               Inr (v, b\<lparr>calls := calls b @
                      [TrapCall func (addr b) offset v (values_blk b) (fDirty b)]\<rparr>)"
    using orig func v eq by (simp add: call_trap_eq)
  then show ?thesis by (intro exI)
qed

lemma trapped_write:
  assumes ok: "block_ok b" and off: "offset < size_blk b" and tr: "nWriteTraps b \<noteq> 0"
  shows "\<exists>fn func b'. writeDataOrig b = Some fn \<and> writeTrap b = Some func
           \<and> callWriteData b offset v =
               call_write fn (b\<lparr>calls := calls b @
                      [TrapCall func (addr b) offset v (values_blk b) (fDirty b)]\<rparr>) offset v
           \<and> callWriteData b offset v = Inr b'
           \<and> calls b' = calls b @ [TrapCall func (addr b) offset v (values_blk b) (fDirty b)]"
proof -
  obtain fn where fn: "base_write b = Some fn" "fn \<noteq> WriteDataTrap"
    using base_write_Some [OF ok] by blast
  then have orig: "writeDataOrig b = Some fn" using tr by (simp add: base_write_def)
  from callWriteData_trapped [OF ok tr fn(1), of offset v] obtain func
    where func: "writeTrap b = Some func"
      and eq: "callWriteData b offset v = call_write fn (call_trap func b offset v) offset v"
    by blast
  have "offset < length (values_blk (call_trap func b offset v))"
    using ok off by (simp add: block_ok_def shape_ok_def)
  from call_write_calls [OF fn(2) this, of v] obtain b'
    where b': "call_write fn (call_trap func b offset v) offset v = Inr b'"
      "calls b' = calls (call_trap func b offset v)" by blast
  have "writeDataOrig b = Some fn \<and> writeTrap b = Some func
           \<and> callWriteData b offset v =
               call_write fn (b\<lparr>calls := calls b @
                      [TrapCall func (addr b) offset v (values_blk b) (fDirty b)]\<rparr>) offset v
           \<and> callWriteData b offset v = Inr b'
           \<and> calls b' = calls b @ [TrapCall func (addr b) offset v (values_blk b) (fDirty b)]"
    using orig func eq b' by (simp add: call_trap_eq)
  then show ?thesis by (intro exI)
qed

text \<open>
  Claim C4. While a read trap is installed, a single-unit read at an offset inside the
  block reads through the saved original accessor, then calls the trap callback with the
  block's base address (or nothing), the offset and the value read, and returns that
  value. While a write trap is installed, a single-unit write calls the trap callback
  with the base address, the offset and the value to be written, while the stored values
  are still those from before the write, and then writes through the saved original.
\<close>

theorem trap_call_order:
  assumes "reachable b" "offset < size_blk b"
  shows "(nReadTraps b \<noteq> 0 \<longrightarrow>
            (\<exists>fn func v. readDataOrig b = Some fn \<and> readTrap b = Some func
               \<and> call_read fn b offset = Inr v
               \<and> callReadData b offset =
                   Inr (v, b\<lparr>calls := calls b @
                          [TrapCall func (addr b) offset v (values_blk b) (fDirty b)]\<rparr>)))
         \<and> (nWriteTraps b \<noteq> 0 \<longrightarrow>
            (\<exists>fn func b'. writeDataOrig b = Some fn \<and> writeTrap b = Some func
               \<and> callWriteData b offset w =
                   call_write fn (b\<lparr>calls := calls b @
                          [TrapCall func (addr b) offset w (values_blk b) (fDirty b)]\<rparr>) offset w
               \<and> callWriteData b offset w = Inr b'
               \<and> calls b' = calls b @
                          [TrapCall func (addr b) offset w (values_blk b) (fDirty b)]))"
  using trapped_read [OF reachable_ok [OF assms(1)] assms(2)]
    trapped_write [OF reachable_ok [OF assms(1)] assms(2)]
  by blast

theorem trap_call_order_witness:
  "(\<exists>v b'. callReadData (snd (trapWrite (snd (trapRead (Memory_new True False STATIC 16 True
          \<lparr>cfg_addr = Some 1024, cfg_size = 4, cfg_type = Some READWRITE,
            cfg_values = Some [10, 11, 12, 13]\<rparr>) 7)) 9)) 1 = Inr (v, b')
        \<and> v = 11 \<and> calls b' = [TrapCall 7 (Some 1024) 1 11 [10, 11, 12, 13] False])
   \<and> (\<exists>b'. callWriteData (snd (trapWrite (snd (trapRead (Memory_new True False STATIC 16 True
          \<lparr>cfg_addr = Some 1024, cfg_size = 4, cfg_type = Some READWRITE,
            cfg_values = Some [10, 11, 12, 13]\<rparr>) 7)) 9)) 1 42 = Inr b'
        \<and> calls b' = [TrapCall 9 (Some 1024) 1 42 [10, 11, 12, 13] False])"
proof -
  let ?b0 = "Memory_new True False STATIC 16 True
          \<lparr>cfg_addr = Some 1024, cfg_size = 4, cfg_type = Some READWRITE,
            cfg_values = Some [10, 11, 12, 13]\<rparr>"
  let ?b = "snd (trapWrite (snd (trapRead ?b0 7)) 9)"
  have r: "reachable ?b"
    by (intro r_trapWrite r_trapRead r_new) (simp add: wf_config_def)
  have f: "size_blk ?b = 4" "readTrap ?b = Some 7"
    "writeTrap ?b = Some 9" "readDataOrig ?b = Some ReadValue"
    "calls ?b = []" "addr ?b = Some 1024"
    "values_blk ?b = [10, 11, 12, 13]" "fDirty ?b = False"
    by (simp_all add: Memory_new_eq trapRead_def trapWrite_def)
  have nz: "nReadTraps ?b \<noteq> 0" "nWriteTraps ?b \<noteq> 0"
    by (simp_all add: Memory_new_eq trapRead_def trapWrite_def)
  have o: "(1::nat) < size_blk ?b" using f by simp
  have rd: "call_read ReadValue ?b 1 = Inr 11"
    by (simp add: call_read_def readValue_def load_value_def f)
  from trap_call_order [OF r o, of 42] nz obtain fn func v fn' func' b'
    where a: "readDataOrig ?b = Some fn" "readTrap ?b = Some func"
      "call_read fn ?b 1 = Inr v"
      "callReadData ?b 1 = Inr (v, ?b\<lparr>calls := calls ?b @
            [TrapCall func (addr ?b) 1 v (values_blk ?b) (fDirty ?b)]\<rparr>)"
    and w: "writeTrap ?b = Some func'" "callWriteData ?b 1 42 = Inr b'"
      "calls b' = calls ?b @ [TrapCall func' (addr ?b) 1 42 (values_blk ?b) (fDirty ?b)]"
    by blast
  have v: "fn = ReadValue" "func = 7" "func' = 9" using a(1,2) w(1) f by simp_all
  then have v11: "v = 11" using a(3) rd by simp
  have "callReadData ?b 1 = Inr (11, ?b\<lparr>calls := [TrapCall 7 (Some 1024) 1 11 [10, 11, 12, 13] False]\<rparr>)
        \<and> (11::int) = 11
        \<and> calls (?b\<lparr>calls := [TrapCall 7 (Some 1024) 1 11 [10, 11, 12, 13] False]\<rparr>)
            = [TrapCall 7 (Some 1024) 1 11 [10, 11, 12, 13] False]"
    using a(4) v v11 f by simp
  then have 1: "\<exists>v b'. callReadData ?b 1 = Inr (v, b') \<and> v = 11
        \<and> calls b' = [TrapCall 7 (Some 1024) 1 11 [10, 11, 12, 13] False]"
    by (intro exI)
  have "callWriteData ?b 1 42 = Inr b'
        \<and> calls b' = [TrapCall 9 (Some 1024) 1 42 [10, 11, 12, 13] False]"
    using w v f by simp
  then have 2: "\<exists>b'. callWriteData ?b 1 42 = Inr b'
        \<and> calls b' = [TrapCall 9 (Some 1024) 1 42 [10, 11, 12, 13] False]"
    by (intro exI)
  from 1 2 show ?thesis by (rule conjI)
qed

subsection \<open>Traps on pair accesses\<close>

lemma pair_index:
  fixes offset n :: nat
  assumes "offset + 1 < n"
  shows "offset div 2 < n div 2" "2 * (offset div 2) + 1 < n"
  using assms by presburger+

lemma call_readPair_ok_offset:
  assumes "block_ok b" "base_readPair b = Some fn" "offset + 1 < size_blk b"
  shows "\<exists>v. call_readPair fn b offset = Inr v"
proof -
  have len: "length (values_blk b) = size_blk b"
    using assms(1) by (simp add: block_ok_def shape_ok_def)
  have nt: "fn \<noteq> ReadPairTrap"
    using assms(1,2) by (cases "type b = NONE") (auto simp: block_ok_def types_ok_def)
  show ?thesis
  proof (cases fn)
    case ReadNonePair
    then show ?thesis by (simp add: call_readPair_def readNonePair_def readNone_def)
  next
    case ReadValuePair
    then show ?thesis using assms(3) len
      by (simp add: call_readPair_def readValuePair_def pair_of_def load_value_def)
  next
    case ReadValuePairBE
    then show ?thesis using assms(3) len
      by (simp add: call_readPair_def readValuePairBE_def pair_of_def load_value_def)
  next
    case ReadValuePairLE
    then show ?thesis using assms(3) len
      by (simp add: call_readPair_def readValuePairLE_def pair_of_def load_value_def)
  next
    case ReadValuePair16
    then show ?thesis using pair_index [OF assms(3)] len
      by (simp add: call_readPair_def readValuePair16_def Let_def)
  next
    case ReadValuePair16SE
    then show ?thesis using assms(3) len
      by (simp add: call_readPair_def readValuePair16SE_def)
  next
    case ReadPairTrap
    then show ?thesis using nt by simp
  qed
qed

lemma store_pair_success:
  assumes "offset + 1 < length (values_blk b)"
  shows "\<exists>b'. store_pair b offset v0 v1 = Inr b'"
  using assms by (simp add: store_pair_def store_value_eq)

lemma plain_pair_write_success:
  assumes "fn \<noteq> WriteValuePairDirty" "fn \<noteq> WritePairTrap"
    "offset + 1 < length (values_blk b)" "length (values_blk b) = size_blk b"
  shows "\<exists>b'. call_writePair fn b offset v = Inr b'"
proof (cases fn)
  case WritePairNone
  then show ?thesis by (simp add: call_writePair_def writeNone_def)
next
  case WriteValuePair
  then show ?thesis using assms(3)
    by (simp add: call_writePair_def writeValuePair_def writeValue_def store_value_eq)
next
  case WriteValuePairBE
  then show ?thesis using store_pair_success [OF assms(3)]
    by (simp add: call_writePair_def writeValuePairBE_def)
next
  case WriteValuePairLE
  then show ?thesis using store_pair_success [OF assms(3)]
    by (simp add: call_writePair_def writeValuePairLE_def)
next
  case WriteValuePair16
  then show ?thesis using pair_index [OF assms(3)] assms(4)
    by (simp add: call_writePair_def writeValuePair16_def Let_def)
next
  case WriteValuePair16SE
  then show ?thesis using assms(3)
    by (simp add: call_writePair_def writeValuePair16SE_def Let_def)
next
  case WriteValuePairDirty
  then show ?thesis using assms by simp
next
  case WritePairTrap
  then show ?thesis using assms by simp
qed

lemma only_values_calls: "only_values b b' \<Longrightarrow> calls b' = calls b"
  unfolding only_values_def by (elim conjE, erule ssubst) simp

lemma call_writePair_calls:
  assumes "fn \<noteq> WritePairTrap" "offset + 1 < length (values_blk b)"
    "length (values_blk b) = size_blk b"
  shows "\<exists>b'. call_writePair fn b offset v = Inr b' \<and> calls b' = calls b"
proof (cases "fn = WriteValuePairDirty")
  case False
  from plain_pair_write_success [OF False assms, of v] obtain b'
    where b': "call_writePair fn b offset v = Inr b'" by blast
  from plain_pair_write_only [OF False b'] have "calls b' = calls b"
    by (rule only_values_calls)
  then have "call_writePair fn b offset v = Inr b' \<and> calls b' = calls b" using b' by simp
  then show ?thesis by (rule exI)
next
  case True
  from plain_pair_write_success [OF dirty_target_plain(3,2) assms(2,3), of b v] obtain b1
    where b1: "call_writePair (dirty_target b) b offset v = Inr b1" by blast
  from plain_pair_write_only [OF dirty_target_plain(3) b1] have c: "calls b1 = calls b"
    by (rule only_values_calls)
  have "call_writePair fn b offset v = Inr (set_base_writePair b1 (Some (dirty_target b)))
        \<and> calls (set_base_writePair b1 (Some (dirty_target b))) = calls b"
    using True b1 c by (simp add: call_writePair_def writeValuePairDirty_eq)
  then show ?thesis by (rule exI)
qed

lemma trapped_readPair:
  assumes ok: "block_ok b" and off: "offset + 1 < size_blk b" and tr: "nReadTraps b \<noteq> 0"
  shows "\<exists>fn func v. readPairOrig b = Some fn \<and> readTrap b = Some func
           \<and> call_readPair fn b offset = Inr v
           \<and> callReadPair b offset =
               Inr (v, b\<lparr>calls := calls b @
                      [TrapCall func (addr b) offset v (values_blk b) (fDirty b),
                       TrapCall func (addr b) (offset + 1) v (values_blk b) (fDirty b)]\<rparr>)"
proof -
  obtain fn where fn: "base_readPair b = Some fn" using base_readPair_Some [OF ok] by blast
  then have orig: "readPairOrig b = Some fn" using tr by (simp add: base_readPair_def)
  obtain v where v: "call_readPair fn b offset = Inr v"
    using call_readPair_ok_offset [OF ok fn off] by blast
  from callReadPair_trapped [OF ok tr fn, of offset] obtain func
    where func: "readTrap b = Some func"
      and eq: "callReadPair b offset =
                 Inr (v, call_trap func (call_trap func b offset v) (offset + 1) v)"
    using v by auto
  have "readPairOrig b = Some fn \<and> readTrap b = Some func
           \<and> call_readPair fn b offset = Inr v
           \<and> callReadPair b offset =
               Inr (v, b\<lparr>calls := calls b @
                      [TrapCall func (addr b) offset v (values_blk b) (fDirty b),
                       TrapCall func (addr b) (offset + 1) v (values_blk b) (fDirty b)]\<rparr>)"
    using orig func v eq by (simp add: call_trap_eq)
  then show ?thesis by (intro exI)
qed

lemma trapped_writePair:
  assumes ok: "block_ok b" and off: "offset + 1 < size_blk b" and tr: "nWriteTraps b \<noteq> 0"
  shows "\<exists>fn func b'. writePairOrig b = Some fn \<and> writeTrap b = Some func
           \<and> callWritePair b offset v =
               call_writePair fn (b\<lparr>calls := calls b @
                      [TrapCall func (addr b) offset v (values_blk b) (fDirty b),
                       TrapCall func (addr b) (offset + 1) v (values_blk b) (fDirty b)]\<rparr>)
                 offset v
           \<and> callWritePair b offset v = Inr b'
           \<and> calls b' = calls b @
                      [TrapCall func (addr b) offset v (values_blk b) (fDirty b),
                       TrapCall func (addr b) (offset + 1) v (values_blk b) (fDirty b)]"
proof -
  obtain fn where fn: "base_writePair b = Some fn" "fn \<noteq> WritePairTrap"
    using base_writePair_Some [OF ok] by blast
  then have orig: "writePairOrig b = Some fn" using tr by (simp add: base_writePair_def)
  from callWritePair_trapped [OF ok tr fn(1), of offset v] obtain func
    where func: "writeTrap b = Some func"
      and eq: "callWritePair b offset v =
         call_writePair fn (call_trap func (call_trap func b offset v) (offset + 1) v) offset v"
    by blast
  let ?b2 = "call_trap func (call_trap func b offset v) (offset + 1) v"
  have len: "offset + 1 < length (values_blk ?b2)" "length (values_blk ?b2) = size_blk ?b2"
    using ok off by (simp_all add: block_ok_def shape_ok_def)
  from call_writePair_calls [OF fn(2) len, of v] obtain b'
    where b': "call_writePair fn ?b2 offset v = Inr b'" "calls b' = calls ?b2" by blast
  have "writePairOrig b = Some fn \<and> writeTrap b = Some func
           \<and> callWritePair b offset v =
               call_writePair fn (b\<lparr>calls := calls b @
                      [TrapCall func (addr b) offset v (values_blk b) (fDirty b),
                       TrapCall func (addr b) (offset + 1) v (values_blk b) (fDirty b)]\<rparr>)
                 offset v
           \<and> callWritePair b offset v = Inr b'
           \<and> calls b' = calls b @
                      [TrapCall func (addr b) offset v (values_blk b) (fDirty b),
                       TrapCall func (addr b) (offset + 1) v (values_blk b) (fDirty b)]"
    using orig func eq b' by (simp add: call_trap_eq)
  then show ?thesis by (intro exI)
qed

text \<open>
  Claim C10. While a read trap is installed, a pair read at an offset whose pair lies
  inside the block reads the pair through the saved original pair accessor, then calls
  the trap callback twice, with the offset and with the offset plus one, each time with
  the whole pair value, and returns that value. While a write trap is installed, a pair
  write calls the trap callback twice in the same way with the whole pair value, while
  the stored values are still those from before the write, and then writes through the
  saved original pair accessor.
\<close>

theorem pair_trap_calls:
  assumes "reachable b" "offset + 1 < size_blk b"
  shows "(nReadTraps b \<noteq> 0 \<longrightarrow>
            (\<exists>fn func v. readPairOrig b = Some fn \<and> readTrap b = Some func
               \<and> call_readPair fn b offset = Inr v
               \<and> callReadPair b offset =
                   Inr (v, b\<lparr>calls := calls b @
                      [TrapCall func (addr b) offset v (values_blk b) (fDirty b),
                       TrapCall func (addr b) (offset + 1) v (values_blk b) (fDirty b)]\<rparr>)))
         \<and> (nWriteTraps b \<noteq> 0 \<longrightarrow>
            (\<exists>fn func b'. writePairOrig b = Some fn \<and> writeTrap b = Some func
               \<and> callWritePair b offset w =
                   call_writePair fn (b\<lparr>calls := calls b @
                      [TrapCall func (addr b) offset w (values_blk b) (fDirty b),
                       TrapCall func (addr b) (offset + 1) w (values_blk b) (fDirty b)]\<rparr>)
                     offset w
               \<and> callWritePair b offset w = Inr b'
               \<and> calls b' = calls b @
                      [TrapCall func (addr b) offset w (values_blk b) (fDirty b),
                       TrapCall func (addr b) (offset + 1) w (values_blk b) (fDirty b)]))"
  using trapped_readPair [OF reachable_ok [OF assms(1)] assms(2)]
    trapped_writePair [OF reachable_ok [OF assms(1)] assms(2)]
  by blast

theorem pair_trap_calls_witness:
  "(\<exists>b'. callReadPair (snd (trapWrite (snd (trapRead (Memory_new True True STATIC 8 True
          \<lparr>cfg_addr = Some 0, cfg_size = 4, cfg_type = Some READWRITE,
            cfg_values = Some [52, 18, 120, 86]\<rparr>) 7)) 9)) 0 = Inr (4660, b')
        \<and> calls b' = [TrapCall 7 (Some 0) 0 4660 [52, 18, 120, 86] False,
                       TrapCall 7 (Some 0) 1 4660 [52, 18, 120, 86] False])
   \<and> (\<exists>b'. callWritePair (snd (trapWrite (snd (trapRead (Memory_new True True STATIC 8 True
          \<lparr>cfg_addr = Some 0, cfg_size = 4, cfg_type = Some READWRITE,
            cfg_values = Some [52, 18, 120, 86]\<rparr>) 7)) 9)) 2 43981 = Inr b'
        \<and> calls b' = [TrapCall 9 (Some 0) 2 43981 [52, 18, 120, 86] False,
                       TrapCall 9 (Some 0) 3 43981 [52, 18, 120, 86] False])"
proof -
  let ?b0 = "Memory_new True True STATIC 8 True
          \<lparr>cfg_addr = Some 0, cfg_size = 4, cfg_type = Some READWRITE,
            cfg_values = Some [52, 18, 120, 86]\<rparr>"
  let ?b = "snd (trapWrite (snd (trapRead ?b0 7)) 9)"
  have r: "reachable ?b"
    by (intro r_trapWrite r_trapRead r_new) (simp add: wf_config_def)
  have vals: "map (\<lambda>i. if i < length [52, 18, 120, 86::int]
                        then [52, 18, 120, 86] ! i mod 256 else 0) [0..<4]
      = [52, 18, 120, 86::int]"
    by code_simp
  have f: "size_blk ?b = 4" "readTrap ?b = Some 7"
    "writeTrap ?b = Some 9" "readPairOrig ?b = Some ReadValuePair16"
    "calls ?b = []" "addr ?b = Some 0"
    "values_blk ?b = [52, 18, 120, 86]" "fDirty ?b = False" "LITTLE_ENDIAN ?b"
    by (simp_all add: Memory_new_eq trapRead_def trapWrite_def vals del: length_Cons list.size)
  have nz: "nReadTraps ?b \<noteq> 0" "nWriteTraps ?b \<noteq> 0"
    by (simp_all add: Memory_new_eq trapRead_def trapWrite_def)
  have o: "(0::nat) + 1 < size_blk ?b" "(2::nat) + 1 < size_blk ?b" using f by simp_all
  have rd: "call_readPair ReadValuePair16 ?b 0 = Inr 4660"
    by (simp add: call_readPair_def readValuePair16_def f)
  from pair_trap_calls [OF r o(1), of 0] nz(1) obtain fn func v
    where a: "readPairOrig ?b = Some fn" "readTrap ?b = Some func"
      "call_readPair fn ?b 0 = Inr v"
      "callReadPair ?b 0 = Inr (v, ?b\<lparr>calls := calls ?b @
            [TrapCall func (addr ?b) 0 v (values_blk ?b) (fDirty ?b),
             TrapCall func (addr ?b) (0 + 1) v (values_blk ?b) (fDirty ?b)]\<rparr>)"
    by blast
  have v: "fn = ReadValuePair16" "func = 7" using a(1,2) f by simp_all
  then have v1: "v = 4660" using a(3) rd by simp
  have "callReadPair ?b 0 = Inr (4660, ?b\<lparr>calls :=
            [TrapCall 7 (Some 0) 0 4660 [52, 18, 120, 86] False,
             TrapCall 7 (Some 0) 1 4660 [52, 18, 120, 86] False]\<rparr>)
        \<and> calls (?b\<lparr>calls :=
            [TrapCall 7 (Some 0) 0 4660 [52, 18, 120, 86] False,
             TrapCall 7 (Some 0) 1 4660 [52, 18, 120, 86] False]\<rparr>)
            = [TrapCall 7 (Some 0) 0 4660 [52, 18, 120, 86] False,
               TrapCall 7 (Some 0) 1 4660 [52, 18, 120, 86] False]"
    using a(4) v v1 f by simp
  then have 1: "\<exists>b'. callReadPair ?b 0 = Inr (4660, b')
        \<and> calls b' = [TrapCall 7 (Some 0) 0 4660 [52, 18, 120, 86] False,
                       TrapCall 7 (Some 0) 1 4660 [52, 18, 120, 86] False]"
    by (intro exI)
  from pair_trap_calls [OF r o(2), of 43981] nz(2) obtain fn' func' b'
    where w: "writeTrap ?b = Some func'" "callWritePair ?b 2 43981 = Inr b'"
      "calls b' = calls ?b @
            [TrapCall func' (addr ?b) 2 43981 (values_blk ?b) (fDirty ?b),
             TrapCall func' (addr ?b) (2 + 1) 43981 (values_blk ?b) (fDirty ?b)]"
    by blast
  have "func' = 9" using w(1) f by simp
  then have "callWritePair ?b 2 43981 = Inr b'
        \<and> calls b' = [TrapCall 9 (Some 0) 2 43981 [52, 18, 120, 86] False,
                       TrapCall 9 (Some 0) 3 43981 [52, 18, 120, 86] False]"
    using w f by simp
  then have 2: "\<exists>b'. callWritePair ?b 2 43981 = Inr b'
        \<and> calls b' = [TrapCall 9 (Some 0) 2 43981 [52, 18, 120, 86] False,
                       TrapCall 9 (Some 0) 3 43981 [52, 18, 120, 86] False]"
    by (intro exI)
  from 1 2 show ?thesis by (rule conjI)
qed

subsection \<open>Traps: installing and removing\<close>

lemma trapRead_first:
  "nReadTraps b = 0 \<Longrightarrow>
     trapRead b f = (True, b\<lparr>nReadTraps := 1, readTrap := Some f,
        readDataOrig := readData b, readPairOrig := readPair b,
        readData := Some ReadDataTrap, readPair := Some ReadPairTrap\<rparr>)"
  by (simp add: trapRead_def)

lemma trapRead_again:
  "nReadTraps b \<noteq> 0 \<Longrightarrow> readTrap b = Some f \<Longrightarrow>
     trapRead b f = (True, b\<lparr>nReadTraps := nReadTraps b + 1\<rparr>)"
  by (simp add: trapRead_def)

lemma trapRead_other:
  "nReadTraps b \<noteq> 0 \<Longrightarrow> readTrap b = Some f \<Longrightarrow> g \<noteq> f \<Longrightarrow> trapRead b g = (False, b)"
  by (simp add: trapRead_def)

lemma untrapRead_more:
  "1 < nReadTraps b \<Longrightarrow> readTrap b = Some f \<Longrightarrow>
     untrapRead b f = (True, b\<lparr>nReadTraps := nReadTraps b - 1\<rparr>)"
  by (simp add: untrapRead_def Let_def)

lemma untrapRead_last:
  "nReadTraps b = 1 \<Longrightarrow> readTrap b = Some f \<Longrightarrow>
     untrapRead b f = (True, b\<lparr>nReadTraps := 0, readData := readDataOrig b,
        readPair := readPairOrig b, readDataOrig := None, readPairOrig := None,
        readTrap := None\<rparr>)"
  by (simp add: untrapRead_def Let_def)

lemma trapWrite_first:
  "nWriteTraps b = 0 \<Longrightarrow>
     trapWrite b f = (True, b\<lparr>nWriteTraps := 1, writeTrap := Some f,
        writeDataOrig := writeData b, writePairOrig := writePair b,
        writeData := Some WriteDataTrap, writePair := Some WritePairTrap\<rparr>)"
  by (simp add: trapWrite_def)

lemma trapWrite_again:
  "nWriteTraps b \<noteq> 0 \<Longrightarrow> writeTrap b = Some f \<Longrightarrow>
     trapWrite b f = (True, b\<lparr>nWriteTraps := nWriteTraps b + 1\<rparr>)"
  by (simp add: trapWrite_def)

lemma trapWrite_other:
  "nWriteTraps b \<noteq> 0 \<Longrightarrow> writeTrap b = Some f \<Longrightarrow> g \<noteq> f \<Longrightarrow> trapWrite b g = (False, b)"
  by (simp add: trapWrite_def)

lemma untrapWrite_more:
  "1 < nWriteTraps b \<Longrightarrow> writeTrap b = Some f \<Longrightarrow>
     untrapWrite b f = (True, b\<lparr>nWriteTraps := nWriteTraps b - 1\<rparr>)"
  by (simp add: untrapWrite_def Let_def)

lemma untrapWrite_last:
  "nWriteTraps b = 1 \<Longrightarrow> writeTrap b = Some f \<Longrightarrow>
     untrapWrite b f = (True, b\<lparr>nWriteTraps := 0, writeData := writeDataOrig b,
        writePair := writePairOrig b, writeDataOrig := None, writePairOrig := None,
        writeTrap := None\<rparr>)"
  by (simp add: untrapWrite_def Let_def)

lemma untrapped_read:
  assumes ok: "block_ok b" and off: "offset < size_blk b" and tr: "nReadTraps b = 0"
  shows "\<exists>v. callReadData b offset = Inr (v, b)"
proof -
  obtain fn where fn: "base_read b = Some fn" using base_read_Some [OF ok] by blast
  obtain v where v: "call_read fn b offset = Inr v"
    using call_read_ok_offset [OF ok fn off] by blast
  have "callReadData b offset = Inr (v, b)"
    using callReadData_untrapped [OF ok tr fn, of offset] v by simp
  then show ?thesis by (rule exI)
qed

lemma untrapped_write:
  assumes ok: "block_ok b" and off: "offset < size_blk b" and tr: "nWriteTraps b = 0"
  shows "\<exists>b'. callWriteData b offset v = Inr b' \<and> calls b' = calls b"
proof -
  obtain fn where fn: "base_write b = Some fn" "fn \<noteq> WriteDataTrap"
    using base_write_Some [OF ok] by blast
  have "offset < length (values_blk b)" using ok off by (simp add: block_ok_def shape_ok_def)
  from call_write_calls [OF fn(2) this, of v] show ?thesis
    using callWriteData_untrapped [OF ok tr fn(1), of offset v] by simp
qed

lemma read_trap_nesting:
  assumes r: "reachable b" and off: "offset < size_blk b" and gf: "g \<noteq> f"
    and n0: "nReadTraps b = 0"
  shows "let b1 = snd (trapRead b f); b2 = snd (trapRead b1 f);
             b3 = snd (untrapRead b2 f); b4 = snd (untrapRead b3 f)
         in fst (trapRead b f) \<and> fst (trapRead b1 f) \<and> nReadTraps b2 = 2
            \<and> \<not> fst (trapRead b1 g) \<and> snd (trapRead b1 g) = b1
            \<and> \<not> fst (trapRead b2 g) \<and> snd (trapRead b2 g) = b2
            \<and> fst (untrapRead b2 f) \<and> nReadTraps b3 = 1
            \<and> (\<exists>v b'. callReadData b3 offset = Inr (v, b')
                  \<and> calls b' = calls b3 @
                       [TrapCall f (addr b3) offset v (values_blk b3) (fDirty b3)])
            \<and> fst (untrapRead b3 f) \<and> nReadTraps b4 = 0
            \<and> (\<exists>v. callReadData b4 offset = Inr (v, b4))"
proof -
  define b1 where "b1 = snd (trapRead b f)"
  define b2 where "b2 = snd (trapRead b1 f)"
  define b3 where "b3 = snd (untrapRead b2 f)"
  define b4 where "b4 = snd (untrapRead b3 f)"
  have f1: "fst (trapRead b f)" "nReadTraps b1 = 1" "readTrap b1 = Some f"
    "size_blk b1 = size_blk b"
    using n0 by (simp_all add: b1_def trapRead_first)
  have f2: "fst (trapRead b1 f)" "nReadTraps b2 = 2" "readTrap b2 = Some f"
    "size_blk b2 = size_blk b"
    using f1 by (simp_all add: b2_def trapRead_again)
  have g1: "\<not> fst (trapRead b1 g)" "snd (trapRead b1 g) = b1"
    using f1 gf by (simp_all add: trapRead_other)
  have g2: "\<not> fst (trapRead b2 g)" "snd (trapRead b2 g) = b2"
    using f2 gf by (simp_all add: trapRead_other)
  have f3: "fst (untrapRead b2 f)" "nReadTraps b3 = 1" "readTrap b3 = Some f"
    "size_blk b3 = size_blk b"
    using f2 by (simp_all add: b3_def untrapRead_more)
  have f4: "fst (untrapRead b3 f)" "nReadTraps b4 = 0" "size_blk b4 = size_blk b"
    using f3 by (simp_all add: b4_def untrapRead_last)
  have r3: "reachable b3" unfolding b3_def b2_def b1_def
    by (intro r_untrapRead r_trapRead r)
  have r4: "reachable b4" unfolding b4_def by (intro r_untrapRead r3)
  from trapped_read [OF reachable_ok [OF r3], of offset] off f3
  obtain fn func v where t: "readTrap b3 = Some func"
    "callReadData b3 offset =
       Inr (v, b3\<lparr>calls := calls b3 @
              [TrapCall func (addr b3) offset v (values_blk b3) (fDirty b3)]\<rparr>)"
    by auto
  have "func = f" using t(1) f3 by simp
  then have "callReadData b3 offset =
       Inr (v, b3\<lparr>calls := calls b3 @ [TrapCall f (addr b3) offset v (values_blk b3) (fDirty b3)]\<rparr>)
     \<and> calls (b3\<lparr>calls := calls b3 @ [TrapCall f (addr b3) offset v (values_blk b3) (fDirty b3)]\<rparr>)
        = calls b3 @ [TrapCall f (addr b3) offset v (values_blk b3) (fDirty b3)]"
    using t(2) by simp
  then have rd3: "\<exists>v b'. callReadData b3 offset = Inr (v, b')
                  \<and> calls b' = calls b3 @
                       [TrapCall f (addr b3) offset v (values_blk b3) (fDirty b3)]"
    by (intro exI)
  have rd4: "\<exists>v. callReadData b4 offset = Inr (v, b4)"
    using untrapped_read [OF reachable_ok [OF r4], of offset] off f4 by simp
  show ?thesis
    unfolding Let_def b1_def [symmetric] b2_def [symmetric] b3_def [symmetric] b4_def [symmetric]
    using f1 f2 g1 g2 f3 f4 rd3 rd4 by simp
qed

lemma write_trap_nesting:
  assumes r: "reachable b" and off: "offset < size_blk b" and gf: "g \<noteq> f"
    and n0: "nWriteTraps b = 0"
  shows "let b1 = snd (trapWrite b f); b2 = snd (trapWrite b1 f);
             b3 = snd (untrapWrite b2 f); b4 = snd (untrapWrite b3 f)
         in fst (trapWrite b f) \<and> fst (trapWrite b1 f) \<and> nWriteTraps b2 = 2
            \<and> \<not> fst (trapWrite b1 g) \<and> snd (trapWrite b1 g) = b1
            \<and> \<not> fst (trapWrite b2 g) \<and> snd (trapWrite b2 g) = b2
            \<and> fst (untrapWrite b2 f) \<and> nWriteTraps b3 = 1
            \<and> (\<exists>b'. callWriteData b3 offset w = Inr b'
                  \<and> calls b' = calls b3 @
                       [TrapCall f (addr b3) offset w (values_blk b3) (fDirty b3)])
            \<and> fst (untrapWrite b3 f) \<and> nWriteTraps b4 = 0
            \<and> (\<exists>b'. callWriteData b4 offset w = Inr b' \<and> calls b' = calls b4)"
proof -
  define b1 where "b1 = snd (trapWrite b f)"
  define b2 where "b2 = snd (trapWrite b1 f)"
  define b3 where "b3 = snd (untrapWrite b2 f)"
  define b4 where "b4 = snd (untrapWrite b3 f)"
  have f1: "fst (trapWrite b f)" "nWriteTraps b1 = 1" "writeTrap b1 = Some f"
    "size_blk b1 = size_blk b"
    using n0 by (simp_all add: b1_def trapWrite_first)
  have f2: "fst (trapWrite b1 f)" "nWriteTraps b2 = 2" "writeTrap b2 = Some f"
    "size_blk b2 = size_blk b"
    using f1 by (simp_all add: b2_def trapWrite_again)
  have g1: "\<not> fst (trapWrite b1 g)" "snd (trapWrite b1 g) = b1"
    using f1 gf by (simp_all add: trapWrite_other)
  have g2: "\<not> fst (trapWrite b2 g)" "snd (trapWrite b2 g) = b2"
    using f2 gf by (simp_all add: trapWrite_other)
  have f3: "fst (untrapWrite b2 f)" "nWriteTraps b3 = 1" "writeTrap b3 = Some f"
    "size_blk b3 = size_blk b"
    using f2 by (simp_all add: b3_def untrapWrite_more)
  have f4: "fst (untrapWrite b3 f)" "nWriteTraps b4 = 0" "size_blk b4 = size_blk b"
    using f3 by (simp_all add: b4_def untrapWrite_last)
  have r3: "reachable b3" unfolding b3_def b2_def b1_def
    by (intro r_untrapWrite r_trapWrite r)
  have r4: "reachable b4" unfolding b4_def by (intro r_untrapWrite r3)
  from trapped_write [OF reachable_ok [OF r3], of offset w] off f3
  obtain func b' where t: "writeTrap b3 = Some func"
    "callWriteData b3 offset w = Inr b'"
    "calls b' = calls b3 @ [TrapCall func (addr b3) offset w (values_blk b3) (fDirty b3)]"
    by auto
  have "func = f" using t(1) f3 by simp
  then have "callWriteData b3 offset w = Inr b'
     \<and> calls b' = calls b3 @ [TrapCall f (addr b3) offset w (values_blk b3) (fDirty b3)]"
    using t(2,3) by simp
  then have wr3: "\<exists>b'. callWriteData b3 offset w = Inr b'
                  \<and> calls b' = calls b3 @
                       [TrapCall f (addr b3) offset w (values_blk b3) (fDirty b3)]"
    by (intro exI)
  have wr4: "\<exists>b'. callWriteData b4 offset w = Inr b' \<and> calls b' = calls b4"
    using untrapped_write [OF reachable_ok [OF r4], of offset w] off f4 by simp
  show ?thesis
    unfolding Let_def b1_def [symmetric] b2_def [symmetric] b3_def [symmetric] b4_def [symmetric]
    using f1 f2 g1 g2 f3 f4 wr3 wr4 by simp
qed

text \<open>
  Claim C3. On a block with no read trap installed, for callbacks \<open>f\<close> and \<open>g \<noteq> f\<close>:
  \<open>trapRead(f)\<close> returns true, and a second \<open>trapRead(f)\<close> returns true and brings the
  reference count to two; \<open>trapRead(g)\<close> returns false and changes nothing while \<open>f\<close> is
  installed; one \<open>untrapRead(f)\<close> returns true and leaves the trap installed, so that a
  read still calls \<open>f\<close>; a second \<open>untrapRead(f)\<close> returns true and removes the trap, so
  that a read calls no callback and leaves the block as it is. The same holds for
  \<open>trapWrite\<close> and \<open>untrapWrite\<close> with writes.
\<close>

theorem trap_nesting:
  assumes "reachable b" "offset < size_blk b" "g \<noteq> f"
  shows "(nReadTraps b = 0 \<longrightarrow>
          (let b1 = snd (trapRead b f); b2 = snd (trapRead b1 f);
               b3 = snd (untrapRead b2 f); b4 = snd (untrapRead b3 f)
           in fst (trapRead b f) \<and> fst (trapRead b1 f) \<and> nReadTraps b2 = 2
              \<and> \<not> fst (trapRead b1 g) \<and> snd (trapRead b1 g) = b1
              \<and> \<not> fst (trapRead b2 g) \<and> snd (trapRead b2 g) = b2
              \<and> fst (untrapRead b2 f) \<and> nReadTraps b3 = 1
              \<and> (\<exists>v b'. callReadData b3 offset = Inr (v, b')
                    \<and> calls b' = calls b3 @
                         [TrapCall f (addr b3) offset v (values_blk b3) (fDirty b3)])
              \<and> fst (untrapRead b3 f) \<and> nReadTraps b4 = 0
              \<and> (\<exists>v. callReadData b4 offset = Inr (v, b4))))
       \<and> (nWriteTraps b = 0 \<longrightarrow>
          (let b1 = snd (trapWrite b f); b2 = snd (trapWrite b1 f);
               b3 = snd (untrapWrite b2 f); b4 = snd (untrapWrite b3 f)
           in fst (trapWrite b f) \<and> fst (trapWrite b1 f) \<and> nWriteTraps b2 = 2
              \<and> \<not> fst (trapWrite b1 g) \<and> snd (trapWrite b1 g) = b1
              \<and> \<not> fst (trapWrite b2 g) \<and> snd (trapWrite b2 g) = b2
              \<and> fst (untrapWrite b2 f) \<and> nWriteTraps b3 = 1
              \<and> (\<exists>b'. callWriteData b3 offset w = Inr b'
                    \<and> calls b' = calls b3 @
                         [TrapCall f (addr b3) offset w (values_blk b3) (fDirty b3)])
              \<and> fst (untrapWrite b3 f) \<and> nWriteTraps b4 = 0
              \<and> (\<exists>b'. callWriteData b4 offset w = Inr b' \<and> calls b' = calls b4)))"
proof (intro conjI impI)
  assume "nReadTraps b = 0"
  from read_trap_nesting [OF assms this]
  show "let b1 = snd (trapRead b f); b2 = snd (trapRead b1 f);
               b3 = snd (untrapRead b2 f); b4 = snd (untrapRead b3 f)
           in fst (trapRead b f) \<and> fst (trapRead b1 f) \<and> nReadTraps b2 = 2
              \<and> \<not> fst (trapRead b1 g) \<and> snd (trapRead b1 g) = b1
              \<and> \<not> fst (trapRead b2 g) \<and> snd (trapRead b2 g) = b2
              \<and> fst (untrapRead b2 f) \<and> nReadTraps b3 = 1
              \<and> (\<exists>v b'. callReadData b3 offset = Inr (v, b')
                    \<and> calls b' = calls b3 @
                         [TrapCall f (addr b3) offset v (values_blk b3) (fDirty b3)])
              \<and> fst (untrapRead b3 f) \<and> nReadTraps b4 = 0
              \<and> (\<exists>v. callReadData b4 offset = Inr (v, b4))" .
next
  assume "nWriteTraps b = 0"
  from write_trap_nesting [OF assms this]
  show "let b1 = snd (trapWrite b f); b2 = snd (trapWrite b1 f);
               b3 = snd (untrapWrite b2 f); b4 = snd (untrapWrite b3 f)
           in fst (trapWrite b f) \<and> fst (trapWrite b1 f) \<and> nWriteTraps b2 = 2
              \<and> \<not> fst (trapWrite b1 g) \<and> snd (trapWrite b1 g) = b1
              \<and> \<not> fst (trapWrite b2 g) \<and> snd (trapWrite b2 g) = b2
              \<and> fst (untrapWrite b2 f) \<and> nWriteTraps b3 = 1
              \<and> (\<exists>b'. callWriteData b3 offset w = Inr b'
                    \<and> calls b' = calls b3 @
                         [TrapCall f (addr b3) offset w (values_blk b3) (fDirty b3)])
              \<and> fst (untrapWrite b3 f) \<and> nWriteTraps b4 = 0
              \<and> (\<exists>b'. callWriteData b4 offset w = Inr b' \<and> calls b' = calls b4)" .
qed

theorem trap_nesting_witness:
  "(let b = Memory_new True False STATIC 16 True
          \<lparr>cfg_addr = Some 1024, cfg_size = 4, cfg_type = Some READWRITE,
            cfg_values = Some [10, 11, 12, 13]\<rparr>;
        b1 = snd (trapRead b 7); b2 = snd (trapRead b1 7);
        b3 = snd (untrapRead b2 7); b4 = snd (untrapRead b3 7)
    in fst (trapRead b 7) \<and> fst (trapRead b1 7) \<and> \<not> fst (trapRead b1 8)
       \<and> fst (untrapRead b2 7)
       \<and> (\<exists>v b'. callReadData b3 1 = Inr (v, b')
             \<and> calls b' = calls b3 @ [TrapCall 7 (addr b3) 1 v (values_blk b3) (fDirty b3)])
       \<and> fst (untrapRead b3 7) \<and> (\<exists>v. callReadData b4 1 = Inr (v, b4)))
   \<and> (let b = Memory_new True False STATIC 16 True
          \<lparr>cfg_addr = Some 1024, cfg_size = 4, cfg_type = Some READWRITE,
            cfg_values = Some [10, 11, 12, 13]\<rparr>;
        b1 = snd (trapWrite b 7); b2 = snd (trapWrite b1 7);
        b3 = snd (untrapWrite b2 7); b4 = snd (untrapWrite b3 7)
    in fst (trapWrite b 7) \<and> fst (trapWrite b1 7) \<and> \<not> fst (trapWrite b1 8)
       \<and> fst (untrapWrite b2 7)
       \<and> (\<exists>b'. callWriteData b3 1 42 = Inr b'
             \<and> calls b' = calls b3 @ [TrapCall 7 (addr b3) 1 42 (values_blk b3) (fDirty b3)])
       \<and> fst (untrapWrite b3 7)
       \<and> (\<exists>b'. callWriteData b4 1 42 = Inr b' \<and> calls b' = calls b4))"
proof -
  let ?b = "Memory_new True False STATIC 16 True
          \<lparr>cfg_addr = Some 1024, cfg_size = 4, cfg_type = Some READWRITE,
            cfg_values = Some [10, 11, 12, 13]\<rparr>"
  have r: "reachable ?b" by (rule r_new) (simp add: wf_config_def)
  have o: "(1::nat) < size_blk ?b" and n0: "nReadTraps ?b = 0" "nWriteTraps ?b = 0"
    by (simp_all add: Memory_new_eq)
  have gf: "(8::nat) \<noteq> 7" by simp
  from trap_nesting [OF r o gf, of 42] n0 show ?thesis
    unfolding Let_def by blast
qed

section \<open>Properties of block registration\<close>

lemma loop_aligned:
  "addBlocks_loop this ty None (int i * int (blockSize this)) s off i =
     (if s > 0 \<and> i < length (blocks this) then
        (if s < int (blockSize this) \<or> occupied (blocks this ! i) then (False, this)
         else addBlocks_loop (this\<lparr>blocks := (blocks this)[i := Some (slot_block this ty i)]\<rparr>)
                ty None (int (i + 1) * int (blockSize this)) (s - int (blockSize this))
                (off + blockSize this) (i + 1))
      else (True, this))"
  by (subst addBlocks_loop.simps)
     (auto simp: Let_def occupied_def slot_block_def algebra_simps split: option.splits)

lemma loop_misaligned:
  "a \<noteq> int i * int (blockSize this) \<Longrightarrow>
   addBlocks_loop this ty None a s off i =
     (if s > 0 \<and> i < length (blocks this) then (False, this) else (True, this))"
  by (subst addBlocks_loop.simps) (simp add: Let_def)

lemma loop_done:
  "\<not> (s > 0 \<and> i < length (blocks this)) \<Longrightarrow>
   addBlocks_loop this ty None (int i * int (blockSize this)) s off i = (True, this)"
  by (subst loop_aligned, rule if_not_P)

lemma loop_fail:
  "s > 0 \<and> i < length (blocks this) \<Longrightarrow>
   s < int (blockSize this) \<or> occupied (blocks this ! i) \<Longrightarrow>
   addBlocks_loop this ty None (int i * int (blockSize this)) s off i = (False, this)"
  by (subst loop_aligned) (simp only: if_P)

lemma loop_go:
  "s > 0 \<and> i < length (blocks this) \<Longrightarrow>
   \<not> (s < int (blockSize this) \<or> occupied (blocks this ! i)) \<Longrightarrow>
   addBlocks_loop this ty None (int i * int (blockSize this)) s off i =
     addBlocks_loop (this\<lparr>blocks := (blocks this)[i := Some (slot_block this ty i)]\<rparr>)
                ty None (int (i + 1) * int (blockSize this)) (s - int (blockSize this))
                (off + blockSize this) (i + 1)"
  by (subst loop_aligned) (simp only: if_P if_False)

lemma slot_fails_0:
  "slot_fails this s i 0 \<longleftrightarrow>
     i < length (blocks this) \<and> 0 < s \<and> (s < int (blockSize this) \<or> occupied (blocks this ! i))"
  by (simp add: slot_fails_def)

lemma slot_fails_needs:
  assumes "slot_fails this s i j"
  shows "0 < s" "i < length (blocks this)"
proof -
  have "0 \<le> int (j * blockSize this)" by simp
  then show "0 < s" using assms unfolding slot_fails_def by linarith
  show "i < length (blocks this)" using assms by (simp add: slot_fails_def)
qed

lemma slot_fails_shift:
  "slot_fails (this\<lparr>blocks := (blocks this)[i := x]\<rparr>) (s - int (blockSize this)) (i + 1) j
     = slot_fails this s i (j + 1)"
  by (simp add: slot_fails_def algebra_simps)

lemma slot_fails_step:
  assumes "\<not> slot_fails this s i 0"
  shows "(\<exists>j. slot_fails this s i j)
     = (\<exists>j. slot_fails (this\<lparr>blocks := (blocks this)[i := x]\<rparr>) (s - int (blockSize this)) (i + 1) j)"
proof
  assume "\<exists>j. slot_fails this s i j"
  then obtain j where j: "slot_fails this s i j" by blast
  then have "j \<noteq> 0" using assms by (cases j) auto
  then obtain j' where "j = j' + 1" by (cases j) auto
  then show "\<exists>j. slot_fails (this\<lparr>blocks := (blocks this)[i := x]\<rparr>)
      (s - int (blockSize this)) (i + 1) j"
    using j slot_fails_shift [of this i x s j'] by blast
next
  assume "\<exists>j. slot_fails (this\<lparr>blocks := (blocks this)[i := x]\<rparr>)
      (s - int (blockSize this)) (i + 1) j"
  then show "\<exists>j. slot_fails this s i j"
    using slot_fails_shift [of this i x s] by blast
qed

lemma loop_result:
  "fst (addBlocks_loop this ty None (int i * int (blockSize this)) s off i)
     = (\<not> (\<exists>j. slot_fails this s i j))"
proof (induction "length (blocks this) - i" arbitrary: this s off i)
  case 0
  then have ni: "\<not> i < length (blocks this)" by simp
  then have "\<not> (\<exists>j. slot_fails this s i j)" using slot_fails_needs by blast
  moreover have "\<not> (s > 0 \<and> i < length (blocks this))" using ni by simp
  ultimately show ?case using loop_done by simp
next
  case (Suc d)
  show ?case
  proof (cases "s > 0 \<and> i < length (blocks this)")
    case False
    then have "\<not> (\<exists>j. slot_fails this s i j)" using slot_fails_needs by blast
    then show ?thesis using loop_done [OF False] by simp
  next
    case True
    show ?thesis
    proof (cases "s < int (blockSize this) \<or> occupied (blocks this ! i)")
      case fail: True
      then have "slot_fails this s i 0" using True by (simp add: slot_fails_0)
      then have "\<exists>j. slot_fails this s i j" by blast
      then show ?thesis using loop_fail [OF True fail] by simp
    next
      case go: False
      let ?upd = "this\<lparr>blocks := (blocks this)[i := Some (slot_block this ty i)]\<rparr>"
      have n0: "\<not> slot_fails this s i 0" using go by (simp add: slot_fails_0)
      have d: "d = length (blocks ?upd) - (i + 1)" using Suc.hyps(2) by simp
      have "fst (addBlocks_loop this ty None (int i * int (blockSize this)) s off i)
          = fst (addBlocks_loop ?upd ty None (int (i + 1) * int (blockSize ?upd))
                  (s - int (blockSize this)) (off + blockSize this) (i + 1))"
        using loop_go [OF True go] by simp
      also have "\<dots> = (\<not> (\<exists>j. slot_fails ?upd (s - int (blockSize this)) (i + 1) j))"
        using Suc.hyps(1) [OF d] .
      also have "\<dots> = (\<not> (\<exists>j. slot_fails this s i j))"
        using slot_fails_step [OF n0] by simp
      finally show ?thesis .
    qed
  qed
qed

lemma slot_block_upd [simp]:
  "slot_block (this\<lparr>blocks := bl\<rparr>) ty m = slot_block this ty m"
  by (simp add: slot_block_def new_block_def)

lemma loop_frame:
  "snd (addBlocks_loop this ty None (int i * int (blockSize this)) s off i)
     = this\<lparr>blocks := blocks (snd (addBlocks_loop this ty None
                  (int i * int (blockSize this)) s off i))\<rparr>
   \<and> length (blocks (snd (addBlocks_loop this ty None (int i * int (blockSize this)) s off i)))
     = length (blocks this)
   \<and> (\<forall>m. m < i \<longrightarrow>
        blocks (snd (addBlocks_loop this ty None (int i * int (blockSize this)) s off i)) ! m
          = blocks this ! m)
   \<and> (\<forall>j m. slot_fails this s i j \<longrightarrow> i + j \<le> m \<longrightarrow>
        blocks (snd (addBlocks_loop this ty None (int i * int (blockSize this)) s off i)) ! m
          = blocks this ! m)
   \<and> (\<forall>m. i \<le> m \<longrightarrow> m < length (blocks this) \<longrightarrow> int ((m - i) * blockSize this) < s \<longrightarrow>
          (\<forall>j \<le> m - i. \<not> slot_fails this s i j) \<longrightarrow>
        blocks (snd (addBlocks_loop this ty None (int i * int (blockSize this)) s off i)) ! m
          = Some (slot_block this ty m))"
proof (induction "length (blocks this) - i" arbitrary: this s off i)
  case 0
  then have ni: "\<not> (s > 0 \<and> i < length (blocks this))" by simp
  have res: "snd (addBlocks_loop this ty None (int i * int (blockSize this)) s off i) = this"
    using loop_done [OF ni] by simp
  show ?case unfolding res using 0
    by (intro conjI allI impI) simp_all
next
  case (Suc d)
  show ?case
  proof (cases "s > 0 \<and> i < length (blocks this)")
    case False
    have nf: "\<not> slot_fails this s i 0" using False by (auto simp: slot_fails_0)
    have stop: "\<And>m. i \<le> m \<Longrightarrow> m < length (blocks this) \<Longrightarrow> int ((m - i) * blockSize this) < s \<Longrightarrow> False"
    proof -
      fix m assume "i \<le> m" "m < length (blocks this)" "int ((m - i) * blockSize this) < s"
      moreover have "0 \<le> int ((m - i) * blockSize this)" by simp
      ultimately show False using False by linarith
    qed
    have res: "snd (addBlocks_loop this ty None (int i * int (blockSize this)) s off i) = this"
      using loop_done [OF False] by simp
    show ?thesis unfolding res
    proof (intro conjI allI impI)
      show "blocks this ! m = Some (slot_block this ty m)"
        if "i \<le> m" "m < length (blocks this)" "int ((m - i) * blockSize this) < s" for m
        using stop [OF that] by simp
    qed simp_all
  next
    case True
    show ?thesis
    proof (cases "s < int (blockSize this) \<or> occupied (blocks this ! i)")
      case fail: True
      then have f0: "slot_fails this s i 0" using True by (simp add: slot_fails_0)
      have stop: "\<And>m. i \<le> m \<Longrightarrow> (\<forall>j \<le> m - i. \<not> slot_fails this s i j) \<Longrightarrow> False"
        using f0 by auto
      have res: "snd (addBlocks_loop this ty None (int i * int (blockSize this)) s off i) = this"
        using loop_fail [OF True fail] by simp
      show ?thesis unfolding res
      proof (intro conjI allI impI)
        show "blocks this ! m = Some (slot_block this ty m)"
          if "i \<le> m" "\<forall>j \<le> m - i. \<not> slot_fails this s i j" for m
          using stop [OF that] by simp
      qed simp_all
    next
      case go: False
      let ?upd = "this\<lparr>blocks := (blocks this)[i := Some (slot_block this ty i)]\<rparr>"
      let ?r = "snd (addBlocks_loop ?upd ty None (int (i + 1) * int (blockSize ?upd))
                  (s - int (blockSize this)) (off + blockSize this) (i + 1))"
      have n0: "\<not> slot_fails this s i 0" using go by (simp add: slot_fails_0)
      have d: "d = length (blocks ?upd) - (i + 1)" using Suc.hyps(2) by simp
      have eq: "snd (addBlocks_loop this ty None (int i * int (blockSize this)) s off i) = ?r"
        using loop_go [OF True go] by simp
      note IH = Suc.hyps(1) [OF d, of "s - int (blockSize this)" "off + blockSize this"]
      note ih1 = IH [THEN conjunct1]
      note ih2 = IH [THEN conjunct2, THEN conjunct1]
      note ih3 = IH [THEN conjunct2, THEN conjunct2, THEN conjunct1, rule_format]
      note ih4 = IH [THEN conjunct2, THEN conjunct2, THEN conjunct2, THEN conjunct1, rule_format]
      note ih5 = IH [THEN conjunct2, THEN conjunct2, THEN conjunct2, THEN conjunct2, rule_format]
      have a: "?r = this\<lparr>blocks := blocks ?r\<rparr>"
        by (subst ih1) simp
      have b: "length (blocks ?r) = length (blocks this)" using ih2 by simp
      have c: "\<And>m. m < i \<Longrightarrow> blocks ?r ! m = blocks this ! m"
      proof -
        fix m assume m: "m < i"
        then have "blocks ?r ! m = blocks ?upd ! m" using ih3 [of m] by simp
        then show "blocks ?r ! m = blocks this ! m" using m by simp
      qed
      have e: "\<And>j m. slot_fails this s i j \<Longrightarrow> i + j \<le> m \<Longrightarrow> blocks ?r ! m = blocks this ! m"
      proof -
        fix j m assume j: "slot_fails this s i j" and m: "i + j \<le> m"
        have "j \<noteq> 0" using j n0 by (cases j) auto
        then obtain j' where j': "j = j' + 1" by (cases j) auto
        then have "slot_fails ?upd (s - int (blockSize this)) (i + 1) j'"
          using j slot_fails_shift [of this i _ s j'] by simp
        moreover have "(i + 1) + j' \<le> m" using m j' by simp
        ultimately have "blocks ?r ! m = blocks ?upd ! m" by (rule ih4)
        moreover have "m \<noteq> i" using m j' by simp
        ultimately show "blocks ?r ! m = blocks this ! m" by simp
      qed
      have w: "\<And>m. i \<le> m \<Longrightarrow> m < length (blocks this) \<Longrightarrow>
          int ((m - i) * blockSize this) < s \<Longrightarrow> (\<forall>j \<le> m - i. \<not> slot_fails this s i j) \<Longrightarrow>
          blocks ?r ! m = Some (slot_block this ty m)"
      proof -
        fix m assume m: "i \<le> m" "m < length (blocks this)"
          "int ((m - i) * blockSize this) < s" "\<forall>j \<le> m - i. \<not> slot_fails this s i j"
        show "blocks ?r ! m = Some (slot_block this ty m)"
        proof (cases "m = i")
          case True
          have "blocks ?r ! i = blocks ?upd ! i" using ih3 [of i] by simp
          then show ?thesis using True m(2) by simp
        next
          case False
          then have m1: "i + 1 \<le> m" using m(1) by simp
          have sz: "int ((m - (i + 1)) * blockSize ?upd) < s - int (blockSize this)"
          proof -
            have "m - i = Suc (m - (i + 1))" using m1 by simp
            then have "(m - i) * blockSize this = (m - (i + 1)) * blockSize this + blockSize this"
              by simp
            then show ?thesis using m(3) by simp
          qed
          have nf: "\<forall>j \<le> m - (i + 1). \<not> slot_fails ?upd (s - int (blockSize this)) (i + 1) j"
          proof (intro allI impI)
            fix j assume "j \<le> m - (i + 1)"
            then have "j + 1 \<le> m - i" using m1 by simp
            then have "\<not> slot_fails this s i (j + 1)" using m(4) by blast
            then show "\<not> slot_fails ?upd (s - int (blockSize this)) (i + 1) j"
              using slot_fails_shift [of this i _ s j] by simp
          qed
          have "m < length (blocks ?upd)" using m(2) by simp
          from ih5 [OF m1 this sz] nf
          have "blocks ?r ! m = Some (slot_block ?upd ty m)" by blast
          then show ?thesis by simp
        qed
      qed
      show ?thesis unfolding eq
      proof (intro conjI allI impI)
        show "?r = this\<lparr>blocks := blocks ?r\<rparr>" by (rule a)
        show "length (blocks ?r) = length (blocks this)" by (rule b)
        show "blocks ?r ! m = blocks this ! m" if "m < i" for m using that by (rule c)
        show "blocks ?r ! m = blocks this ! m" if "slot_fails this s i j" "i + j \<le> m" for j m
          using that by (rule e)
        show "blocks ?r ! m = Some (slot_block this ty m)"
          if "i \<le> m" "m < length (blocks this)" "int ((m - i) * blockSize this) < s"
            "\<forall>j \<le> m - i. \<not> slot_fails this s i j" for m
          using that by (rule w)
      qed
    qed
  qed
qed

lemma first_slot:
  assumes "blockSize this = 2 ^ blockShift this" "blockShift this < 32" "address < 2 ^ 32"
  shows "(address mod 2 ^ 32) div 2 ^ (blockShift this mod 32) = address div blockSize this"
  using assms by simp

lemma addBlocks_aligned:
  assumes "blockSize this = 2 ^ blockShift this" "blockShift this < 32" "address < 2 ^ 32"
    and al: "address mod blockSize this = 0"
  shows "addBlocks this address sz ty None =
           addBlocks_loop this ty None
             (int (address div blockSize this) * int (blockSize this)) sz 0
             (address div blockSize this)"
proof -
  have "address = (address div blockSize this) * blockSize this" using al by auto
  then have "int address = int (address div blockSize this) * int (blockSize this)"
    by (metis of_nat_mult)
  then show ?thesis unfolding addBlocks_def first_slot [OF assms(1-3)] by simp
qed

lemma addBlocks_misaligned:
  assumes "blockSize this = 2 ^ blockShift this" "blockShift this < 32" "address < 2 ^ 32"
    and al: "address mod blockSize this \<noteq> 0"
  shows "addBlocks this address sz ty None =
           (if sz > 0 \<and> address div blockSize this < length (blocks this)
            then (False, this) else (True, this))"
proof -
  have "address \<noteq> (address div blockSize this) * blockSize this"
    using al by (metis mod_mult_self2_is_0)
  then have "int address \<noteq> int (address div blockSize this) * int (blockSize this)"
    by (metis of_nat_mult of_nat_eq_iff)
  from loop_misaligned [OF this] show ?thesis
    unfolding addBlocks_def first_slot [OF assms(1-3)] by simp
qed

lemma fails_iff:
  "(\<exists>j. slot_fails this sz k j)
     = (0 < sz \<and> k < length (blocks this)
        \<and> list_ex (slot_fails this sz k) [0..<length (blocks this)])"
proof
  assume "\<exists>j. slot_fails this sz k j"
  then obtain j where j: "slot_fails this sz k j" by blast
  then have "j < length (blocks this)" by (simp add: slot_fails_def)
  then have "list_ex (slot_fails this sz k) [0..<length (blocks this)]"
    using j by (auto simp: list_ex_iff)
  then show "0 < sz \<and> k < length (blocks this)
        \<and> list_ex (slot_fails this sz k) [0..<length (blocks this)]"
    using slot_fails_needs [OF j] by simp
next
  assume "0 < sz \<and> k < length (blocks this)
        \<and> list_ex (slot_fails this sz k) [0..<length (blocks this)]"
  then show "\<exists>j. slot_fails this sz k j" by (auto simp: list_ex_iff)
qed

lemma partial_slot_fails:
  assumes "0 < sz" "sz mod int (blockSize this) \<noteq> 0"
    "k + nat (sz div int (blockSize this)) < length (blocks this)" "0 < blockSize this"
  shows "slot_fails this sz k (nat (sz div int (blockSize this)))"
proof -
  let ?bs = "int (blockSize this)"
  have bs: "0 < ?bs" using assms(4) by simp
  have d: "0 \<le> sz div ?bs" using assms(1) bs by (simp add: pos_imp_zdiv_nonneg_iff)
  have "sz = (sz div ?bs) * ?bs + sz mod ?bs" by simp
  moreover have "0 < sz mod ?bs" using bs assms(2)
    by (metis less_le pos_mod_sign)
  moreover have "sz mod ?bs < ?bs" using bs by simp
  ultimately have "(sz div ?bs) * ?bs < sz" "sz - (sz div ?bs) * ?bs < ?bs" by linarith+
  then show ?thesis using assms(3) d by (simp add: slot_fails_def)
qed

text \<open>
  Claim C2, as amended. On a bus whose block size is the power of two given by its block
  shift, for an address below \<open>2^32\<close> and no block supplied by the caller: \<open>addBlocks\<close>
  returns false exactly when the size is positive, the slot of the address exists, and
  either the address is not a multiple of the block size, or some slot of the run would
  take fewer than \<open>blockSize\<close> units (the last, partial slot included), or some slot of the
  run holds a block whose type is not NONE. The call changes nothing but slots; it leaves
  every slot before the first one of the run and every slot from a failing one onwards
  as it was, and it writes a new block into every slot of the run that comes before the
  first failing one. A request that is not aligned changes nothing at all, and a request
  whose last slot is partial returns false.
\<close>

theorem addBlocks_outcome:
  assumes "blockSize this = 2 ^ blockShift this" "blockShift this < 32" "address < 2 ^ 32"
  shows "fst (addBlocks this address sz ty None) = (\<not> addBlocks_fails this address sz)
    \<and> snd (addBlocks this address sz ty None)
        = this\<lparr>blocks := blocks (snd (addBlocks this address sz ty None))\<rparr>
    \<and> length (blocks (snd (addBlocks this address sz ty None))) = length (blocks this)
    \<and> (\<forall>m. m < address div blockSize this \<longrightarrow>
          blocks (snd (addBlocks this address sz ty None)) ! m = blocks this ! m)
    \<and> (\<forall>j m. slot_fails this sz (address div blockSize this) j \<longrightarrow>
          address div blockSize this + j \<le> m \<longrightarrow>
          blocks (snd (addBlocks this address sz ty None)) ! m = blocks this ! m)
    \<and> (\<forall>m. address mod blockSize this = 0 \<longrightarrow> address div blockSize this \<le> m \<longrightarrow>
          m < length (blocks this) \<longrightarrow>
          int ((m - address div blockSize this) * blockSize this) < sz \<longrightarrow>
          (\<forall>j \<le> m - address div blockSize this.
              \<not> slot_fails this sz (address div blockSize this) j) \<longrightarrow>
          blocks (snd (addBlocks this address sz ty None)) ! m = Some (slot_block this ty m))
    \<and> (address mod blockSize this \<noteq> 0 \<longrightarrow> snd (addBlocks this address sz ty None) = this)
    \<and> (0 < sz \<longrightarrow> sz mod int (blockSize this) \<noteq> 0 \<longrightarrow>
          address div blockSize this + nat (sz div int (blockSize this)) < length (blocks this) \<longrightarrow>
          \<not> fst (addBlocks this address sz ty None))"
proof (cases "address mod blockSize this = 0")
  case True
  let ?k = "address div blockSize this"
  note eq = addBlocks_aligned [OF assms True, of sz ty]
  note fr = loop_frame [of this ty ?k sz 0, folded eq]
  have res: "fst (addBlocks this address sz ty None) = (\<not> (\<exists>j. slot_fails this sz ?k j))"
    unfolding eq by (rule loop_result)
  have 1: "fst (addBlocks this address sz ty None) = (\<not> addBlocks_fails this address sz)"
    using res True by (simp add: addBlocks_fails_def fails_iff Let_def)
  have 8: "0 < sz \<longrightarrow> sz mod int (blockSize this) \<noteq> 0 \<longrightarrow>
          ?k + nat (sz div int (blockSize this)) < length (blocks this) \<longrightarrow>
          \<not> fst (addBlocks this address sz ty None)"
    using res partial_slot_fails [of sz this ?k] assms(1) by auto
  show ?thesis
  proof (intro conjI)
    show "fst (addBlocks this address sz ty None) = (\<not> addBlocks_fails this address sz)"
      by (rule 1)
    show "snd (addBlocks this address sz ty None)
        = this\<lparr>blocks := blocks (snd (addBlocks this address sz ty None))\<rparr>"
      by (rule fr [THEN conjunct1])
    show "length (blocks (snd (addBlocks this address sz ty None))) = length (blocks this)"
      by (rule fr [THEN conjunct2, THEN conjunct1])
    show "\<forall>m. m < ?k \<longrightarrow> blocks (snd (addBlocks this address sz ty None)) ! m = blocks this ! m"
      by (rule fr [THEN conjunct2, THEN conjunct2, THEN conjunct1])
    show "\<forall>j m. slot_fails this sz ?k j \<longrightarrow> ?k + j \<le> m \<longrightarrow>
          blocks (snd (addBlocks this address sz ty None)) ! m = blocks this ! m"
      by (rule fr [THEN conjunct2, THEN conjunct2, THEN conjunct2, THEN conjunct1])
    show "\<forall>m. address mod blockSize this = 0 \<longrightarrow> ?k \<le> m \<longrightarrow> m < length (blocks this) \<longrightarrow>
          int ((m - ?k) * blockSize this) < sz \<longrightarrow>
          (\<forall>j \<le> m - ?k. \<not> slot_fails this sz ?k j) \<longrightarrow>
          blocks (snd (addBlocks this address sz ty None)) ! m = Some (slot_block this ty m)"
      using fr [THEN conjunct2, THEN conjunct2, THEN conjunct2, THEN conjunct2] by blast
    show "address mod blockSize this \<noteq> 0 \<longrightarrow> snd (addBlocks this address sz ty None) = this"
      using True by simp
    show "0 < sz \<longrightarrow> sz mod int (blockSize this) \<noteq> 0 \<longrightarrow>
          ?k + nat (sz div int (blockSize this)) < length (blocks this) \<longrightarrow>
          \<not> fst (addBlocks this address sz ty None)"
      by (rule 8)
  qed
next
  case False
  let ?k = "address div blockSize this"
  note eq = addBlocks_misaligned [OF assms False, of sz ty]
  have s: "snd (addBlocks this address sz ty None) = this" unfolding eq by simp
  have f: "fst (addBlocks this address sz ty None) = (\<not> (sz > 0 \<and> ?k < length (blocks this)))"
    unfolding eq by simp
  have nk: "\<And>j. slot_fails this sz ?k j \<Longrightarrow> sz > 0 \<and> ?k < length (blocks this)"
    using slot_fails_needs by blast
  show ?thesis
  proof (intro conjI)
    show "fst (addBlocks this address sz ty None) = (\<not> addBlocks_fails this address sz)"
      using f False by (simp add: addBlocks_fails_def Let_def)
    show "0 < sz \<longrightarrow> sz mod int (blockSize this) \<noteq> 0 \<longrightarrow>
          ?k + nat (sz div int (blockSize this)) < length (blocks this) \<longrightarrow>
          \<not> fst (addBlocks this address sz ty None)"
      using f by simp
  qed (simp_all add: s False)
qed

subsection \<open>A newly constructed bus\<close>

lemma loop_stop:
  "\<not> (s > 0 \<and> i < length (blocks this)) \<Longrightarrow> addBlocks_loop this ty blk a s off i = (True, this)"
  by (subst addBlocks_loop.simps) (rule if_not_P)

lemma addBlocks_one:
  assumes ps: "blockSize this = 2 ^ blockShift this" and sh: "blockShift this < 32"
    and ad: "i * blockSize this < 2 ^ 32" and i: "i < length (blocks this)"
    and free: "\<not> occupied (blocks this ! i)" and sz: "size_blk block = blockSize this"
  shows "addBlocks this (i * blockSize this) (int (blockSize this)) ty (Some block)
           = (True, this\<lparr>blocks := (blocks this)[i := Some block]\<rparr>)"
proof -
  have bs: "0 < blockSize this" using ps by simp
  have k: "(i * blockSize this mod 2 ^ 32) div 2 ^ (blockShift this mod 32) = i"
    using ps sh ad by simp
  have fr: "(case blocks this ! i of None \<Rightarrow> False | Some e \<Rightarrow> type e \<noteq> NONE) = False"
    using free by (simp add: occupied_def)
  have "addBlocks_loop this ty (Some block) (int (i * blockSize this)) (int (blockSize this)) 0 i
      = addBlocks_loop (this\<lparr>blocks := (blocks this)[i := Some block]\<rparr>) ty (Some block)
          (int i * int (blockSize this) + int (blockSize this)) 0 (0 + blockSize this) (i + 1)"
    by (subst addBlocks_loop.simps) (simp add: Let_def i bs fr sz)
  also have "\<dots> = (True, this\<lparr>blocks := (blocks this)[i := Some block]\<rparr>)"
    by (rule loop_stop) simp
  finally show ?thesis unfolding addBlocks_def k .
qed

lemma fill_slots_replicate:
  assumes ps: "blockSize this = 2 ^ blockShift this" and sh: "blockShift this < 32"
    and tot: "n * blockSize this \<le> 2 ^ 32" and sz: "size_blk block = blockSize this"
    and i: "i \<le> n"
    and bl: "blocks this = replicate i (Some block) @ replicate (n - i) None"
  shows "fill_slots this block (i * blockSize this) (n * blockSize this) (blockSize this)
           = this\<lparr>blocks := replicate n (Some block)\<rparr>"
  using ps sh tot sz i bl
proof (induction "n - i" arbitrary: this i)
  case 0
  then have "i = n" by simp
  then show ?case using 0 by (subst fill_slots.simps) simp
next
  case (Suc d)
  then have lt: "i < n" by simp
  have bs: "0 < blockSize this" using Suc.prems(1) by simp
  have len: "length (blocks this) = n" using Suc.prems(5,6) by simp
  have "i * blockSize this < n * blockSize this" using lt bs by simp
  then have ad: "i * blockSize this < 2 ^ 32" using Suc.prems(3) by linarith
  have free: "\<not> occupied (blocks this ! i)"
    using Suc.prems(6) lt by (simp add: nth_append occupied_def)
  let ?upd = "this\<lparr>blocks := (blocks this)[i := Some block]\<rparr>"
  have one: "addBlocks this (i * blockSize this) (int (blockSize this)) NONE (Some block)
           = (True, ?upd)"
    using addBlocks_one [OF Suc.prems(1,2) ad _ free Suc.prems(4)] lt len by simp
  have bl1: "blocks ?upd = replicate (i + 1) (Some block) @ replicate (n - (i + 1)) None"
  proof -
    have "replicate (n - i) None = (None :: memory option) # replicate (n - (i + 1)) None"
      using lt by (cases "n - i") simp_all
    then show ?thesis using Suc.prems(6)
      by (simp add: list_update_append replicate_append_same)
  qed
  have d: "d = n - (i + 1)" using Suc.hyps(2) by simp
  have "fill_slots this block (i * blockSize this) (n * blockSize this) (blockSize this)
      = fill_slots ?upd block ((i + 1) * blockSize ?upd) (n * blockSize ?upd)
          (blockSize ?upd)"
    using \<open>i * blockSize this < n * blockSize this\<close> bs
    by (subst fill_slots.simps) (simp add: one algebra_simps)
  also have "\<dots> = ?upd\<lparr>blocks := replicate n (Some block)\<rparr>"
    using Suc.prems lt bl1 by (intro Suc.hyps(1) [OF d]) simp_all
  finally show ?case by simp
qed

lemma placeholder_fields:
  "size_blk placeholder_block = 1024" "type placeholder_block = NONE"
  by (simp_all add: placeholder_block_def Memory_new_def initValues_def Let_def)

lemma log2_floor_1024: "log2_floor 1024 = 10"
  by code_simp

lemma Bus_new_default: "Bus_new True True default_bus_config = Inr default_bus"
proof -
  let ?init = "\<lparr> type_bus = DYNAMIC, addrWidth = 16, addrTotal = 65536, addrLimit = 65535,
       blockSize = 1024, blockTotal = 64, blockShift = 10, blockLimit = 1023,
       dataWidth_bus = 8, dataLimit_bus = 255, littleEndian_bus = True,
       blocks = replicate 64 None, nTraps = 0,
       machine_ArrayBuffer = True, host_LITTLE_ENDIAN = True \<rparr>"
  have nb: "new_block ?init
      \<lparr>cfg_addr = None, cfg_size = 1024, cfg_type = None, cfg_values = None\<rparr> = placeholder_block"
    by (simp add: new_block_def placeholder_block_def)
  have "fill_slots ?init placeholder_block (0 * blockSize ?init) (64 * blockSize ?init)
          (blockSize ?init) = ?init\<lparr>blocks := replicate 64 (Some placeholder_block)\<rparr>"
    by (rule fill_slots_replicate) (simp_all add: placeholder_fields)
  then have fs: "fill_slots ?init placeholder_block 0 65536 1024
      = ?init\<lparr>blocks := replicate 64 (Some placeholder_block)\<rparr>"
    by simp
  show ?thesis
    by (simp add: Bus_new_def default_bus_config_def or_default_def Let_def log2_floor_1024
        to_int32_def js_shl_def nb fs selectInterface_def default_bus_def)
qed

lemma default_bus_fields:
  "blockSize default_bus = 2 ^ blockShift default_bus" "blockShift default_bus < 32"
  "blockSize default_bus = 1024" "length (blocks default_bus) = 64"
  by (simp_all add: default_bus_def)

theorem addBlocks_outcome_witness:
  "Bus_new True True default_bus_config = Inr default_bus
   \<and> addBlocks default_bus 500 1024 READWRITE None = (False, default_bus)"
proof -
  have a: "(500::nat) < 2 ^ 32" by simp
  note t = addBlocks_outcome [OF default_bus_fields(1,2) a, of 1024 READWRITE]
  have f: "addBlocks_fails default_bus 500 1024"
    by (simp add: addBlocks_fails_def default_bus_fields(3,4) Let_def)
  have m: "500 mod blockSize default_bus \<noteq> 0" by (simp add: default_bus_fields(3))
  have "fst (addBlocks default_bus 500 1024 READWRITE None) = False"
    using t f by simp
  moreover have "snd (addBlocks default_bus 500 1024 READWRITE None) = default_bus"
    using t m by blast
  ultimately have "addBlocks default_bus 500 1024 READWRITE None = (False, default_bus)"
    by (metis prod.collapse)
  then show ?thesis using Bus_new_default by simp
qed

text \<open>
  The claim as first stated fails where it has a final partial slot succeed: a request
  for 1536 units at address 0 of the default bus (blocks of 1024) writes slot 0, then
  returns false at slot 1, which would have taken the remaining 512 units.
\<close>

theorem addBlocks_partial_counterexample:
  "addBlocks default_bus 0 1536 READWRITE None
     = (False, default_bus\<lparr>blocks := (blocks default_bus)[0 := Some (slot_block default_bus READWRITE 0)]\<rparr>)"
proof -
  have a: "(0::nat) < 2 ^ 32" "0 mod blockSize default_bus = 0" by simp_all
  let ?upd = "default_bus\<lparr>blocks := (blocks default_bus)[0 := Some (slot_block default_bus READWRITE 0)]\<rparr>"
  have bs1: "blockSize ?upd = 1024" by (simp add: default_bus_fields(3))
  have free: "\<not> occupied (blocks default_bus ! 0)"
    by (simp add: default_bus_def occupied_def placeholder_fields)
  have "addBlocks default_bus 0 1536 READWRITE None
      = addBlocks_loop default_bus READWRITE None (int 0 * int (blockSize default_bus)) 1536 0 0"
    using addBlocks_aligned [OF default_bus_fields(1,2) a, of 1536 READWRITE]
    by (simp add: default_bus_fields(3))
  also have "\<dots> = addBlocks_loop ?upd READWRITE None (int (0 + 1) * int (blockSize default_bus))
      (1536 - int (blockSize default_bus)) (0 + blockSize default_bus) (0 + 1)"
    by (rule loop_go) (simp_all add: default_bus_fields(3,4) free)
  also have "\<dots> = addBlocks_loop ?upd READWRITE None (int 1 * int (blockSize ?upd)) 512 1024 1"
    by (simp add: default_bus_fields(3))
  also have "\<dots> = (False, ?upd)"
    by (rule loop_fail) (simp_all add: default_bus_fields(3,4))
  finally show ?thesis .
qed

section \<open>Properties of the scheduler\<close>

subsection \<open>Rounding to a double\<close>

lemma bit_length_bounds:
  "0 < n \<Longrightarrow> 2 ^ (bit_length n - 1) \<le> n \<and> n < 2 ^ bit_length n"
proof (induction n rule: bit_length.induct)
  case (1 n)
  show ?case
  proof (cases "n div 2 = 0")
    case True
    then have "n = 1" using "1.prems" by presburger
    then show ?thesis by (simp add: bit_length.simps [of "Suc 0"] bit_length.simps [of 0])
  next
    case False
    then have m: "0 < n div 2" by simp
    have n: "n \<noteq> 0" using "1.prems" by simp
    note IH = "1.IH" [OF n m]
    have b: "bit_length n = Suc (bit_length (n div 2))"
      using n by (simp add: bit_length.simps [of n])
    have p: "0 < bit_length (n div 2)"
      using m by (simp add: bit_length.simps [of "n div 2"])
    have "2 ^ bit_length (n div 2) = (2::nat) * 2 ^ (bit_length (n div 2) - 1)"
      using p by (cases "bit_length (n div 2)") simp_all
    also have "\<dots> \<le> 2 * (n div 2)" using IH by simp
    also have "\<dots> \<le> n" by presburger
    finally have lo: "2 ^ (bit_length n - 1) \<le> n" by (simp add: b)
    have "n < 2 * (n div 2 + 1)" by presburger
    also have "\<dots> \<le> 2 * 2 ^ bit_length (n div 2)" using IH by simp
    finally have "n < 2 ^ bit_length n" by (simp add: b)
    then show ?thesis using lo by simp
  qed
qed

lemma powi_mono: "e \<le> e' \<Longrightarrow> (2::rat) powi e \<le> 2 powi e'"
  by (rule power_int_increasing) simp_all

lemma powi_pos [simp]: "0 < (2::rat) powi e"
  by (simp add: zero_less_power_int)

lemma exponent_of_bounds:
  assumes "0 < a"
  shows "2 powi exponent_of a \<le> a \<and> a < 2 powi (exponent_of a + 1)"
proof -
  obtain p q where pq: "quotient_of a = (p, q)" by (cases "quotient_of a")
  have q: "0 < q" using pq by (rule quotient_of_denom_pos)
  have a: "a = of_int p / of_int q" using pq by (rule quotient_of_div)
  have p: "0 < p" using assms q unfolding a by (simp add: zero_less_divide_iff)
  let ?bp = "bit_length (nat p)" and ?bq = "bit_length (nat q)"
  let ?d = "int ?bp - int ?bq"
  have bp: "2 ^ (?bp - 1) \<le> nat p" "nat p < 2 ^ ?bp"
    using bit_length_bounds [of "nat p"] p by simp_all
  have bq: "2 ^ (?bq - 1) \<le> nat q" "nat q < 2 ^ ?bq"
    using bit_length_bounds [of "nat q"] q by simp_all
  have bp0: "0 < ?bp" using p by (simp add: bit_length.simps [of "nat p"])
  have bq0: "0 < ?bq" using q by (simp add: bit_length.simps [of "nat q"])
  have P: "(2::rat) ^ (?bp - 1) \<le> of_int p" "(of_int p :: rat) < 2 ^ ?bp"
  proof -
    have "(of_nat (2 ^ (?bp - 1)) :: rat) \<le> of_nat (nat p)" using bp(1) by (simp only: of_nat_le_iff)
    then show "(2::rat) ^ (?bp - 1) \<le> of_int p" using p by simp
    have "(of_nat (nat p) :: rat) < of_nat (2 ^ ?bp)" using bp(2) by (simp only: of_nat_less_iff)
    then show "(of_int p :: rat) < 2 ^ ?bp" using p by simp
  qed
  have Q: "(2::rat) ^ (?bq - 1) \<le> of_int q" "(of_int q :: rat) < 2 ^ ?bq"
  proof -
    have "(of_nat (2 ^ (?bq - 1)) :: rat) \<le> of_nat (nat q)" using bq(1) by (simp only: of_nat_le_iff)
    then show "(2::rat) ^ (?bq - 1) \<le> of_int q" using q by simp
    have "(of_nat (nat q) :: rat) < of_nat (2 ^ ?bq)" using bq(2) by (simp only: of_nat_less_iff)
    then show "(of_int q :: rat) < 2 ^ ?bq" using q by simp
  qed
  have qpos: "(0::rat) < of_int q" using q by simp
  have up: "a < 2 powi (?d + 1)"
  proof -
    have "of_int p < (2::rat) ^ ?bp" by (rule P(2))
    also have "\<dots> = 2 powi (?d + 1) * 2 ^ (?bq - 1)"
    proof -
      have "(2::rat) ^ (?bq - 1) = 2 powi (int ?bq - 1)"
        using bq0 by (simp add: power_int_def nat_diff_distrib)
      moreover have "(2::rat) ^ ?bp = 2 powi (int ?bp)" by simp
      moreover have "(2::rat) powi (?d + 1) * 2 powi (int ?bq - 1) = 2 powi (int ?bp)"
        by (subst power_int_add [symmetric]) simp_all
      ultimately show ?thesis by simp
    qed
    also have "\<dots> \<le> 2 powi (?d + 1) * of_int q"
      using Q(1) by (simp add: mult_left_mono)
    finally show ?thesis using qpos unfolding a by (simp add: pos_divide_less_eq)
  qed
  have lo: "2 powi (?d - 1) \<le> a"
  proof -
    have "2 powi (?d - 1) * of_int q \<le> 2 powi (?d - 1) * (2::rat) ^ ?bq"
      using Q(2) by (simp add: mult_left_mono)
    also have "\<dots> = 2 ^ (?bp - 1)"
    proof -
      have "(2::rat) ^ (?bp - 1) = 2 powi (int ?bp - 1)"
        using bp0 by (simp add: power_int_def nat_diff_distrib)
      moreover have "(2::rat) ^ ?bq = 2 powi (int ?bq)" by simp
      moreover have "(2::rat) powi (?d - 1) * 2 powi (int ?bq) = 2 powi (int ?bp - 1)"
        by (subst power_int_add [symmetric]) simp_all
      ultimately show ?thesis by simp
    qed
    also have "\<dots> \<le> of_int p" by (rule P(1))
    finally show ?thesis using qpos unfolding a by (simp add: pos_le_divide_eq)
  qed
  have e: "exponent_of a = (if 2 powi ?d \<le> a then ?d else ?d - 1)"
    by (simp add: exponent_of_def pq Let_def)
  show ?thesis
  proof (cases "2 powi ?d \<le> a")
    case True
    then show ?thesis using up e by simp
  next
    case False
    then show ?thesis using lo e by simp
  qed
qed

lemma exponent_of_eq:
  assumes "0 < a" "2 powi e \<le> a" "a < 2 powi (e + 1)"
  shows "exponent_of a = e"
proof -
  note b = exponent_of_bounds [OF assms(1)]
  have 1: "\<not> exponent_of a + 1 \<le> e"
  proof
    assume "exponent_of a + 1 \<le> e"
    then have "(2::rat) powi (exponent_of a + 1) \<le> 2 powi e" by (rule powi_mono)
    then show False using b assms(2) by simp
  qed
  have 2: "\<not> e + 1 \<le> exponent_of a"
  proof
    assume "e + 1 \<le> exponent_of a"
    then have "(2::rat) powi (e + 1) \<le> 2 powi exponent_of a" by (rule powi_mono)
    then show False using b assms(3) by simp
  qed
  show ?thesis using 1 2 by simp
qed

lemma to_double_eq:
  assumes "0 < a" "2 powi e \<le> a" "a < 2 powi (e + 1)" "- 1022 \<le> e"
  shows "to_double a = of_int (round_even (a / 2 powi (e - 52))) * 2 powi (e - 52)"
  using assms by (simp add: to_double_def exponent_of_eq [OF assms(1-3)] Let_def)

lemma round_even_eq:
  "of_int k - 1 / 2 < y \<Longrightarrow> y < of_int k + 1 / 2 \<Longrightarrow> round_even y = k"
proof -
  assume a: "of_int k - 1 / 2 < y" "y < of_int k + 1 / 2"
  show ?thesis
  proof (cases "of_int k \<le> y")
    case True
    then have "\<lfloor>y\<rfloor> = k" using a by (simp add: floor_eq_iff)
    then show ?thesis using a by (simp add: round_even_def Let_def)
  next
    case False
    then have f: "\<lfloor>y\<rfloor> = k - 1" using a by (simp add: floor_eq_iff)
    have "y - of_int (k - 1) > 1 / 2" using a by simp
    then show ?thesis using f by (simp add: round_even_def Let_def)
  qed
qed

lemma round_even_int [simp]: "round_even (of_int k) = k"
  by (rule round_even_eq) simp_all

lemma to_double_of_nat:
  assumes "n < 2 ^ 53"
  shows "to_double (of_nat n) = of_nat n"
proof (cases "n = 0")
  case True
  then show ?thesis by (simp add: to_double_def)
next
  case False
  then have pos: "0 < n" by simp
  let ?b = "bit_length n"
  note b = bit_length_bounds [OF pos]
  have b0: "0 < ?b" using pos by (simp add: bit_length.simps [of n])
  have "2 ^ (?b - 1) \<le> n" using b by (rule conjunct1)
  then have lt: "(2::nat) ^ (?b - 1) < 2 ^ 53" using assms by (rule le_less_trans)
  have b53: "?b - 1 < 53"
  proof (rule ccontr)
    assume "\<not> ?b - 1 < 53"
    then have "53 \<le> ?b - 1" by simp
    then have "(2::nat) ^ 53 \<le> 2 ^ (?b - 1)" by (rule power_increasing) simp
    then show False using lt by linarith
  qed
  let ?e = "int ?b - 1"
  have lo: "(2::rat) powi ?e \<le> of_nat n"
  proof -
    have "(of_nat (2 ^ (?b - 1)) :: rat) \<le> of_nat n" using b by (simp only: of_nat_le_iff)
    moreover have "(2::rat) powi ?e = 2 ^ (?b - 1)"
      using b0 by (simp add: power_int_def nat_diff_distrib)
    ultimately show ?thesis by simp
  qed
  have up: "(of_nat n :: rat) < 2 powi (?e + 1)"
  proof -
    have "(of_nat n :: rat) < of_nat (2 ^ ?b)" using b by (simp only: of_nat_less_iff)
    then show ?thesis by simp
  qed
  have e: "- 1022 \<le> ?e" by simp
  have apos: "(0::rat) < of_nat n" using pos by simp
  let ?k = "52 - (?b - 1)"
  have u: "(2::rat) powi (?e - 52) = 1 / 2 ^ ?k"
  proof -
    have h: "?e - 52 = - int ?k" using b53 b0 by arith
    show ?thesis by (simp only: h power_int_minus_divide power_int_of_nat)
  qed
  have "of_nat n / (2::rat) powi (?e - 52) = of_int (int n * 2 ^ ?k)"
    unfolding u by simp
  then have r: "round_even (of_nat n / (2::rat) powi (?e - 52)) = int n * 2 ^ ?k"
    by (simp only: round_even_int)
  have "to_double (of_nat n) = of_int (int n * 2 ^ ?k) * 2 powi (?e - 52)"
    unfolding to_double_eq [OF apos lo up e] r ..
  then show ?thesis unfolding u by simp
qed

lemma to_double_numeral [simp]:
  "(numeral k :: nat) < 9007199254740992 \<Longrightarrow> to_double (numeral k) = numeral k"
  using to_double_of_nat [of "numeral k"] by simp

lemma to_double_0 [simp]: "to_double 0 = 0"
  by (simp add: to_double_def)

lemma to_double_1 [simp]: "to_double 1 = 1"
  using to_double_of_nat [of 1] by simp

text \<open>
  The rounding shows in the cycles of a period: at 128020 cycles per second, 100
  milliseconds are 12803 cycles, one more than the exact product.
\<close>

lemma to_double_128: "to_double (6401 / 50) = 4504303314812273 / 2 ^ 45"
proof -
  have "to_double (6401 / 50) =
          of_int (round_even ((6401 / 50) / 2 powi (7 - 52))) * 2 powi (7 - 52)"
    by (rule to_double_eq) simp_all
  moreover have "round_even ((6401 / 50) / 2 powi (7 - 52)) = 4504303314812273"
    by (rule round_even_eq) (simp_all add: power_int_minus_divide)
  ultimately show ?thesis by (simp add: power_int_minus_divide)
qed

lemma to_double_12802: "to_double (4504303314812273 / 2 ^ 45 * 100) = 7037973929394177 / 2 ^ 39"
proof -
  have "to_double (4504303314812273 / 2 ^ 45 * 100) =
          of_int (round_even ((4504303314812273 / 2 ^ 45 * 100) / 2 powi (13 - 52)))
            * 2 powi (13 - 52)"
    by (rule to_double_eq) simp_all
  moreover have "round_even ((4504303314812273 / 2 ^ 45 * 100) / 2 powi (13 - 52))
                   = 7037973929394177"
    by (rule round_even_eq) (simp_all add: power_int_minus_divide)
  ultimately show ?thesis by (simp add: power_int_minus_divide)
qed

lemma getCyclesPerMS_rounds:
  "nCyclesPerSecond s = 128020 \<Longrightarrow> nCurrentMultiplier s = 1 \<Longrightarrow> getCyclesPerMS s 100 = 12803"
proof -
  assume a: "nCyclesPerSecond s = 128020" "nCurrentMultiplier s = 1"
  have "to_double (to_double (to_double (128020 * 1) / 1000) * 100)
          = to_double (to_double (6401 / 50) * 100)"
    by simp
  also have "\<dots> = to_double (4504303314812273 / 2 ^ 45 * 100)" by (simp only: to_double_128)
  also have "\<dots> = 7037973929394177 / 2 ^ 39" by (rule to_double_12802)
  finally show ?thesis by (simp add: getCyclesPerMS_def a ceiling_eq_iff)
qed

subsection \<open>The example schedulers in full\<close>

text \<open>The doubles that the default configuration gives rise to.\<close>

lemma to_double_mhz: "to_double (13 / 20) = 5854679515581645 / 9007199254740992"
proof -
  have "to_double (13 / 20) =
          of_int (round_even ((13 / 20) / 2 powi (-1 - 52))) * 2 powi (-1 - 52)"
    by (rule to_double_eq) simp_all
  moreover have "round_even ((13 / 20) / 2 powi (-1 - 52)) = 5854679515581645"
    by (rule round_even_eq) (simp_all add: power_int_minus_divide)
  ultimately show ?thesis by (simp add: power_int_minus_divide)
qed

lemma to_double_mhz_again: "to_double (5854679515581645 / 9007199254740992) = 5854679515581645 / 9007199254740992"
proof -
  have "to_double (5854679515581645 / 9007199254740992) =
          of_int (round_even ((5854679515581645 / 9007199254740992) / 2 powi (-1 - 52))) * 2 powi (-1 - 52)"
    by (rule to_double_eq) simp_all
  moreover have "round_even ((5854679515581645 / 9007199254740992) / 2 powi (-1 - 52)) = 5854679515581645"
    by (rule round_even_eq) (simp_all add: power_int_minus_divide)
  ultimately show ?thesis by (simp add: power_int_minus_divide)
qed

lemma to_double_per_yield: "to_double (16250 / 3) = 5955687983786667 / 1099511627776"
proof -
  have "to_double (16250 / 3) =
          of_int (round_even ((16250 / 3) / 2 powi (12 - 52))) * 2 powi (12 - 52)"
    by (rule to_double_eq) simp_all
  moreover have "round_even ((16250 / 3) / 2 powi (12 - 52)) = 5955687983786667"
    by (rule round_even_eq) (simp_all add: power_int_minus_divide)
  ultimately show ?thesis by (simp add: power_int_minus_divide)
qed

lemma to_double_per_yield_again: "to_double (5955687983786667 / 1099511627776) = 5955687983786667 / 1099511627776"
proof -
  have "to_double (5955687983786667 / 1099511627776) =
          of_int (round_even ((5955687983786667 / 1099511627776) / 2 powi (12 - 52))) * 2 powi (12 - 52)"
    by (rule to_double_eq) simp_all
  moreover have "round_even ((5955687983786667 / 1099511627776) / 2 powi (12 - 52)) = 5955687983786667"
    by (rule round_even_eq) (simp_all add: power_int_minus_divide)
  ultimately show ?thesis by (simp add: power_int_minus_divide)
qed

lemma to_double_nine_tenths: "to_double (9 / 10) = 8106479329266893 / 9007199254740992"
proof -
  have "to_double (9 / 10) =
          of_int (round_even ((9 / 10) / 2 powi (-1 - 52))) * 2 powi (-1 - 52)"
    by (rule to_double_eq) simp_all
  moreover have "round_even ((9 / 10) / 2 powi (-1 - 52)) = 8106479329266893"
    by (rule round_even_eq) (simp_all add: power_int_minus_divide)
  ultimately show ?thesis by (simp add: power_int_minus_divide)
qed

lemma to_double_mhz_nine_tenths: "to_double (47460838472544911584268336978985 / 81129638414606681695789005144064) = 5269211564023481 / 9007199254740992"
proof -
  have "to_double (47460838472544911584268336978985 / 81129638414606681695789005144064) =
          of_int (round_even ((47460838472544911584268336978985 / 81129638414606681695789005144064) / 2 powi (-1 - 52))) * 2 powi (-1 - 52)"
    by (rule to_double_eq) simp_all
  moreover have "round_even ((47460838472544911584268336978985 / 81129638414606681695789005144064) / 2 powi (-1 - 52)) = 5269211564023481"
    by (rule round_even_eq) (simp_all add: power_int_minus_divide)
  ultimately show ?thesis by (simp add: power_int_minus_divide)
qed

lemma to_double_ms_yield: "to_double (25 / 3) = 4691249611844267 / 562949953421312"
proof -
  have "to_double (25 / 3) =
          of_int (round_even ((25 / 3) / 2 powi (3 - 52))) * 2 powi (3 - 52)"
    by (rule to_double_eq) simp_all
  moreover have "round_even ((25 / 3) / 2 powi (3 - 52)) = 4691249611844267"
    by (rule round_even_eq) (simp_all add: power_int_minus_divide)
  ultimately show ?thesis by (simp add: power_int_minus_divide)
qed

lemmas default_doubles = to_double_mhz to_double_mhz_again to_double_per_yield
  to_double_per_yield_again to_double_nine_tenths to_double_mhz_nine_tenths to_double_ms_yield

lemma floor_ms_yield: "\<lfloor>4972724588554923 / 562949953421312 :: rat\<rfloor> = 8"
  by (simp add: floor_eq_iff)

lemmas time_defs = default_time_def default_time_config_def Time_new_def getDefault_def
  getBounded_def js_round_def addTimer_def setTimer_def getCyclesPerMS_def resetSpeed_def
  setSpeed_def calcCycles_def resetTimers_def setSpeedThrottle_def Let_def default_doubles
  floor_ms_yield

lemma example_time_eq:
  "example_time acts =
     \<lparr>nCyclesMinimum = 100000, nCyclesMaximum = 3000000,
        nCyclesPerSecond = 650000, nYieldsPerSecond = 120,
        nYieldsPerUpdate = 60, fClockByFrame = False,
        fRequestAnimationFrame = True, nBaseMultiplier = 1,
        nCurrentMultiplier = 1, nTargetMultiplier = 1,
        mhzBase = 5854679515581645 / 9007199254740992,
        mhzCurrent = 5854679515581645 / 9007199254740992,
        mhzTarget = 5854679515581645 / 9007199254740992, nYields = 0, msYield = 8,
        aAnimations = [], aClocks = [],
        aTimers =
          [\<lparr>id_timer = ''timerYield'', callBack = OnYield, msAuto = 8, nCyclesLeft = 5200\<rparr>,
           \<lparr>id_timer = ''blink'', callBack = External 7, msAuto = 1, nCyclesLeft = 650\<rparr>,
           \<lparr>id_timer = ''once'', callBack = External 9, msAuto = - 1, nCyclesLeft = 650\<rparr>,
           \<lparr>id_timer = ''idle'', callBack = External 5, msAuto = - 1, nCyclesLeft = - 1\<rparr>],
        aUpdates = [], fPowered = False, fRunning = True, fYield = False,
        fThrottling = False, nStepping = 0, idRunTimeout = True,
        idStepTimeout = False, idAnimation = True, nCyclesLife = 0,
        nCyclesRun = 0, nCyclesThisRun = 0, nCyclesBurst = 0,
        nCyclesRemain = 0, nCyclesDeposited = 0, nCyclesDepositPerFrame = 0,
        nCyclesPerYield = 5955687983786667 / 1099511627776, msStartRun = 0, msEndRun = 0,
        msStartThisRun = 0, msOutsideThisRun = 0,
        clock_answers = \<lambda>d k c. Returns c, nClockCalls = 0, timer_acts = acts,
        nTimerCalls = 0, date_now = \<lambda>k. 0, nDateReads = 0, throttle = None,
        printed = [PrintStarted]\<rparr>"
  by (simp add: example_time_def time_defs start_def update_def println_def)

lemma faulty_time_eq:
  "faulty_time =
     \<lparr>nCyclesMinimum = 100000, nCyclesMaximum = 3000000,
        nCyclesPerSecond = 650000, nYieldsPerSecond = 120,
        nYieldsPerUpdate = 60, fClockByFrame = False,
        fRequestAnimationFrame = True, nBaseMultiplier = 1,
        nCurrentMultiplier = 1, nTargetMultiplier = 1,
        mhzBase = 5854679515581645 / 9007199254740992,
        mhzCurrent = 5854679515581645 / 9007199254740992,
        mhzTarget = 5854679515581645 / 9007199254740992, nYields = 0, msYield = 8,
        aAnimations = [], aClocks = [0, 1],
        aTimers =
          [\<lparr>id_timer = ''timerYield'', callBack = OnYield, msAuto = 8, nCyclesLeft = 5200\<rparr>],
        aUpdates = [], fPowered = False, fRunning = True, fYield = False,
        fThrottling = False, nStepping = 0, idRunTimeout = True,
        idStepTimeout = False, idAnimation = True, nCyclesLife = 0,
        nCyclesRun = 0, nCyclesThisRun = 0, nCyclesBurst = 0,
        nCyclesRemain = 0, nCyclesDeposited = 0, nCyclesDepositPerFrame = 0,
        nCyclesPerYield = 5955687983786667 / 1099511627776, msStartRun = 0, msEndRun = 0,
        msStartThisRun = 0, msOutsideThisRun = 0,
        clock_answers = faulty_answers, nClockCalls = 0, timer_acts = no_acts,
        nTimerCalls = 0, date_now = \<lambda>k. 0, nDateReads = 0, throttle = None,
        printed = [PrintStarted]\<rparr>"
  by (simp add: faulty_time_def time_defs start_def addClock_def update_def println_def)

lemma faulty_run:
  "\<exists>s3. run_loop 2 False ((startRun faulty_time)\<lparr>fYield := False\<rparr>) = Some (Inl (''fault'', s3))
        \<and> nCyclesLife s3 = 0 \<and> nCyclesThisRun s3 = 0
        \<and> nCyclesBurst s3 = 5200 \<and> nCyclesRemain s3 = 5100"
  by (simp add: faulty_time_eq numeral_2_eq_2 burst_def getCyclesPerRun_def rate_budget_def
        getCyclesPerMS_def startRun_def calcCycles_def Date_now_def doBurst_def
        faulty_answers_def Let_def default_doubles)

subsection \<open>The cycle budget and the timers\<close>

lemma timers_budget_le: "timers_budget ts i n \<le> n"
proof (induction i arbitrary: n)
  case 0
  show ?case by simp
next
  case (Suc i)
  have "timers_budget ts i (if n > nCyclesLeft (ts ! i) then nCyclesLeft (ts ! i) else n) \<le> n"
    using Suc [of "if n > nCyclesLeft (ts ! i) then nCyclesLeft (ts ! i) else n"]
    by (simp split: if_splits)
  then show ?case using Suc [of n] by (simp add: Let_def)
qed

lemma timers_budget_armed:
  "j < i \<Longrightarrow> 0 \<le> nCyclesLeft (ts ! j) \<Longrightarrow> timers_budget ts i n \<le> nCyclesLeft (ts ! j)"
proof (induction i arbitrary: n)
  case 0
  then show ?case by simp
next
  case (Suc i)
  show ?case
  proof (cases "j = i")
    case True
    have "timers_budget ts i (if n > nCyclesLeft (ts ! i) then nCyclesLeft (ts ! i) else n)
            \<le> (if n > nCyclesLeft (ts ! i) then nCyclesLeft (ts ! i) else n)"
      by (rule timers_budget_le)
    then show ?thesis using True Suc.prems by (simp add: Let_def split: if_splits)
  next
    case False
    then have "j < i" using Suc.prems by simp
    then show ?thesis using Suc.IH Suc.prems by (simp add: Let_def)
  qed
qed

lemma timers_budget_attained:
  "timers_budget ts i n = n
     \<or> (\<exists>j < i. 0 \<le> nCyclesLeft (ts ! j) \<and> timers_budget ts i n = nCyclesLeft (ts ! j))"
proof (induction i arbitrary: n)
  case 0
  show ?case by simp
next
  case (Suc i)
  show ?case
  proof (cases "nCyclesLeft (ts ! i) < 0")
    case True
    then show ?thesis using Suc [of n] by (auto simp: Let_def less_Suc_eq)
  next
    case False
    show ?thesis
    proof (cases "n > nCyclesLeft (ts ! i)")
      case True
      then show ?thesis using False Suc [of "nCyclesLeft (ts ! i)"]
        by (auto simp: Let_def less_Suc_eq)
    next
      case gt: False
      then show ?thesis using False Suc [of n] by (auto simp: Let_def less_Suc_eq)
    qed
  qed
qed

lemma rate_budget_aTimers [simp]: "aTimers (snd (rate_budget fAnimation s)) = aTimers s"
  by (simp add: rate_budget_def Let_def println_def)

text \<open>
  Claim C6. The budget that \<open>getCyclesPerRun\<close> computes when no minimum is given is the
  least of the budget from the rate and the countdowns of the armed timers: it is at
  most the budget from the rate, at most the countdown of every armed timer, and it is
  one of these numbers. This is the number of cycles asked of the burst.
\<close>

theorem getCyclesPerRun_budget:
  "fst (getCyclesPerRun fAnimation 0 s) \<le> fst (rate_budget fAnimation s)
   \<and> (\<forall>t \<in> set (aTimers s).
          0 \<le> nCyclesLeft t \<longrightarrow> fst (getCyclesPerRun fAnimation 0 s) \<le> nCyclesLeft t)
   \<and> (fst (getCyclesPerRun fAnimation 0 s) = fst (rate_budget fAnimation s)
        \<or> (\<exists>t \<in> set (aTimers s).
              0 \<le> nCyclesLeft t \<and> fst (getCyclesPerRun fAnimation 0 s) = nCyclesLeft t))"
proof -
  let ?r = "fst (rate_budget fAnimation s)"
  let ?n = "fst (getCyclesPerRun fAnimation 0 s)"
  have n: "?n = timers_budget (aTimers s) (length (aTimers s)) ?r"
    by (simp add: getCyclesPerRun_def case_prod_beta)
  have 1: "?n \<le> ?r" unfolding n by (rule timers_budget_le)
  have 2: "\<forall>t \<in> set (aTimers s). 0 \<le> nCyclesLeft t \<longrightarrow> ?n \<le> nCyclesLeft t"
    unfolding n by (auto simp: in_set_conv_nth intro: timers_budget_armed)
  have 3: "?n = ?r \<or> (\<exists>t \<in> set (aTimers s). 0 \<le> nCyclesLeft t \<and> ?n = nCyclesLeft t)"
  proof (cases "?n = ?r")
    case True
    then show ?thesis by simp
  next
    case False
    then obtain j where j: "j < length (aTimers s)" "0 \<le> nCyclesLeft (aTimers s ! j)"
        "?n = nCyclesLeft (aTimers s ! j)"
      using timers_budget_attained [of "aTimers s" "length (aTimers s)" ?r]
      unfolding n by blast
    have "aTimers s ! j \<in> set (aTimers s)" using j(1) by simp
    then show ?thesis using j(2,3) by blast
  qed
  show ?thesis using 1 2 3 by blast
qed

theorem getCyclesPerRun_budget_witness:
  "fst (getCyclesPerRun False 0 (example_time no_acts)) = 650
   \<and> fst (rate_budget False (example_time no_acts)) = 5200
   \<and> map nCyclesLeft (aTimers (example_time no_acts)) = [5200, 650, 650, - 1]"
proof -
  let ?n = "fst (getCyclesPerRun False 0 (example_time no_acts))"
  have r: "fst (rate_budget False (example_time no_acts)) = 5200"
    by (simp add: example_time_eq rate_budget_def getCyclesPerMS_def)
  have ts: "aTimers (example_time no_acts) =
     [\<lparr>id_timer = ''timerYield'', callBack = OnYield, msAuto = 8, nCyclesLeft = 5200\<rparr>,
      \<lparr>id_timer = ''blink'', callBack = External 7, msAuto = 1, nCyclesLeft = 650\<rparr>,
      \<lparr>id_timer = ''once'', callBack = External 9, msAuto = - 1, nCyclesLeft = 650\<rparr>,
      \<lparr>id_timer = ''idle'', callBack = External 5, msAuto = - 1, nCyclesLeft = - 1\<rparr>]"
    by (simp add: example_time_eq)
  note b = getCyclesPerRun_budget [of False "example_time no_acts"]
  have le: "?n \<le> 650" using b unfolding ts by simp
  have "?n = 5200 \<or> ?n = 650" using b unfolding r ts by auto
  then have "?n = 650" using le by auto
  then show ?thesis using r by (simp add: ts)
qed

subsection \<open>What each operation leaves alone\<close>

lemma update_frame [simp]:
  "fRunning (update a s) = fRunning s" "nStepping (update a s) = nStepping s"
  "aClocks (update a s) = aClocks s" "clock_answers (update a s) = clock_answers s"
  "aTimers (update a s) = aTimers s" "nCyclesPerSecond (update a s) = nCyclesPerSecond s"
  "nCurrentMultiplier (update a s) = nCurrentMultiplier s"
  "nCyclesBurst (update a s) = nCyclesBurst s" "nCyclesRemain (update a s) = nCyclesRemain s"
  "nCyclesLife (update a s) = nCyclesLife s" "nCyclesThisRun (update a s) = nCyclesThisRun s"
  "nCyclesRun (update a s) = nCyclesRun s"
  "idRunTimeout (update a s) = idRunTimeout s" "idAnimation (update a s) = idAnimation s"
  "fClockByFrame (update a s) = fClockByFrame s"
  "nCyclesDeposited (update a s) = nCyclesDeposited s"
  "nYields (update a s) = nYields s" "nYieldsPerUpdate (update a s) = nYieldsPerUpdate s"
  "nYieldsPerSecond (update a s) = nYieldsPerSecond s"
  "timer_acts (update a s) = timer_acts s" "nTimerCalls (update a s) = nTimerCalls s"
  by (simp_all add: update_def Let_def println_def)

lemma getCyclesPerMS_cong:
  "nCyclesPerSecond s' = nCyclesPerSecond s \<Longrightarrow> nCurrentMultiplier s' = nCurrentMultiplier s
     \<Longrightarrow> getCyclesPerMS s' = getCyclesPerMS s"
  by (rule ext) (simp add: getCyclesPerMS_def)

lemma yield_frame [simp]:
  "fRunning (yield s) = fRunning s" "nStepping (yield s) = nStepping s"
  "aClocks (yield s) = aClocks s" "clock_answers (yield s) = clock_answers s"
  "aTimers (yield s) = aTimers s" "nCyclesPerSecond (yield s) = nCyclesPerSecond s"
  "nCurrentMultiplier (yield s) = nCurrentMultiplier s"
  "nCyclesBurst (yield s) = nCyclesBurst s" "nCyclesRemain (yield s) = nCyclesRemain s"
  "nCyclesLife (yield s) = nCyclesLife s" "nCyclesThisRun (yield s) = nCyclesThisRun s"
  "nCyclesRun (yield s) = nCyclesRun s"
  "idRunTimeout (yield s) = idRunTimeout s" "idAnimation (yield s) = idAnimation s"
  "fClockByFrame (yield s) = fClockByFrame s"
  "timer_acts (yield s) = timer_acts s" "nTimerCalls (yield s) = nTimerCalls s"
  by (simp_all add: yield_def Let_def)

lemma endBurst_frame [simp]:
  "fRunning (snd (endBurst a s)) = fRunning s" "nStepping (snd (endBurst a s)) = nStepping s"
  "aClocks (snd (endBurst a s)) = aClocks s"
  "clock_answers (snd (endBurst a s)) = clock_answers s"
  "aTimers (snd (endBurst a s)) = aTimers s"
  "nCyclesPerSecond (snd (endBurst a s)) = nCyclesPerSecond s"
  "nCurrentMultiplier (snd (endBurst a s)) = nCurrentMultiplier s"
  "nCyclesBurst (snd (endBurst a s)) = 0" "nCyclesRemain (snd (endBurst a s)) = 0"
  "idRunTimeout (snd (endBurst a s)) = idRunTimeout s"
  "idAnimation (snd (endBurst a s)) = idAnimation s"
  "fClockByFrame (snd (endBurst a s)) = fClockByFrame s"
  "timer_acts (snd (endBurst a s)) = timer_acts s"
  "nTimerCalls (snd (endBurst a s)) = nTimerCalls s"
  by (simp_all add: endBurst_def Let_def)

lemma endBurst_fst:
  "fst (endBurst a s) = (case a of Some n \<Rightarrow> n | None \<Rightarrow> nCyclesBurst s - nCyclesRemain s)"
  by (simp add: endBurst_def Let_def)

lemma endBurst_counters:
  "nCyclesLife (snd (endBurst a s)) = nCyclesLife s + fst (endBurst a s)"
  "nCyclesThisRun (snd (endBurst a s)) = nCyclesThisRun s + fst (endBurst a s)"
  "nCyclesRun (snd (endBurst a s)) = (if fRunning s then nCyclesRun s + fst (endBurst a s) else 0)"
  by (simp_all add: endBurst_def Let_def)

lemma result_state_simps [simp]:
  "result_state (Inl (m, s)) = s" "result_state (Inr (v, s)) = s"
  by (simp_all add: result_state_def)

lemma doBurst_loop_frame:
  "doBurst_loop fuel i n s = Some r \<Longrightarrow>
     fRunning (result_state r) = fRunning s \<and> nStepping (result_state r) = nStepping s
     \<and> aClocks (result_state r) = aClocks s \<and> clock_answers (result_state r) = clock_answers s
     \<and> aTimers (result_state r) = aTimers s
     \<and> nCyclesPerSecond (result_state r) = nCyclesPerSecond s
     \<and> nCurrentMultiplier (result_state r) = nCurrentMultiplier s
     \<and> nCyclesLife (result_state r) = nCyclesLife s
     \<and> nCyclesThisRun (result_state r) = nCyclesThisRun s
     \<and> nCyclesBurst (result_state r) = nCyclesBurst s
     \<and> printed (result_state r) = printed s"
proof (induction fuel i n s rule: doBurst_loop.induct)
  case (1 iClock nCycles s)
  then show ?case by simp
next
  case (2 fuel iClock nCycles s)
  show ?case
  proof (cases "nCyclesRemain s > 0")
    case False
    then show ?thesis using "2.prems" by auto
  next
    case pos: True
    show ?thesis
    proof (cases "iClock < length (aClocks s)")
      case False
      then have "doBurst_loop fuel 0 0 s = Some r" using "2.prems" pos by simp
      then show ?thesis using "2.IH"(2) pos False by simp
    next
      case lt: True
      show ?thesis
      proof (cases "clock_answers s (aClocks s ! iClock) (nClockCalls s) nCycles")
        case (Throws msg)
        then have "r = Inl (msg, s\<lparr>nClockCalls := nClockCalls s + 1\<rparr>)"
          using "2.prems" pos lt by simp
        then show ?thesis by simp
      next
        case (Returns x)
        let ?n = "if x = 0 then 1 else x"
        let ?s = "s\<lparr>nClockCalls := nClockCalls s + 1, nCyclesRemain := nCyclesRemain s - ?n\<rparr>"
        have "doBurst_loop fuel (iClock + 1) ?n ?s = Some r"
          using "2.prems" pos lt Returns by (simp add: Let_def)
        then have "fRunning (result_state r) = fRunning ?s \<and> nStepping (result_state r) = nStepping ?s
     \<and> aClocks (result_state r) = aClocks ?s \<and> clock_answers (result_state r) = clock_answers ?s
     \<and> aTimers (result_state r) = aTimers ?s
     \<and> nCyclesPerSecond (result_state r) = nCyclesPerSecond ?s
     \<and> nCurrentMultiplier (result_state r) = nCurrentMultiplier ?s
     \<and> nCyclesLife (result_state r) = nCyclesLife ?s
     \<and> nCyclesThisRun (result_state r) = nCyclesThisRun ?s
     \<and> nCyclesBurst (result_state r) = nCyclesBurst ?s
     \<and> printed (result_state r) = printed ?s"
          using "2.IH"(1) [OF pos lt Returns refl] by blast
        then show ?thesis by simp
      qed
    qed
  qed
qed

lemma doBurst_frame:
  "doBurst fuel n s = Some r \<Longrightarrow>
     fRunning (result_state r) = fRunning s \<and> nStepping (result_state r) = nStepping s
     \<and> aClocks (result_state r) = aClocks s \<and> clock_answers (result_state r) = clock_answers s
     \<and> aTimers (result_state r) = aTimers s
     \<and> nCyclesPerSecond (result_state r) = nCyclesPerSecond s
     \<and> nCurrentMultiplier (result_state r) = nCurrentMultiplier s
     \<and> nCyclesLife (result_state r) = nCyclesLife s
     \<and> nCyclesThisRun (result_state r) = nCyclesThisRun s
     \<and> nCyclesBurst (result_state r) = n
     \<and> printed (result_state r) = printed s"
proof (cases "aClocks s = []")
  case True
  assume "doBurst fuel n s = Some r"
  then have "r = Inr (n, s\<lparr>nCyclesBurst := n, nCyclesRemain := n, nCyclesRemain := 0\<rparr>)"
    using True by (simp add: doBurst_def Let_def)
  then show ?thesis by simp
next
  case False
  assume "doBurst fuel n s = Some r"
  then have "doBurst_loop fuel 0 n (s\<lparr>nCyclesBurst := n, nCyclesRemain := n\<rparr>) = Some r"
    using False by (simp add: doBurst_def Let_def)
  from doBurst_loop_frame [OF this] show ?thesis by simp
qed

lemma rate_budget_frame [simp]:
  "fRunning (snd (rate_budget f s)) = fRunning s" "nStepping (snd (rate_budget f s)) = nStepping s"
  "aClocks (snd (rate_budget f s)) = aClocks s"
  "clock_answers (snd (rate_budget f s)) = clock_answers s"
  "nCyclesPerSecond (snd (rate_budget f s)) = nCyclesPerSecond s"
  "nCurrentMultiplier (snd (rate_budget f s)) = nCurrentMultiplier s"
  "nCyclesLife (snd (rate_budget f s)) = nCyclesLife s"
  "nCyclesThisRun (snd (rate_budget f s)) = nCyclesThisRun s"
  by (simp_all add: rate_budget_def Let_def println_def)

lemma getCyclesPerRun_frame [simp]:
  "fRunning (snd (getCyclesPerRun f m s)) = fRunning s"
  "nStepping (snd (getCyclesPerRun f m s)) = nStepping s"
  "aClocks (snd (getCyclesPerRun f m s)) = aClocks s"
  "clock_answers (snd (getCyclesPerRun f m s)) = clock_answers s"
  "aTimers (snd (getCyclesPerRun f m s)) = aTimers s"
  "nCyclesPerSecond (snd (getCyclesPerRun f m s)) = nCyclesPerSecond s"
  "nCurrentMultiplier (snd (getCyclesPerRun f m s)) = nCurrentMultiplier s"
  "nCyclesLife (snd (getCyclesPerRun f m s)) = nCyclesLife s"
  "nCyclesThisRun (snd (getCyclesPerRun f m s)) = nCyclesThisRun s"
  by (simp_all add: getCyclesPerRun_def case_prod_beta)

lemma setTimer_frame [simp]:
  "fRunning (snd (setTimer i ms fr s)) = fRunning s"
  "nStepping (snd (setTimer i ms fr s)) = nStepping s"
  "aClocks (snd (setTimer i ms fr s)) = aClocks s"
  "clock_answers (snd (setTimer i ms fr s)) = clock_answers s"
  "nCyclesPerSecond (snd (setTimer i ms fr s)) = nCyclesPerSecond s"
  "nCurrentMultiplier (snd (setTimer i ms fr s)) = nCurrentMultiplier s"
  "length (aTimers (snd (setTimer i ms fr s))) = length (aTimers s)"
  "timer_acts (snd (setTimer i ms fr s)) = timer_acts s"
  "nTimerCalls (snd (setTimer i ms fr s)) = nTimerCalls s"
  by (simp_all add: setTimer_def Let_def case_prod_beta)

subsection \<open>Timers after a burst\<close>

lemma rearm_cong:
  "nCyclesPerSecond s' = nCyclesPerSecond s \<Longrightarrow> nCurrentMultiplier s' = nCurrentMultiplier s
     \<Longrightarrow> rearm s' = rearm s"
  by (intro ext) (simp add: rearm_def getCyclesPerMS_def case_prod_beta)

lemma update_calls [simp]:
  "filter is_timer_call (printed (update a s)) = filter is_timer_call (printed s)"
  by (simp add: update_def Let_def println_def filter_map o_def)

lemma yield_calls [simp]:
  "filter is_timer_call (printed (yield s)) = filter is_timer_call (printed s)"
  by (simp add: yield_def Let_def)

lemma endBurst_calls [simp]:
  "filter is_timer_call (printed (snd (endBurst a s))) = filter is_timer_call (printed s)"
  by (simp add: endBurst_def Let_def filter_map o_def)

lemma setTimer_arms:
  assumes "i < length (aTimers s)" "fr \<or> nCyclesLeft (aTimers s ! i) < 0"
  shows "aTimers (snd (setTimer (Suc i) ms fr s)) =
           (aTimers s)[i := (aTimers s ! i)\<lparr>nCyclesLeft := getCyclesPerMS s ms
              + (if fRunning s then nCyclesBurst s - nCyclesRemain s else 0)\<rparr>]"
    and "fst (setTimer (Suc i) ms fr s) = getCyclesPerMS s ms
              + (if fRunning s then nCyclesBurst s - nCyclesRemain s else 0)"
  using assms by (simp_all add: setTimer_def Let_def case_prod_beta endBurst_fst)

lemma setTimer_armed:
  "\<not> fr \<Longrightarrow> 0 \<le> nCyclesLeft (aTimers s ! i) \<Longrightarrow> snd (setTimer (Suc i) ms fr s) = s"
  by (simp add: setTimer_def Let_def)

lemma setTimer_calls [simp]:
  "filter is_timer_call (printed (snd (setTimer i ms fr s))) = filter is_timer_call (printed s)"
  by (simp add: setTimer_def Let_def case_prod_beta)

lemma setTimer_burst:
  "nCyclesBurst s = nCyclesRemain s \<Longrightarrow>
     nCyclesBurst (snd (setTimer i ms fr s)) = nCyclesRemain (snd (setTimer i ms fr s))"
  by (simp add: setTimer_def Let_def case_prod_beta)

text \<open>One \<open>setTimer\<close> call on timer \<open>i\<close> when no burst cycles are pending.\<close>

lemma setTimer_rearm:
  assumes i: "i < length (aTimers s)" and b: "nCyclesBurst s = nCyclesRemain s"
  shows "aTimers (snd (setTimer (Suc i) ms fr s)) =
           (aTimers s)[i := (aTimers s ! i)\<lparr>nCyclesLeft :=
              rearm s (nCyclesLeft (aTimers s ! i)) (Suc i, ms, fr)\<rparr>]"
proof (cases "fr \<or> nCyclesLeft (aTimers s ! i) < 0")
  case True
  show ?thesis
    unfolding setTimer_arms(1) [OF i True] using True b by (simp add: rearm_def)
next
  case False
  then have "snd (setTimer (Suc i) ms fr s) = s" by (simp add: setTimer_armed)
  then show ?thesis using False by (simp add: rearm_def)
qed

lemma run_acts_Nil [simp]: "run_acts [] s = s"
  by (simp add: run_acts_def)

lemma run_acts_Cons:
  "run_acts ((iTimer, ms, fr) # acts) s = run_acts acts (snd (setTimer iTimer ms fr s))"
  by (simp add: run_acts_def)

lemma run_acts_frame [simp]:
  "fRunning (run_acts acts s) = fRunning s \<and> nStepping (run_acts acts s) = nStepping s
   \<and> aClocks (run_acts acts s) = aClocks s \<and> clock_answers (run_acts acts s) = clock_answers s
   \<and> nCyclesPerSecond (run_acts acts s) = nCyclesPerSecond s
   \<and> nCurrentMultiplier (run_acts acts s) = nCurrentMultiplier s
   \<and> timer_acts (run_acts acts s) = timer_acts s
   \<and> nTimerCalls (run_acts acts s) = nTimerCalls s
   \<and> length (aTimers (run_acts acts s)) = length (aTimers s)
   \<and> filter is_timer_call (printed (run_acts acts s)) = filter is_timer_call (printed s)"
proof (induction acts arbitrary: s)
  case Nil
  show ?case by simp
next
  case (Cons a acts)
  obtain iTimer ms fr where a: "a = (iTimer, ms, fr)" by (cases a)
  show ?case unfolding a run_acts_Cons using Cons [of "snd (setTimer iTimer ms fr s)"] by simp
qed

lemma run_acts_burst:
  "nCyclesBurst s = nCyclesRemain s \<Longrightarrow>
     nCyclesBurst (run_acts acts s) = nCyclesRemain (run_acts acts s)"
proof (induction acts arbitrary: s)
  case Nil
  then show ?case by simp
next
  case (Cons a acts)
  obtain iTimer ms fr where a: "a = (iTimer, ms, fr)" by (cases a)
  show ?case unfolding a run_acts_Cons
    by (rule Cons.IH) (rule setTimer_burst [OF Cons.prems])
qed

text \<open>The \<open>setTimer\<close> calls of a callback that are all for timer \<open>i\<close>.\<close>

lemma run_acts_own:
  assumes "i < length (aTimers s)" and "nCyclesBurst s = nCyclesRemain s"
    and "\<forall>a \<in> set acts. fst a = Suc i"
  shows "aTimers (run_acts acts s) =
           (aTimers s)[i := (aTimers s ! i)\<lparr>nCyclesLeft :=
              fold (\<lambda>a l. rearm s l a) acts (nCyclesLeft (aTimers s ! i))\<rparr>]"
  using assms
proof (induction acts arbitrary: s)
  case Nil
  show ?case by simp
next
  case (Cons a acts)
  obtain iTimer ms fr where a: "a = (iTimer, ms, fr)" by (cases a)
  have it: "iTimer = Suc i" using Cons.prems(3) a by simp
  let ?s = "snd (setTimer (Suc i) ms fr s)"
  let ?l = "rearm s (nCyclesLeft (aTimers s ! i)) (Suc i, ms, fr)"
  have ts: "aTimers ?s = (aTimers s)[i := (aTimers s ! i)\<lparr>nCyclesLeft := ?l\<rparr>]"
    by (rule setTimer_rearm [OF Cons.prems(1,2)])
  have len: "i < length (aTimers ?s)" using Cons.prems(1) by simp
  have b: "nCyclesBurst ?s = nCyclesRemain ?s" by (rule setTimer_burst [OF Cons.prems(2)])
  have own: "\<forall>a \<in> set acts. fst a = Suc i" using Cons.prems(3) by simp
  have r: "rearm ?s = rearm s" by (rule rearm_cong) simp_all
  have "aTimers (run_acts acts ?s) =
          (aTimers ?s)[i := (aTimers ?s ! i)\<lparr>nCyclesLeft :=
             fold (\<lambda>a l. rearm ?s l a) acts (nCyclesLeft (aTimers ?s ! i))\<rparr>]"
    by (rule Cons.IH [OF len b own])
  then show ?case
    unfolding a it run_acts_Cons r using Cons.prems(1) by (simp add: ts)
qed

lemma call_timer_frame [simp]:
  "fRunning (call_timer i s) = fRunning s" "nStepping (call_timer i s) = nStepping s"
  "aClocks (call_timer i s) = aClocks s" "clock_answers (call_timer i s) = clock_answers s"
  "nCyclesPerSecond (call_timer i s) = nCyclesPerSecond s"
  "nCurrentMultiplier (call_timer i s) = nCurrentMultiplier s"
  "timer_acts (call_timer i s) = timer_acts s"
  "nTimerCalls (call_timer i s) = nTimerCalls s + 1"
  "length (aTimers (call_timer i s)) = length (aTimers s)"
  by (simp_all add: call_timer_def Let_def println_def split: callback.splits)

lemma call_timer_burst:
  "nCyclesBurst s = nCyclesRemain s \<Longrightarrow>
     nCyclesBurst (call_timer i s) = nCyclesRemain (call_timer i s)"
  by (simp add: call_timer_def Let_def println_def run_acts_burst split: callback.splits)

lemma call_timer_calls:
  "filter is_timer_call (printed (call_timer (Suc i) s)) =
     filter is_timer_call (printed s)
       @ [TimerCall (Suc i) (callBack (aTimers s ! i)) (nCyclesLeft (aTimers s ! i))]"
  by (simp add: call_timer_def Let_def println_def split: callback.splits)

text \<open>
  A callback that arms no timer but its own: what it leaves of the timers.
\<close>

lemma call_timer_own:
  assumes i: "i < length (aTimers s)" and b: "nCyclesBurst s = nCyclesRemain s"
    and own: "\<forall>k c. callBack (aTimers s ! i) = External k \<longrightarrow>
                (\<forall>a \<in> set (timer_acts s k c). fst a = Suc i)"
  shows "aTimers (call_timer (Suc i) s) =
           (aTimers s)[i := (aTimers s ! i)\<lparr>nCyclesLeft :=
              fold (\<lambda>a l. rearm s l a)
                (case callBack (aTimers s ! i) of
                   OnYield \<Rightarrow> [] | External k \<Rightarrow> timer_acts s k (nTimerCalls s))
                (nCyclesLeft (aTimers s ! i))\<rparr>]"
proof (cases "callBack (aTimers s ! i)")
  case OnYield
  then show ?thesis by (simp add: call_timer_def Let_def println_def)
next
  case (External k)
  let ?s2 = "s\<lparr>printed := printed s @ [TimerCall (Suc i) (External k) (nCyclesLeft (aTimers s ! i))],
                nTimerCalls := nTimerCalls s + 1\<rparr>"
  have c: "call_timer (Suc i) s = run_acts (timer_acts s k (nTimerCalls s)) ?s2"
    using External by (simp add: call_timer_def Let_def println_def)
  have r: "rearm ?s2 = rearm s" by (rule rearm_cong) simp_all
  have o: "\<forall>a \<in> set (timer_acts s k (nTimerCalls s)). fst a = Suc i"
    using own External by blast
  have "aTimers (run_acts (timer_acts s k (nTimerCalls s)) ?s2) =
          (aTimers ?s2)[i := (aTimers ?s2 ! i)\<lparr>nCyclesLeft :=
             fold (\<lambda>a l. rearm ?s2 l a) (timer_acts s k (nTimerCalls s))
               (nCyclesLeft (aTimers ?s2 ! i))\<rparr>]"
    by (rule run_acts_own) (use i b o in simp_all)
  then show ?thesis unfolding c r using External by simp
qed

lemma timer_after_fields [simp]:
  "callBack (timer_after s n i j) = callBack (aTimers s ! j)"
  "msAuto (timer_after s n i j) = msAuto (aTimers s ! j)"
  "id_timer (timer_after s n i j) = id_timer (aTimers s ! j)"
  by (simp_all add: timer_after_def Let_def)

lemma fired_above_self [simp]: "fired_above n ts (Suc i) i = 0"
  by (simp add: fired_above_def)

lemma fired_above_Suc:
  "j < i \<Longrightarrow> fired_above n ts (Suc i) j
                = fired_above n ts i j + (if fires n (ts ! i) then 1 else 0)"
  by (simp add: fired_above_def)

lemma fired_above_cong:
  "(\<And>m. m < i \<Longrightarrow> ts' ! m = ts ! m) \<Longrightarrow> fired_above n ts' i j = fired_above n ts i j"
  unfolding fired_above_def
  by (rule arg_cong [where f = length]) (auto intro!: filter_cong)

text \<open>
  One turn of the loop of \<open>notifyTimers\<close>, for timer \<open>i\<close>, when no burst cycles are
  pending and the callback of timer \<open>i\<close> arms no timer but its own.
\<close>

lemma notify_loop_step:
  assumes i: "i < length (aTimers s)" and b: "nCyclesBurst s = nCyclesRemain s"
    and own: "\<forall>k c. callBack (aTimers s ! i) = External k \<longrightarrow>
                (\<forall>a \<in> set (timer_acts s k c). fst a = Suc i)"
  shows "\<exists>s1. notify_loop (Suc i) n s = notify_loop i n s1
           \<and> aTimers s1 = (aTimers s)[i := timer_after s n (Suc i) i]
           \<and> filter is_timer_call (printed s1) = filter is_timer_call (printed s)
               @ (if fires n (aTimers s ! i)
                  then [TimerCall (Suc i) (callBack (aTimers s ! i)) (- 1)] else [])
           \<and> nCyclesPerSecond s1 = nCyclesPerSecond s
           \<and> nCurrentMultiplier s1 = nCurrentMultiplier s
           \<and> nCyclesBurst s1 = nCyclesRemain s1
           \<and> timer_acts s1 = timer_acts s
           \<and> nTimerCalls s1 = nTimerCalls s + (if fires n (aTimers s ! i) then 1 else 0)"
proof -
  let ?t = "aTimers s ! i"
  show ?thesis
  proof (cases "nCyclesLeft ?t < 0")
    case True
    then have r: "notify_loop (Suc i) n s = notify_loop i n s
           \<and> aTimers s = (aTimers s)[i := timer_after s n (Suc i) i]
           \<and> filter is_timer_call (printed s) = filter is_timer_call (printed s)
               @ (if fires n (aTimers s ! i)
                  then [TimerCall (Suc i) (callBack (aTimers s ! i)) (- 1)] else [])
           \<and> nCyclesPerSecond s = nCyclesPerSecond s
           \<and> nCurrentMultiplier s = nCurrentMultiplier s
           \<and> nCyclesBurst s = nCyclesRemain s
           \<and> timer_acts s = timer_acts s
           \<and> nTimerCalls s = nTimerCalls s + (if fires n (aTimers s ! i) then 1 else 0)"
      using b by (simp add: Let_def timer_after_def fires_def)
    show ?thesis by (rule exI [of _ s]) (rule r)
  next
    case armed: False
    let ?left = "nCyclesLeft ?t - n"
    let ?s1 = "s\<lparr>aTimers := (aTimers s)[i := ?t\<lparr>nCyclesLeft := ?left\<rparr>]\<rparr>"
    show ?thesis
    proof (cases "?left \<le> 0")
      case False
      then have r: "notify_loop (Suc i) n s = notify_loop i n ?s1
           \<and> aTimers ?s1 = (aTimers s)[i := timer_after s n (Suc i) i]
           \<and> filter is_timer_call (printed ?s1) = filter is_timer_call (printed s)
               @ (if fires n (aTimers s ! i)
                  then [TimerCall (Suc i) (callBack (aTimers s ! i)) (- 1)] else [])
           \<and> nCyclesPerSecond ?s1 = nCyclesPerSecond s
           \<and> nCurrentMultiplier ?s1 = nCurrentMultiplier s
           \<and> nCyclesBurst ?s1 = nCyclesRemain ?s1
           \<and> timer_acts ?s1 = timer_acts s
           \<and> nTimerCalls ?s1 = nTimerCalls s + (if fires n (aTimers s ! i) then 1 else 0)"
        using b armed by (simp add: Let_def timer_after_def fires_def)
      show ?thesis by (rule exI [of _ ?s1]) (rule r)
    next
      case fire: True
      let ?d = "?t\<lparr>nCyclesLeft := - 1\<rparr>"
      let ?s2 = "s\<lparr>aTimers := (aTimers s)[i := ?d]\<rparr>"
      let ?s3 = "call_timer (Suc i) ?s2"
      let ?s4 = "if msAuto ?t \<ge> 0 then snd (setTimer (Suc i) (msAuto ?t) False ?s3) else ?s3"
      let ?acts = "case callBack ?t of OnYield \<Rightarrow> [] | External k \<Rightarrow> timer_acts s k (nTimerCalls s)"
      let ?l = "fold (\<lambda>a l. rearm s l a) ?acts (- 1)"
      have f: "fires n ?t" using armed fire by (simp add: fires_def)
      have i2: "i < length (aTimers ?s2)" using i by simp
      have b2: "nCyclesBurst ?s2 = nCyclesRemain ?s2" using b by simp
      have own2: "\<forall>k c. callBack (aTimers ?s2 ! i) = External k \<longrightarrow>
                    (\<forall>a \<in> set (timer_acts ?s2 k c). fst a = Suc i)"
        using own i by simp
      have r2: "rearm ?s2 = rearm s" by (rule rearm_cong) simp_all
      have s3: "aTimers ?s3 = (aTimers s)[i := ?t\<lparr>nCyclesLeft := ?l\<rparr>]"
        unfolding call_timer_own [OF i2 b2 own2] r2 using i by (simp split: callback.splits)
      have b3: "nCyclesBurst ?s3 = nCyclesRemain ?s3" by (rule call_timer_burst [OF b2])
      have i3: "i < length (aTimers ?s3)" using i by simp
      have r3: "rearm ?s3 = rearm s" by (rule rearm_cong) simp_all
      have g3: "getCyclesPerMS ?s3 = getCyclesPerMS s" by (rule getCyclesPerMS_cong) simp_all
      have loop: "notify_loop (Suc i) n s = notify_loop i n ?s4"
        using armed fire i by (simp add: Let_def s3)
      have calls: "filter is_timer_call (printed ?s3) =
                     filter is_timer_call (printed s) @ [TimerCall (Suc i) (callBack ?t) (- 1)]"
        using i by (simp add: call_timer_calls)
      have acts: "callback_acts s n (Suc i) i = ?acts"
        by (simp add: callback_acts_def split: callback.splits)
      have after: "timer_after s n (Suc i) i =
                     ?t\<lparr>nCyclesLeft := (if msAuto ?t \<ge> 0 \<and> ?l < 0
                                           then getCyclesPerMS s (msAuto ?t) else ?l)\<rparr>"
        using armed f by (simp add: timer_after_def Let_def acts)
      have timers: "aTimers ?s4 = (aTimers s)[i := timer_after s n (Suc i) i]"
      proof (cases "msAuto ?t \<ge> 0")
        case False
        then show ?thesis unfolding after using s3 by simp
      next
        case True
        have "aTimers (snd (setTimer (Suc i) (msAuto ?t) False ?s3)) =
                (aTimers ?s3)[i := (aTimers ?s3 ! i)\<lparr>nCyclesLeft :=
                   rearm ?s3 (nCyclesLeft (aTimers ?s3 ! i)) (Suc i, msAuto ?t, False)\<rparr>]"
          by (rule setTimer_rearm [OF i3 b3])
        then show ?thesis
          unfolding after r3 using True i by (simp add: s3 rearm_def)
      qed
      have r: "notify_loop (Suc i) n s = notify_loop i n ?s4
           \<and> aTimers ?s4 = (aTimers s)[i := timer_after s n (Suc i) i]
           \<and> filter is_timer_call (printed ?s4) = filter is_timer_call (printed s)
               @ (if fires n (aTimers s ! i)
                  then [TimerCall (Suc i) (callBack (aTimers s ! i)) (- 1)] else [])
           \<and> nCyclesPerSecond ?s4 = nCyclesPerSecond s
           \<and> nCurrentMultiplier ?s4 = nCurrentMultiplier s
           \<and> nCyclesBurst ?s4 = nCyclesRemain ?s4
           \<and> timer_acts ?s4 = timer_acts s
           \<and> nTimerCalls ?s4 = nTimerCalls s + (if fires n (aTimers s ! i) then 1 else 0)"
        using loop timers calls f b3 by (simp add: setTimer_burst)
      show ?thesis by (rule exI [of _ ?s4]) (rule r)
    qed
  qed
qed

lemma timer_calls_Suc:
  "timer_calls n ts (Suc i) =
     (if fires n (ts ! i) then [TimerCall (Suc i) (callBack (ts ! i)) (- 1)] else [])
       @ timer_calls n ts i"
  by (simp add: timer_calls_def)

lemma timer_calls_cong:
  "(\<And>j. j < i \<Longrightarrow> ts' ! j = ts ! j) \<Longrightarrow> timer_calls n ts' i = timer_calls n ts i"
  unfolding timer_calls_def
  by (rule map_cong) (auto intro!: filter_cong)

lemma timer_after_step:
  assumes j: "j < i" and i: "i < length (aTimers s)"
    and ts: "aTimers s1 = (aTimers s)[i := x]"
    and c: "nCyclesPerSecond s1 = nCyclesPerSecond s"
           "nCurrentMultiplier s1 = nCurrentMultiplier s"
    and a: "timer_acts s1 = timer_acts s"
    and k: "nTimerCalls s1 = nTimerCalls s + (if fires n (aTimers s ! i) then 1 else 0)"
  shows "timer_after s1 n i j = timer_after s n (Suc i) j"
proof -
  have t: "aTimers s1 ! j = aTimers s ! j" using j ts by simp
  have f: "fired_above n (aTimers s1) i j = fired_above n (aTimers s) i j"
    by (rule fired_above_cong) (simp add: ts)
  have acts: "callback_acts s1 n i j = callback_acts s n (Suc i) j"
    by (simp add: callback_acts_def t a k f fired_above_Suc [OF j] ac_simps
          split: callback.splits)
  have r: "rearm s1 = rearm s" using c by (rule rearm_cong)
  have g: "getCyclesPerMS s1 = getCyclesPerMS s" using c by (rule getCyclesPerMS_cong)
  show ?thesis by (simp add: timer_after_def Let_def t acts r g)
qed

lemma notify_loop_result:
  "i \<le> length (aTimers s) \<Longrightarrow> nCyclesBurst s = nCyclesRemain s \<Longrightarrow> own_timer_only s \<Longrightarrow>
     aTimers (notify_loop i n s) = map (timer_after s n i) [0..<i] @ drop i (aTimers s)
     \<and> filter is_timer_call (printed (notify_loop i n s)) =
         filter is_timer_call (printed s) @ timer_calls n (aTimers s) i"
proof (induction i arbitrary: s)
  case 0
  show ?case by (simp add: timer_calls_def)
next
  case (Suc i)
  let ?ts = "aTimers s"
  let ?x = "timer_after s n (Suc i) i"
  have i: "i < length ?ts" using Suc.prems(1) by simp
  have own: "\<forall>k c. callBack (?ts ! i) = External k \<longrightarrow>
               (\<forall>a \<in> set (timer_acts s k c). fst a = Suc i)"
    using Suc.prems(3) i unfolding own_timer_only_def by blast
  obtain s1 where s1: "notify_loop (Suc i) n s = notify_loop i n s1"
      "aTimers s1 = ?ts[i := ?x]"
      "filter is_timer_call (printed s1) = filter is_timer_call (printed s)
          @ (if fires n (?ts ! i) then [TimerCall (Suc i) (callBack (?ts ! i)) (- 1)] else [])"
      "nCyclesPerSecond s1 = nCyclesPerSecond s" "nCurrentMultiplier s1 = nCurrentMultiplier s"
      "nCyclesBurst s1 = nCyclesRemain s1"
      "timer_acts s1 = timer_acts s"
      "nTimerCalls s1 = nTimerCalls s + (if fires n (?ts ! i) then 1 else 0)"
    using notify_loop_step [OF i Suc.prems(2) own, of n] by blast
  have len: "i \<le> length (aTimers s1)" using i s1(2) by simp
  have cb: "\<And>j. j < length ?ts \<Longrightarrow> callBack (aTimers s1 ! j) = callBack (?ts ! j)"
    using s1(2) i by (auto simp: nth_list_update)
  have own1: "own_timer_only s1"
    unfolding own_timer_only_def
  proof (intro allI impI)
    fix j k c
    assume j: "j < length (aTimers s1)" and e: "callBack (aTimers s1 ! j) = External k"
    have j': "j < length ?ts" using j s1(2) by simp
    then have "callBack (?ts ! j) = External k" using e cb by simp
    then show "\<forall>a \<in> set (timer_acts s1 k c). fst a = Suc j"
      using Suc.prems(3) j' unfolding own_timer_only_def s1(7) by blast
  qed
  note IH = Suc.IH [OF len s1(6) own1]
  have after: "map (timer_after s1 n i) [0..<i] = map (timer_after s n (Suc i)) [0..<i]"
    by (rule map_cong [OF refl]) (simp add: timer_after_step [OF _ i s1(2,4,5,7,8)])
  have dr: "drop i (?ts[i := ?x]) = ?x # drop (Suc i) ?ts"
    using i by (simp add: Cons_nth_drop_Suc [symmetric])
  have 1: "aTimers (notify_loop (Suc i) n s) =
             map (timer_after s n (Suc i)) [0..<Suc i] @ drop (Suc i) ?ts"
    using IH [THEN conjunct1] unfolding s1(1) after
    by (simp add: s1(2) dr del: notify_loop.simps)
  have c: "timer_calls n (aTimers s1) i = timer_calls n ?ts i"
    by (rule timer_calls_cong) (simp add: s1(2))
  have 2: "filter is_timer_call (printed (notify_loop (Suc i) n s)) =
             filter is_timer_call (printed s) @ timer_calls n ?ts (Suc i)"
    using IH [THEN conjunct2] unfolding s1(1) s1(3) c timer_calls_Suc by simp
  show ?case using 1 2 by blast
qed

text \<open>
  Claim C7, as amended. After a burst its cycles are no longer pending (\<open>endBurst\<close> has
  cleared \<open>nCyclesBurst\<close> and \<open>nCyclesRemain\<close>). If every callback of a device arms no
  timer but its own, \<open>notifyTimers(n)\<close> with \<open>n \<ge> 1\<close> turns every timer into what
  \<open>timer_after\<close> says: a dormant timer is unchanged, an armed one is charged \<open>n\<close>
  cycles, and one that reaches zero or less is made dormant, has its callback called,
  keeps the countdown that the callback's \<open>setTimer\<close> calls give it, and is armed for
  its automatic period at the current multiplier only if the callback has left it
  dormant. The callbacks called are those of the timers that fire, from the last
  registered timer to the first, each at a moment when its timer's countdown is \<open>-1\<close>.
\<close>

theorem notifyTimers_effect:
  assumes "1 \<le> n" and "nCyclesBurst s = nCyclesRemain s" and "own_timer_only s"
  shows "aTimers (notifyTimers n s) =
           map (timer_after s n (length (aTimers s))) [0..<length (aTimers s)]
         \<and> filter is_timer_call (printed (notifyTimers n s)) =
             filter is_timer_call (printed s) @ timer_calls n (aTimers s) (length (aTimers s))"
  using notify_loop_result [OF le_refl assms(2,3), of n] assms(1)
  by (simp add: notifyTimers_def)

lemma endBurst_clears:
  "nCyclesBurst (snd (endBurst a s)) = nCyclesRemain (snd (endBurst a s))"
  by simp

lemma notify_loop_frame [simp]:
  "fRunning (notify_loop i n s) = fRunning s \<and> nStepping (notify_loop i n s) = nStepping s
   \<and> aClocks (notify_loop i n s) = aClocks s
   \<and> clock_answers (notify_loop i n s) = clock_answers s"
  by (induction i arbitrary: s) (simp_all add: Let_def)

lemma notifyTimers_frame [simp]:
  "fRunning (notifyTimers n s) = fRunning s" "nStepping (notifyTimers n s) = nStepping s"
  "aClocks (notifyTimers n s) = aClocks s" "clock_answers (notifyTimers n s) = clock_answers s"
  by (simp_all add: notifyTimers_def)

lemma example_timers:
  "aTimers (example_time acts) =
     [\<lparr>id_timer = ''timerYield'', callBack = OnYield, msAuto = 8, nCyclesLeft = 5200\<rparr>,
      \<lparr>id_timer = ''blink'', callBack = External 7, msAuto = 1, nCyclesLeft = 650\<rparr>,
      \<lparr>id_timer = ''once'', callBack = External 9, msAuto = - 1, nCyclesLeft = 650\<rparr>,
      \<lparr>id_timer = ''idle'', callBack = External 5, msAuto = - 1, nCyclesLeft = - 1\<rparr>]"
  "printed (example_time acts) = [PrintStarted]"
  "timer_acts (example_time acts) = acts"
  "nCyclesBurst (example_time acts) = nCyclesRemain (example_time acts)"
  "getCyclesPerMS (example_time acts) 1 = 650"
  "getCyclesPerMS (example_time acts) 50 = 32500"
  by (simp_all add: example_time_eq getCyclesPerMS_def)

lemma example_own:
  "own_timer_only (example_time once_acts)" "own_timer_only (example_time blink_acts)"
  by (simp_all add: own_timer_only_def example_timers once_acts_def blink_acts_def
        less_Suc_eq eval_nat_numeral)

lemma upt_4: "[0..<4] = [0, 1, 2, 3]" "rev [0..<4] = [3, 2, 1, 0]"
  by (simp_all add: upt_rec)

theorem notifyTimers_effect_witness:
  "aTimers (notifyTimers 1000 (example_time once_acts)) =
     [\<lparr>id_timer = ''timerYield'', callBack = OnYield, msAuto = 8, nCyclesLeft = 4200\<rparr>,
      \<lparr>id_timer = ''blink'', callBack = External 7, msAuto = 1, nCyclesLeft = 650\<rparr>,
      \<lparr>id_timer = ''once'', callBack = External 9, msAuto = - 1, nCyclesLeft = 32500\<rparr>,
      \<lparr>id_timer = ''idle'', callBack = External 5, msAuto = - 1, nCyclesLeft = - 1\<rparr>]
   \<and> filter is_timer_call (printed (notifyTimers 1000 (example_time once_acts))) =
       [TimerCall 3 (External 9) (- 1), TimerCall 2 (External 7) (- 1)]"
proof -
  have a: "(1::int) \<le> 1000" by simp
  show ?thesis
    using notifyTimers_effect [OF a example_timers(4) example_own(1)]
    by (simp add: example_timers(1,2,3,5,6) upt_4 timer_after_def callback_acts_def rearm_def
          fires_def timer_calls_def once_acts_def Let_def eval_nat_numeral)
qed

text \<open>
  The claim as first stated has every timer with an automatic period armed again for
  that period. It is not when the callback has armed the timer itself: \<open>setTimer\<close>
  without the reset flag leaves an armed timer alone. In \<open>example_time blink_acts\<close> the
  callback of the second timer, whose automatic period of one millisecond is 650
  cycles, asks for 50 milliseconds; after \<open>notifyTimers(1000)\<close> the timer has 32500
  cycles to go.
\<close>

theorem notifyTimers_rearm_counterexample:
  "msAuto (aTimers (example_time blink_acts) ! 1) = 1
   \<and> nCyclesLeft (aTimers (example_time blink_acts) ! 1) = 650
   \<and> getCyclesPerMS (example_time blink_acts) 1 = 650
   \<and> nCyclesLeft (aTimers (notifyTimers 1000 (example_time blink_acts)) ! 1) = 32500"
proof -
  let ?s = "example_time blink_acts"
  have len: "length (aTimers ?s) = 4" by (simp add: example_timers(1))
  have "aTimers (notify_loop (length (aTimers ?s)) 1000 ?s) =
          map (timer_after ?s 1000 (length (aTimers ?s))) [0..<length (aTimers ?s)]
            @ drop (length (aTimers ?s)) (aTimers ?s)"
    using notify_loop_result [OF le_refl example_timers(4) example_own(2), of 1000]
    by (rule conjunct1)
  then have "aTimers (notifyTimers 1000 ?s) = map (timer_after ?s 1000 4) [0..<4]"
    by (simp add: notifyTimers_def len)
  then have "nCyclesLeft (aTimers (notifyTimers 1000 ?s) ! 1) = 32500"
    by (simp add: example_timers(1,2,3,5,6) upt_4 timer_after_def callback_acts_def rearm_def
          fires_def blink_acts_def Let_def eval_nat_numeral)
  then show ?thesis by (simp add: example_timers)
qed

subsection \<open>Bursts and runs\<close>

lemma doBurst_loop_throws:
  "doBurst_loop fuel i n s = Some (Inl (msg, s')) \<Longrightarrow>
     \<exists>d \<in> set (aClocks s). \<exists>k c. clock_answers s d k c = Throws msg"
proof (induction fuel i n s rule: doBurst_loop.induct)
  case (1 iClock nCycles s)
  then show ?case by simp
next
  case (2 fuel iClock nCycles s)
  show ?case
  proof (cases "nCyclesRemain s > 0")
    case False
    then show ?thesis using "2.prems" by simp
  next
    case pos: True
    show ?thesis
    proof (cases "iClock < length (aClocks s)")
      case False
      then have "doBurst_loop fuel 0 0 s = Some (Inl (msg, s'))" using "2.prems" pos by simp
      then show ?thesis using "2.IH"(2) pos False by simp
    next
      case lt: True
      show ?thesis
      proof (cases "clock_answers s (aClocks s ! iClock) (nClockCalls s) nCycles")
        case (Throws m)
        then have "m = msg" using "2.prems" pos lt by simp
        then have "clock_answers s (aClocks s ! iClock) (nClockCalls s) nCycles = Throws msg"
          using Throws by simp
        moreover have "aClocks s ! iClock \<in> set (aClocks s)" using lt by simp
        ultimately show ?thesis by blast
      next
        case (Returns x)
        let ?n = "if x = 0 then 1 else x"
        let ?s = "s\<lparr>nClockCalls := nClockCalls s + 1, nCyclesRemain := nCyclesRemain s - ?n\<rparr>"
        have "doBurst_loop fuel (iClock + 1) ?n ?s = Some (Inl (msg, s'))"
          using "2.prems" pos lt Returns by (simp add: Let_def)
        then have "\<exists>d \<in> set (aClocks ?s). \<exists>k c. clock_answers ?s d k c = Throws msg"
          using "2.IH"(1) [OF pos lt Returns refl] by blast
        then show ?thesis by simp
      qed
    qed
  qed
qed

lemma doBurst_throws:
  "doBurst fuel n s = Some (Inl (msg, s')) \<Longrightarrow>
     \<exists>d \<in> set (aClocks s). \<exists>k c. clock_answers s d k c = Throws msg"
proof (cases "aClocks s = []")
  case True
  assume "doBurst fuel n s = Some (Inl (msg, s'))"
  then show ?thesis using True by (simp add: doBurst_def Let_def)
next
  case False
  assume "doBurst fuel n s = Some (Inl (msg, s'))"
  then have "doBurst_loop fuel 0 n (s\<lparr>nCyclesBurst := n, nCyclesRemain := n\<rparr>)
               = Some (Inl (msg, s'))"
    using False by (simp add: doBurst_def Let_def)
  from doBurst_loop_throws [OF this] show ?thesis by simp
qed

lemma burst_cases:
  assumes "burst fuel fAnimation m s = Some r"
  obtains (throws) msg s2 where
      "doBurst fuel (fst (getCyclesPerRun fAnimation m s)) (snd (getCyclesPerRun fAnimation m s))
         = Some (Inl (msg, s2))"
      "r = Inl (msg, s2)"
  | (returns) e s2 where
      "doBurst fuel (fst (getCyclesPerRun fAnimation m s)) (snd (getCyclesPerRun fAnimation m s))
         = Some (Inr (e, s2))"
      "r = Inr ((), notifyTimers (fst (endBurst (Some e) s2)) (snd (endBurst (Some e) s2)))"
proof -
  let ?d = "doBurst fuel (fst (getCyclesPerRun fAnimation m s))
              (snd (getCyclesPerRun fAnimation m s))"
  note b = burst_def case_prod_beta Let_def
  show thesis
  proof (cases ?d)
    case None
    then show ?thesis using assms by (simp add: b)
  next
    case (Some x)
    show ?thesis
    proof (cases x)
      case (Inl p)
      obtain msg s2 where p: "p = (msg, s2)" by (cases p)
      have "r = Inl (msg, s2)" using assms Some Inl p by (simp add: b)
      then show ?thesis using throws Some Inl p by simp
    next
      case (Inr p)
      obtain e s2 where p: "p = (e, s2)" by (cases p)
      have "r = Inr ((), notifyTimers (fst (endBurst (Some e) s2)) (snd (endBurst (Some e) s2)))"
        using assms Some Inr p by (simp add: b)
      then show ?thesis using returns Some Inr p by simp
    qed
  qed
qed

lemma burst_frame:
  assumes "burst fuel fAnimation m s = Some r"
  shows "fRunning (result_state r) = fRunning s \<and> nStepping (result_state r) = nStepping s
         \<and> aClocks (result_state r) = aClocks s
         \<and> clock_answers (result_state r) = clock_answers s"
  using assms
proof (cases rule: burst_cases)
  case (throws msg s2)
  from doBurst_frame [OF throws(1)] show ?thesis using throws(2) by simp
next
  case (returns e s2)
  from doBurst_frame [OF returns(1)] show ?thesis using returns(2) by simp
qed

lemma burst_throws:
  assumes "burst fuel fAnimation m s = Some (Inl (msg, s'))"
  shows "\<exists>d \<in> set (aClocks s). \<exists>k c. clock_answers s d k c = Throws msg"
  using assms
proof (cases rule: burst_cases)
  case (throws msg' s2)
  then have "doBurst fuel (fst (getCyclesPerRun fAnimation m s))
               (snd (getCyclesPerRun fAnimation m s)) = Some (Inl (msg, s'))" by simp
  from doBurst_throws [OF this] show ?thesis by simp
next
  case (returns e s2)
  then show ?thesis by simp
qed

lemma run_loop_frame:
  "run_loop fuel fAnimation s = Some r \<Longrightarrow>
     fRunning (result_state r) = fRunning s \<and> nStepping (result_state r) = nStepping s
     \<and> aClocks (result_state r) = aClocks s
     \<and> clock_answers (result_state r) = clock_answers s"
proof (induction fuel arbitrary: s)
  case 0
  then show ?case by simp
next
  case (Suc fuel)
  show ?case
  proof (cases "burst (Suc fuel) fAnimation 0 s")
    case None
    then show ?thesis using Suc.prems by simp
  next
    case (Some x)
    note f = burst_frame [OF Some]
    show ?thesis
    proof (cases x)
      case (Inl p)
      then have "r = x" using Suc.prems Some by (cases p) simp
      then show ?thesis using f by simp
    next
      case (Inr p)
      obtain u s1 where p: "p = (u, s1)" by (cases p)
      show ?thesis
      proof (cases "fRunning s1 \<and> \<not> fYield s1")
        case True
        then have "run_loop fuel fAnimation s1 = Some r"
          using Suc.prems Some Inr p by simp
        from Suc.IH [OF this] show ?thesis using f Inr p by simp
      next
        case False
        then have "r = x" using Suc.prems Some Inr p by auto
        then show ?thesis using f by simp
      qed
    qed
  qed
qed

lemma run_loop_throws:
  "run_loop fuel fAnimation s = Some (Inl (msg, s')) \<Longrightarrow>
     \<exists>d \<in> set (aClocks s). \<exists>k c. clock_answers s d k c = Throws msg"
proof (induction fuel arbitrary: s)
  case 0
  then show ?case by simp
next
  case (Suc fuel)
  show ?case
  proof (cases "burst (Suc fuel) fAnimation 0 s")
    case None
    then show ?thesis using Suc.prems by simp
  next
    case (Some x)
    note f = burst_frame [OF Some]
    show ?thesis
    proof (cases x)
      case (Inl p)
      then have "x = Inl (msg, s')" using Suc.prems Some by (cases p) simp
      then show ?thesis using burst_throws Some by blast
    next
      case (Inr p)
      obtain u s1 where p: "p = (u, s1)" by (cases p)
      show ?thesis
      proof (cases "fRunning s1 \<and> \<not> fYield s1")
        case True
        then have "run_loop fuel fAnimation s1 = Some (Inl (msg, s'))"
          using Suc.prems Some Inr p by simp
        from Suc.IH [OF this] show ?thesis using f Inr p by simp
      next
        case False
        then show ?thesis using Suc.prems Some Inr p by auto
      qed
    qed
  qed
qed

subsection \<open>Start, stop, step and the run\<close>

lemma startRun_frame [simp]:
  "fRunning (startRun s) = fRunning s" "nStepping (startRun s) = nStepping s"
  "aClocks (startRun s) = aClocks s" "clock_answers (startRun s) = clock_answers s"
  by (simp_all add: startRun_def calcCycles_def Date_now_def Let_def case_prod_beta)

lemma calcSpeed_frame [simp]:
  "fRunning (calcSpeed n ms s) = fRunning s" "nStepping (calcSpeed n ms s) = nStepping s"
  "nCyclesLife (calcSpeed n ms s) = nCyclesLife s"
  "nCyclesThisRun (calcSpeed n ms s) = nCyclesThisRun s"
  "nCyclesRun (calcSpeed n ms s) = nCyclesRun s"
  "nCyclesBurst (calcSpeed n ms s) = nCyclesBurst s"
  "nCyclesRemain (calcSpeed n ms s) = nCyclesRemain s"
  "idRunTimeout (calcSpeed n ms s) = idRunTimeout s"
  "idAnimation (calcSpeed n ms s) = idAnimation s"
  "printed (calcSpeed n ms s) = printed s"
  "msStartRun (calcSpeed n ms s) = msStartRun s"
  "msEndRun (calcSpeed n ms s) = msEndRun s"
  by (simp_all add: calcSpeed_def)

lemmas sel_if =
  if_distrib [where f = fRunning] if_distrib [where f = nStepping]
  if_distrib [where f = nCyclesLife] if_distrib [where f = nCyclesThisRun]
  if_distrib [where f = nCyclesRun] if_distrib [where f = nCyclesBurst]
  if_distrib [where f = nCyclesRemain] if_distrib [where f = idRunTimeout]
  if_distrib [where f = idAnimation] if_distrib [where f = printed]
  if_distrib [where f = snd] if_distrib [where f = fst]

lemma stopRun_frame [simp]:
  "fRunning (snd (stopRun s)) = fRunning s" "nStepping (snd (stopRun s)) = nStepping s"
  "nCyclesLife (snd (stopRun s)) = nCyclesLife s"
  "nCyclesThisRun (snd (stopRun s)) = nCyclesThisRun s"
  "nCyclesRun (snd (stopRun s)) = nCyclesRun s"
  "nCyclesBurst (snd (stopRun s)) = nCyclesBurst s"
  "nCyclesRemain (snd (stopRun s)) = nCyclesRemain s"
  "idRunTimeout (snd (stopRun s)) = idRunTimeout s"
  "idAnimation (snd (stopRun s)) = idAnimation s"
  by (simp_all add: stopRun_def Date_now_def Let_def case_prod_beta println_def sel_if
      split del: if_split cong: if_cong)

lemma stopRun_printed: "e \<in> set (printed s) \<Longrightarrow> e \<in> set (printed (snd (stopRun s)))"
  by (simp add: stopRun_def Date_now_def Let_def case_prod_beta println_def sel_if
        if_distrib [where f = set] if_distrib [where f = "\<lambda>S. e \<in> S"]
      split del: if_split cong: if_cong)

lemma update_printed: "e \<in> set (printed s) \<Longrightarrow> e \<in> set (printed (update a s))"
  by (simp add: update_def Let_def println_def)

lemma yield_printed: "e \<in> set (printed s) \<Longrightarrow> e \<in> set (printed (yield s))"
  by (simp add: yield_def Let_def update_printed)

lemma endBurst_printed: "e \<in> set (printed s) \<Longrightarrow> e \<in> set (printed (snd (endBurst a s)))"
  by (simp add: endBurst_def Let_def yield_printed)

lemma update_stopped: "\<not> fRunning s \<Longrightarrow> PrintStopped \<in> set (printed (update (Some True) s))"
  by (simp add: update_def Let_def println_def)

lemma stop_result:
  "fst (stop s) = (fRunning s \<or> nStepping s \<noteq> 0)"
  "\<not> fRunning (snd (stop s))"
  "nStepping (snd (stop s)) = (if fRunning s then nStepping s else 0)"
  by (simp_all add: stop_def Let_def)

lemma stop_running:
  assumes "fRunning s"
  shows "nCyclesLife (snd (stop s)) = nCyclesLife s + (nCyclesBurst s - nCyclesRemain s)"
    "nCyclesThisRun (snd (stop s)) = nCyclesThisRun s + (nCyclesBurst s - nCyclesRemain s)"
    "nCyclesRun (snd (stop s)) = 0"
    "nCyclesBurst (snd (stop s)) = 0" "nCyclesRemain (snd (stop s)) = 0"
    "\<not> idRunTimeout (snd (stop s))" "\<not> idAnimation (snd (stop s))"
  using assms by (simp_all add: stop_def Let_def endBurst_counters endBurst_fst)

lemma stop_printed: "e \<in> set (printed s) \<Longrightarrow> e \<in> set (printed (snd (stop s)))"
  by (simp add: stop_def Let_def update_printed endBurst_printed)

lemma stop_stopped: "fRunning s \<Longrightarrow> PrintStopped \<in> set (printed (snd (stop s)))"
  by (simp add: stop_def Let_def update_stopped)

lemma start_result:
  "fst (start s) = (\<not> fRunning s \<and> nStepping s = 0)"
  "fRunning (snd (start s)) = (fRunning s \<or> nStepping s = 0)"
  "nStepping (snd (start s)) = nStepping s"
  by (auto simp: start_def Let_def)

text \<open>
  Claim C8. \<open>runCycles\<close> is entered by \<open>run\<close> and \<open>animate\<close> only while the scheduler
  is running. If then a burst of its loop ends with an exception, which only a clocked
  device's \<open>startClock\<close> throws, \<open>runCycles\<close> still returns: the message is printed,
  the scheduler is stopped with its host timeouts cancelled, and the cycles that the
  devices had executed in the interrupted burst are added to the cycles of the
  scheduler's life and of this run. The count of cycles since the last stop starts again
  at zero, as after every stop.
\<close>

theorem runCycles_catches:
  assumes "fRunning s"
    and "run_loop fuel fAnimation ((startRun s)\<lparr>fYield := False\<rparr>) = Some (Inl (msg, s3))"
  shows "(\<exists>d \<in> set (aClocks s). \<exists>k c. clock_answers s d k c = Throws msg)
         \<and> (\<exists>ms s'. runCycles fuel fAnimation s = Some (ms, s')
               \<and> \<not> fRunning s' \<and> \<not> idRunTimeout s' \<and> \<not> idAnimation s'
               \<and> PrintError msg \<in> set (printed s') \<and> PrintStopped \<in> set (printed s')
               \<and> nCyclesLife s' = nCyclesLife s3 + (nCyclesBurst s3 - nCyclesRemain s3)
               \<and> nCyclesThisRun s' = nCyclesThisRun s3 + (nCyclesBurst s3 - nCyclesRemain s3)
               \<and> nCyclesRun s' = 0 \<and> nCyclesBurst s' = 0 \<and> nCyclesRemain s' = 0)"
proof -
  let ?s2 = "(startRun s)\<lparr>fYield := False\<rparr>"
  let ?e = "println (PrintError msg) s3"
  let ?r = "stopRun (snd (stop ?e))"
  have thrown: "\<exists>d \<in> set (aClocks s). \<exists>k c. clock_answers s d k c = Throws msg"
    using run_loop_throws [OF assms(2)] by simp
  have run: "fRunning ?e"
    using run_loop_frame [OF assms(2)] assms(1) by (simp add: println_def)
  have e: "nCyclesLife ?e = nCyclesLife s3" "nCyclesThisRun ?e = nCyclesThisRun s3"
    "nCyclesBurst ?e = nCyclesBurst s3" "nCyclesRemain ?e = nCyclesRemain s3"
    "PrintError msg \<in> set (printed ?e)"
    by (simp_all add: println_def)
  have res: "runCycles fuel fAnimation s = Some (fst ?r, snd ?r)"
    using assms(2) by (simp add: runCycles_def Let_def)
  have "runCycles fuel fAnimation s = Some (fst ?r, snd ?r)
               \<and> \<not> fRunning (snd ?r) \<and> \<not> idRunTimeout (snd ?r) \<and> \<not> idAnimation (snd ?r)
               \<and> PrintError msg \<in> set (printed (snd ?r))
               \<and> PrintStopped \<in> set (printed (snd ?r))
               \<and> nCyclesLife (snd ?r) = nCyclesLife s3 + (nCyclesBurst s3 - nCyclesRemain s3)
               \<and> nCyclesThisRun (snd ?r)
                   = nCyclesThisRun s3 + (nCyclesBurst s3 - nCyclesRemain s3)
               \<and> nCyclesRun (snd ?r) = 0 \<and> nCyclesBurst (snd ?r) = 0
               \<and> nCyclesRemain (snd ?r) = 0"
    using res stop_running [OF run] stop_result(2) [of ?e] e
      stopRun_printed [OF stop_printed [OF e(5)]] stopRun_printed [OF stop_stopped [OF run]]
    by simp
  then have "\<exists>ms s'. runCycles fuel fAnimation s = Some (ms, s')
               \<and> \<not> fRunning s' \<and> \<not> idRunTimeout s' \<and> \<not> idAnimation s'
               \<and> PrintError msg \<in> set (printed s') \<and> PrintStopped \<in> set (printed s')
               \<and> nCyclesLife s' = nCyclesLife s3 + (nCyclesBurst s3 - nCyclesRemain s3)
               \<and> nCyclesThisRun s' = nCyclesThisRun s3 + (nCyclesBurst s3 - nCyclesRemain s3)
               \<and> nCyclesRun s' = 0 \<and> nCyclesBurst s' = 0 \<and> nCyclesRemain s' = 0"
    by (intro exI [of _ "fst ?r"] exI [of _ "snd ?r"])
  then show ?thesis using thrown by simp
qed

theorem runCycles_catches_witness:
  "\<exists>ms s'. runCycles 2 False faulty_time = Some (ms, s')
      \<and> \<not> fRunning s' \<and> PrintError ''fault'' \<in> set (printed s')
      \<and> nCyclesLife s' = 100 \<and> nCyclesThisRun s' = 100"
proof -
  obtain s3 where s3:
      "run_loop 2 False ((startRun faulty_time)\<lparr>fYield := False\<rparr>) = Some (Inl (''fault'', s3))"
      "nCyclesLife s3 = 0" "nCyclesThisRun s3 = 0"
      "nCyclesBurst s3 = 5200" "nCyclesRemain s3 = 5100"
    using faulty_run by blast
  have r: "fRunning faulty_time" by (simp add: faulty_time_eq)
  show ?thesis
    using runCycles_catches [OF r s3(1)] unfolding s3(2-5) by auto
qed

lemma step_running: "fRunning s \<Longrightarrow> step fuel n s = Some (Inr (False, s))"
  by (simp add: step_def)

lemma step_stopped:
  assumes "\<not> fRunning s" and "step fuel n s = Some r"
  shows "\<not> fRunning (result_state r) \<and> (\<forall>b s'. r = Inr (b, s') \<longrightarrow> b)"
proof -
  let ?s1 = "if n \<noteq> 0 \<and> nStepping s = 0 then s\<lparr>nStepping := n\<rparr> else s"
  have s1: "\<not> fRunning ?s1" using assms(1) by simp
  show ?thesis
  proof (cases "nStepping ?s1 = 0")
    case True
    then have "r = Inr (True, ?s1)"
      using assms by (simp add: step_def Let_def split: if_splits)
    then show ?thesis using s1 by (simp split: if_splits)
  next
    case False
    let ?s2 = "?s1\<lparr>nStepping := nStepping ?s1 - 1\<rparr>"
    have eq: "step fuel n s =
                (case burst fuel True 1 ?s2 of
                   None \<Rightarrow> None
                 | Some (Inl (msg, s3)) \<Rightarrow> Some (Inl (msg, s3))
                 | Some (Inr (u, s3)) \<Rightarrow>
                     (let s4 = update (Some False) s3
                      in if nStepping s4 \<noteq> 0 then Some (Inr (True, s4\<lparr>idStepTimeout := True\<rparr>))
                         else Some (Inr (True, s4))))"
      using assms(1) False unfolding step_def Let_def by (simp only: if_True if_False not_False_eq_True)
    show ?thesis
    proof (cases "burst fuel True 1 ?s2")
      case None
      then show ?thesis using assms(2) eq by simp
    next
      case (Some x)
      have f: "\<not> fRunning (result_state x)"
        using burst_frame [OF Some] s1 by simp
      show ?thesis
      proof (cases x)
        case (Inl p)
        obtain msg s3 where p: "p = (msg, s3)" by (cases p)
        have "r = Inl (msg, s3)" using assms(2) eq Some Inl p by simp
        then show ?thesis using f Inl p by simp
      next
        case (Inr p)
        obtain u s3 where p: "p = (u, s3)" by (cases p)
        have s3: "\<not> fRunning s3" using f Inr p by simp
        let ?s4 = "update (Some False) s3"
        have "r = Inr (True, ?s4\<lparr>idStepTimeout := True\<rparr>) \<or> r = Inr (True, ?s4)"
          using assms(2) eq Some Inr p by (simp add: Let_def split: if_splits)
        then show ?thesis using s3 by auto
      qed
    qed
  qed
qed

lemma step_fRunning:
  assumes "step fuel n s = Some r"
  shows "fRunning (result_state r) = fRunning s"
proof (cases "fRunning s")
  case True
  then show ?thesis using assms by (auto simp: step_running)
next
  case False
  then show ?thesis using step_stopped [OF False assms] by simp
qed

lemma runCycles_ctl:
  assumes "runCycles fuel fAnimation s = Some (ms, s')"
  shows "(fRunning s' \<longrightarrow> fRunning s) \<and> (nStepping s' = nStepping s \<or> nStepping s' = 0)"
proof -
  let ?s2 = "(startRun s)\<lparr>fYield := False\<rparr>"
  show ?thesis
  proof (cases "run_loop fuel fAnimation ?s2")
    case None
    then show ?thesis using assms by (simp add: runCycles_def Let_def)
  next
    case (Some x)
    have f: "fRunning (result_state x) = fRunning s" "nStepping (result_state x) = nStepping s"
      using run_loop_frame [OF Some] by simp_all
    show ?thesis
    proof (cases x)
      case (Inl p)
      obtain msg s3 where p: "p = (msg, s3)" by (cases p)
      have "(ms, s') = stopRun (snd (stop (println (PrintError msg) s3)))"
        using assms Some Inl p by (simp add: runCycles_def Let_def)
      then have "s' = snd (stopRun (snd (stop (println (PrintError msg) s3))))"
        by (metis snd_conv)
      then show ?thesis using f Inl p by (simp add: stop_result println_def)
    next
      case (Inr p)
      obtain u s3 where p: "p = (u, s3)" by (cases p)
      have "(ms, s') = stopRun s3"
        using assms Some Inr p by (simp add: runCycles_def Let_def)
      then have "s' = snd (stopRun s3)" by (metis snd_conv)
      then show ?thesis using f Inr p by simp
    qed
  qed
qed

lemma animate_ctl:
  assumes "animate fuel s = Some s'"
  shows "(fRunning s' \<longrightarrow> fRunning s) \<and> (nStepping s' = nStepping s \<or> nStepping s' = 0)"
proof (cases "fClockByFrame s \<and> fRunning s")
  case False
  then show ?thesis using assms by (auto simp: animate_def Let_def split: if_splits)
next
  case True
  let ?s1 = "s\<lparr>idAnimation := False\<rparr>"
  show ?thesis
  proof (cases "runCycles fuel True ?s1")
    case None
    then show ?thesis using assms True by (simp add: animate_def Let_def)
  next
    case (Some p)
    obtain ms s2 where p: "p = (ms, s2)" by (cases p)
    have c: "(fRunning s2 \<longrightarrow> fRunning s) \<and> (nStepping s2 = nStepping s \<or> nStepping s2 = 0)"
      using runCycles_ctl [of fuel True ?s1 ms s2] Some p by simp
    have "fRunning s' = fRunning s2 \<and> nStepping s' = nStepping s2"
      using assms True Some p by (auto simp: animate_def Let_def split: if_splits)
    then show ?thesis using c by simp
  qed
qed

lemma run_ctl:
  assumes "run fuel s = Some s'"
  shows "(fRunning s' \<longrightarrow> fRunning s) \<and> (nStepping s' = nStepping s \<or> nStepping s' = 0)"
proof (cases "fRunning s")
  case False
  then show ?thesis using assms by (auto simp: run_def Let_def)
next
  case True
  let ?s1 = "s\<lparr>idRunTimeout := False\<rparr>"
  show ?thesis
  proof (cases "runCycles fuel False ?s1")
    case None
    then show ?thesis using assms True by (simp add: run_def Let_def)
  next
    case (Some p)
    obtain ms s2 where p: "p = (ms, s2)" by (cases p)
    have c: "(fRunning s2 \<longrightarrow> fRunning s) \<and> (nStepping s2 = nStepping s \<or> nStepping s2 = 0)"
      using runCycles_ctl [of fuel False ?s1 ms s2] Some p by simp
    show ?thesis
    proof (cases "fRunning s2 \<and> \<not> fRequestAnimationFrame s2")
      case False
      then have "fRunning s' = fRunning s2 \<and> nStepping s' = nStepping s2"
        using assms True Some p by (auto simp: run_def Let_def split: if_splits)
      then show ?thesis using c by simp
    next
      case anim: True
      then have "animate fuel (s2\<lparr>idRunTimeout := True\<rparr>) = Some s'"
        using assms True Some p by (simp add: run_def Let_def)
      from animate_ctl [OF this] show ?thesis using c True by auto
    qed
  qed
qed

subsection \<open>The constructed scheduler\<close>

lemma calcCycles_frame [simp]:
  "fRunning (calcCycles s) = fRunning s" "nStepping (calcCycles s) = nStepping s"
  by (simp_all add: calcCycles_def Let_def)

lemma resetTimers_loop_frame [simp]:
  "fRunning (resetTimers_loop i s) = fRunning s \<and> nStepping (resetTimers_loop i s) = nStepping s"
  by (induction i arbitrary: s) (simp_all add: Let_def)

lemma resetTimers_frame [simp]:
  "fRunning (resetTimers s) = fRunning s" "nStepping (resetTimers s) = nStepping s"
  by (simp_all add: resetTimers_def)

lemma setSpeed_frame [simp]:
  "fRunning (snd (setSpeed a s)) = fRunning s" "nStepping (snd (setSpeed a s)) = nStepping s"
  by (simp_all add: setSpeed_def Let_def case_prod_beta split: option.splits)

lemma setSpeedThrottle_frame [simp]:
  "fRunning (snd (setSpeedThrottle s)) = fRunning s"
  "nStepping (snd (setSpeedThrottle s)) = nStepping s"
  by (simp_all add: setSpeedThrottle_def Let_def split: option.splits prod.splits)

lemma resetSpeed_frame [simp]:
  "fRunning (resetSpeed s) = fRunning s" "nStepping (resetSpeed s) = nStepping s"
  by (simp_all add: resetSpeed_def Let_def case_prod_beta)

lemma addTimer_frame [simp]:
  "fRunning (snd (addTimer name cb ms s)) = fRunning s"
  "nStepping (snd (addTimer name cb ms s)) = nStepping s"
  by (simp_all add: addTimer_def Let_def)

lemma Time_new_stopped:
  "\<not> fRunning (Time_new config answers acts now slider)"
  "nStepping (Time_new config answers acts now slider) = 0"
  by (simp_all add: Time_new_def Let_def)

lemma reachable_time_exclusive:
  "reachable_time s \<Longrightarrow> \<not> (fRunning s \<and> nStepping s \<noteq> 0)"
proof (induction rule: reachable_time.induct)
  case (t_new config answers acts now slider)
  show ?case by (simp add: Time_new_stopped)
next
  case (t_addClock s d)
  then show ?case by (simp add: addClock_def)
next
  case (t_addUpdate s d)
  then show ?case by (simp add: addUpdate_def)
next
  case (t_addAnimation s d)
  then show ?case by (simp add: addAnimation_def)
next
  case (t_addTimer s name k ms)
  then show ?case by simp
next
  case (t_setTimer s iTimer ms fReset)
  then show ?case by simp
next
  case (t_start s)
  then show ?case by (auto simp: start_result)
next
  case (t_stop s)
  then show ?case by (simp add: stop_result)
next
  case (t_step s fuel n r s')
  show ?case
  proof (cases "fRunning s")
    case True
    then have "s' = s" using t_step.hyps(2) by (simp add: step_running)
    then show ?thesis using t_step.IH by simp
  next
    case False
    from step_stopped [OF False t_step.hyps(2)] show ?thesis by simp
  qed
next
  case (t_step_throws s fuel n msg s')
  show ?case
  proof (cases "fRunning s")
    case True
    then show ?thesis using t_step_throws.hyps(2) by (simp add: step_running)
  next
    case False
    from step_stopped [OF False t_step_throws.hyps(2)] show ?thesis by simp
  qed
next
  case (t_run s fuel s')
  from run_ctl [OF t_run.hyps(2)] t_run.IH show ?case by auto
next
  case (t_animate s fuel s')
  from animate_ctl [OF t_animate.hyps(2)] t_animate.IH show ?case by auto
qed

text \<open>
  Claim C9. In every state the scheduler reaches, it is not both running and stepping.
  \<open>start()\<close> returns true exactly when the scheduler is neither running nor stepping,
  and then leaves it running and not stepping. \<open>step(n)\<close> answers at once with false
  while the scheduler runs, and a call that returns does so with true exactly when the
  scheduler was not running, which it still is not afterwards. \<open>stop()\<close> returns true
  exactly when the scheduler was running or stepping, and leaves it neither.
\<close>

theorem run_step_exclusive:
  assumes "reachable_time s"
  shows "\<not> (fRunning s \<and> nStepping s \<noteq> 0)
         \<and> fst (start s) = (\<not> fRunning s \<and> nStepping s = 0)
         \<and> (fst (start s) \<longrightarrow> fRunning (snd (start s)) \<and> nStepping (snd (start s)) = 0)
         \<and> (fRunning s \<longrightarrow> step fuel n s = Some (Inr (False, s)))
         \<and> (\<forall>r s'. step fuel n s = Some (Inr (r, s')) \<longrightarrow>
               r = (\<not> fRunning s) \<and> fRunning s' = fRunning s)
         \<and> fst (stop s) = (fRunning s \<or> nStepping s \<noteq> 0)
         \<and> \<not> fRunning (snd (stop s)) \<and> nStepping (snd (stop s)) = 0"
proof -
  have inv: "\<not> (fRunning s \<and> nStepping s \<noteq> 0)"
    using assms by (rule reachable_time_exclusive)
  have st: "fst (start s) \<longrightarrow> fRunning (snd (start s)) \<and> nStepping (snd (start s)) = 0"
    by (simp add: start_result)
  have sp: "\<forall>r s'. step fuel n s = Some (Inr (r, s')) \<longrightarrow>
               r = (\<not> fRunning s) \<and> fRunning s' = fRunning s"
  proof (intro allI impI)
    fix r s'
    assume a: "step fuel n s = Some (Inr (r, s'))"
    show "r = (\<not> fRunning s) \<and> fRunning s' = fRunning s"
    proof (cases "fRunning s")
      case True
      then show ?thesis using a by (simp add: step_running)
    next
      case False
      from step_stopped [OF False a] show ?thesis using False by simp
    qed
  qed
  have "nStepping (snd (stop s)) = 0" using inv by (auto simp: stop_result)
  then show ?thesis using inv st sp by (simp add: start_result stop_result step_running)
qed

theorem run_step_exclusive_witness:
  "reachable_time faulty_time \<and> fRunning faulty_time \<and> nStepping faulty_time = 0
   \<and> \<not> fst (start faulty_time) \<and> fst (stop faulty_time)
   \<and> step 1 1 faulty_time = Some (Inr (False, faulty_time))"
proof -
  have r: "reachable_time faulty_time"
    unfolding faulty_time_def default_time_def
    by (intro t_start t_addClock t_new)
  have f: "fRunning faulty_time" "nStepping faulty_time = 0"
    by (simp_all add: faulty_time_eq)
  show ?thesis
    using run_step_exclusive [OF r, of 1 1] r f by simp
qed

end
